(* ===== verification/Prelude.thy ===== *)
theory Prelude
  imports Main "HOL-Library.Word"
begin

unbundle bit_operations_syntax

text \<open>
  Shared vocabulary of the development: the machine integers and the flat, byte-addressed
  memory that the C code works on, little-endian loads and stores (the targets of the
  application, arm64 and x86_64, are little-endian), the outcome type of code that may
  leave the defined behaviour of C or may need more recursion depth than the fuel allows,
  and the generic lemmas on words, bytes and memory used by every component.
\<close>

type_synonym u8 = "8 word"
type_synonym u16 = "16 word"
type_synonym u32 = "32 word"
type_synonym u64 = "64 word"

text \<open>\<open>size_t\<close> is 64 bits wide on both targets; an address is an integer, 0 is \<open>NULL\<close>.\<close>

type_synonym size_t = "64 word"
type_synonym addr = int
type_synonym mem = "addr \<Rightarrow> u8"

named_theorems mem_simps \<open>reading and writing the flat memory\<close>
named_theorems le_simps \<open>little-endian encodings\<close>
named_theorems exec_simps \<open>sequencing of outcomes\<close>

subsection \<open>Outcomes\<close>

text \<open>
  \<open>Done\<close>: the code returned. \<open>Undefined\<close>: it left the defined behaviour of C (a call
  through a null function pointer, a table read out of bounds, \<open>free\<close> of a pointer that
  was not allocated). \<open>Out_of_fuel\<close>: the recursion is deeper than the fuel given to the model.
\<close>

datatype 'a exec = Done 'a | Undefined | Out_of_fuel

fun exec_bind :: "'a exec \<Rightarrow> ('a \<Rightarrow> 'b exec) \<Rightarrow> 'b exec" where
  "exec_bind (Done x) f = f x"
| "exec_bind Undefined f = Undefined"
| "exec_bind Out_of_fuel f = Out_of_fuel"

lemma exec_bind_Done_iff [exec_simps]:
  "exec_bind r f = Done y \<longleftrightarrow> (\<exists>x. r = Done x \<and> f x = Done y)"
  by (cases r) auto

lemma exec_bind_assoc: "exec_bind (exec_bind r f) g = exec_bind r (\<lambda>x. exec_bind (f x) g)"
  by (cases r) auto

text \<open>
  A C function that returns \<open>bool\<close> and updates a state: \<open>if (!f(..)) return false;\<close>
  continues only after \<open>true\<close>.
\<close>

definition seq :: "(bool \<times> 's) exec \<Rightarrow> ('s \<Rightarrow> (bool \<times> 's) exec) \<Rightarrow> (bool \<times> 's) exec" where
  "seq r k = exec_bind r (\<lambda>(ok, s). if ok then k s else Done (False, s))"

lemma seq_simps [simp]:
  "seq (Done (True, s)) k = k s"
  "seq (Done (False, s)) k = Done (False, s)"
  "seq Undefined k = Undefined"
  "seq Out_of_fuel k = Out_of_fuel"
  by (simp_all add: seq_def)

lemma seq_Done_True [exec_simps]:
  "seq r k = Done (True, t) \<longleftrightarrow> (\<exists>s. r = Done (True, s) \<and> k s = Done (True, t))"
  by (cases r) (auto simp: seq_def split: if_splits)

lemma seq_DoneE:
  assumes "seq r k = Done (ok, t)"
  obtains "r = Done (False, t)" "\<not> ok" | s where "r = Done (True, s)" "k s = Done (ok, t)"
  using assms by (cases r) (auto simp: seq_def split: if_splits)

subsection \<open>Memory\<close>

definition rd_bytes :: "mem \<Rightarrow> addr \<Rightarrow> nat \<Rightarrow> u8 list" where
  "rd_bytes m a n = map (\<lambda>i. m (a + int i)) [0..<n]"

fun wr_bytes :: "mem \<Rightarrow> addr \<Rightarrow> u8 list \<Rightarrow> mem" where
  "wr_bytes m a [] = m"
| "wr_bytes m a (b # bs) = wr_bytes (m(a := b)) (a + 1) bs"

lemma length_rd_bytes [simp]: "length (rd_bytes m a n) = n"
  by (simp add: rd_bytes_def)

lemma rd_bytes_0 [simp]: "rd_bytes m a 0 = []"
  by (simp add: rd_bytes_def)

lemma rd_bytes_Suc: "rd_bytes m a (Suc n) = m a # rd_bytes m (a + 1) n"
  by (simp add: rd_bytes_def upt_conv_Cons map_Suc_upt [symmetric] del: upt_Suc)
     (simp add: algebra_simps)

lemma rd_bytes_snoc: "rd_bytes m a (Suc n) = rd_bytes m a n @ [m (a + int n)]"
  by (simp add: rd_bytes_def)

lemma nth_rd_bytes [simp]: "i < n \<Longrightarrow> rd_bytes m a n ! i = m (a + int i)"
  by (simp add: rd_bytes_def)

lemma wr_bytes_other [mem_simps]:
  "p < a \<or> a + int (length bs) \<le> p \<Longrightarrow> wr_bytes m a bs p = m p"
  by (induction bs arbitrary: m a) auto

lemma wr_bytes_at:
  "i < length bs \<Longrightarrow> wr_bytes m a bs (a + int i) = bs ! i"
proof (induction bs arbitrary: m a i)
  case Nil
  then show ?case by simp
next
  case (Cons b bs)
  show ?case
  proof (cases i)
    case 0
    then show ?thesis by (simp add: wr_bytes_other)
  next
    case (Suc j)
    with Cons.prems have "wr_bytes (m(a := b)) (a + 1) bs (a + 1 + int j) = bs ! j"
      by (intro Cons.IH) simp
    with Suc show ?thesis by (simp add: add.assoc)
  qed
qed

lemma rd_wr_same [mem_simps]: "rd_bytes (wr_bytes m a bs) a (length bs) = bs"
  by (rule nth_equalityI) (simp_all add: wr_bytes_at)

lemma rd_wr_disjoint [mem_simps]:
  "a' + int n \<le> a \<or> a + int (length bs) \<le> a' \<Longrightarrow>
     rd_bytes (wr_bytes m a bs) a' n = rd_bytes m a' n"
  by (rule nth_equalityI) (auto simp: wr_bytes_other)

lemma rd_bytes_cong:
  "(\<And>p. a \<le> p \<Longrightarrow> p < a + int n \<Longrightarrow> m p = m' p) \<Longrightarrow> rd_bytes m a n = rd_bytes m' a n"
  by (rule nth_equalityI) auto

subsection \<open>Little-endian loads and stores\<close>

fun le_val :: "u8 list \<Rightarrow> 'a::len word" where
  "le_val [] = 0"
| "le_val (b # bs) = ucast b OR push_bit 8 (le_val bs)"

fun le_bytes :: "nat \<Rightarrow> 'a::len word \<Rightarrow> u8 list" where
  "le_bytes 0 w = []"
| "le_bytes (Suc n) w = ucast w # le_bytes n (drop_bit 8 w)"

lemma length_le_bytes [simp]: "length (le_bytes n w) = n"
  by (induction n arbitrary: w) auto

lemma le_val_le_bytes: "le_val (le_bytes n w) = take_bit (8 * n) w"
proof (induction n arbitrary: w)
  case 0
  then show ?case by simp
next
  case (Suc n)
  show ?case
    by (simp add: Suc.IH) (auto simp: bit_eq_iff bit_simps not_less)
qed

lemma le_val_le_bytes_full [le_simps]:
  "LENGTH('a) \<le> 8 * n \<Longrightarrow> le_val (le_bytes n w) = (w :: 'a::len word)"
  by (simp add: le_val_le_bytes) (auto simp: bit_eq_iff bit_simps dest: bit_imp_le_length)

lemma le_bytes_le_val [le_simps]:
  "8 * length bs \<le> LENGTH('a) \<Longrightarrow> le_bytes (length bs) (le_val bs :: 'a::len word) = bs"
proof (induction bs)
  case Nil
  then show ?case by simp
next
  case (Cons b bs)
  let ?v = "le_val bs :: 'a word"
  have lo: "ucast (ucast b OR push_bit 8 ?v) = b"
    using Cons.prems by (auto simp: bit_eq_iff bit_simps dest: bit_imp_le_length)
  have top: "\<not> bit ?v k" if "8 * length bs \<le> k" for k
    using that
  proof (induction bs arbitrary: k)
    case (Cons c cs)
    then show ?case by (auto simp: bit_simps dest: bit_imp_le_length)
  qed simp
  have hi: "drop_bit 8 (ucast b OR push_bit 8 ?v) = ?v"
    using Cons.prems
    by (auto simp: bit_eq_iff bit_simps top dest: bit_imp_le_length)
  have "le_bytes (length bs) ?v = bs" using Cons by simp
  then show ?case by (simp only: length_Cons le_bytes.simps le_val.simps lo hi)
qed

definition rd16 :: "mem \<Rightarrow> addr \<Rightarrow> u16" where "rd16 m a = le_val (rd_bytes m a 2)"
definition rd32 :: "mem \<Rightarrow> addr \<Rightarrow> u32" where "rd32 m a = le_val (rd_bytes m a 4)"
definition rd64 :: "mem \<Rightarrow> addr \<Rightarrow> u64" where "rd64 m a = le_val (rd_bytes m a 8)"
definition rdptr :: "mem \<Rightarrow> addr \<Rightarrow> addr" where "rdptr m a = uint (rd64 m a)"
definition wr16 :: "mem \<Rightarrow> addr \<Rightarrow> u16 \<Rightarrow> mem" where "wr16 m a w = wr_bytes m a (le_bytes 2 w)"
definition wr32 :: "mem \<Rightarrow> addr \<Rightarrow> u32 \<Rightarrow> mem" where "wr32 m a w = wr_bytes m a (le_bytes 4 w)"
definition wr64 :: "mem \<Rightarrow> addr \<Rightarrow> u64 \<Rightarrow> mem" where "wr64 m a w = wr_bytes m a (le_bytes 8 w)"
definition wrptr :: "mem \<Rightarrow> addr \<Rightarrow> addr \<Rightarrow> mem" where "wrptr m a p = wr64 m a (word_of_int p)"

lemma rd_wr_word [mem_simps]:
  "rd16 (wr16 m a w2) a = w2" "rd32 (wr32 m a w4) a = w4" "rd64 (wr64 m a w8) a = w8"
  using rd_wr_same [of m a "le_bytes 2 w2"] rd_wr_same [of m a "le_bytes 4 w4"]
    rd_wr_same [of m a "le_bytes 8 w8"]
  by (simp_all add: rd16_def wr16_def rd32_def wr32_def rd64_def wr64_def le_simps)

lemma rdptr_wrptr [mem_simps]: "0 \<le> p \<Longrightarrow> p < 2 ^ 64 \<Longrightarrow> rdptr (wrptr m a p) a = p"
  by (simp add: rdptr_def wrptr_def mem_simps uint_word_of_int)

lemma rd_word_disjoint [mem_simps]:
  "a' + 2 \<le> a \<or> a + int (length bs) \<le> a' \<Longrightarrow> rd16 (wr_bytes m a bs) a' = rd16 m a'"
  "a' + 4 \<le> a \<or> a + int (length bs) \<le> a' \<Longrightarrow> rd32 (wr_bytes m a bs) a' = rd32 m a'"
  "a' + 8 \<le> a \<or> a + int (length bs) \<le> a' \<Longrightarrow> rd64 (wr_bytes m a bs) a' = rd64 m a'"
  by (simp_all add: rd16_def rd32_def rd64_def rd_wr_disjoint)

subsection \<open>Bytes bit by bit\<close>

lemma all_less_8: "(\<forall>n < 8. P n) \<longleftrightarrow> P 0 \<and> P 1 \<and> P 2 \<and> P 3 \<and> P 4 \<and> P 5 \<and> P 6 \<and> P (7::nat)"
proof
  assume r: "P 0 \<and> P 1 \<and> P 2 \<and> P 3 \<and> P 4 \<and> P 5 \<and> P 6 \<and> P 7"
  show "\<forall>n < 8. P n"
  proof (intro allI impI)
    fix n :: nat assume "n < 8"
    then consider "n = 0" | "n = 1" | "n = 2" | "n = 3" | "n = 4" | "n = 5" | "n = 6" | "n = 7" by linarith
    then show "P n" using r by cases simp_all
  qed
qed simp

lemma u8_eqI: "(\<forall>n < 8. bit x n = bit y n) \<Longrightarrow> x = (y :: u8)"
  by (rule bit_word_eqI) simp

subsection \<open>Counters of 64 bits\<close>

lemma unat_add_of_nat64:
  "unat (w :: u64) + n < 2 ^ 64 \<Longrightarrow> unat (w + of_nat n) = unat w + n"
  by (simp add: unat_word_ariths unat_of_nat)

lemma unat_u64_less: "unat (w :: u64) < 2 ^ 64"
  using unsigned_less [of w, where ?'a = nat] by simp

lemma unat_minus_of_nat:
  "n \<le> unat (w :: u64) \<Longrightarrow> unat (w - of_nat n) = unat w - n"
  using unsigned_less [of w, where ?'a = nat]
  by (simp add: unat_sub_if' unat_of_nat word_le_nat_alt)

lemma unat_of_nat_le64: "n \<le> unat (w :: u64) \<Longrightarrow> unat (of_nat n :: u64) = n"
  using unsigned_less [of w, where ?'a = nat] by (simp add: unat_of_nat)

end
