(* ===== verification/Pb_Types.thy ===== *)
theory Pb_Types
  imports Prelude
begin

text \<open>
  The declarations of nanopb: \<open>pb.h\<close> (field descriptors, type codes, callbacks,
  extensions, error messages) and the stream structures of \<open>pb_encode.h\<close> and
  \<open>pb_decode.h\<close>. The configuration is the one the application is built with
  (\<open>nanopb.xcconfig\<close>): \<open>PB_FIELD_32BIT\<close>, \<open>PB_ENABLE_MALLOC\<close>, \<open>PB_NO_PACKED_STRUCTS\<close>,
  with error messages, custom streams and 64-bit support.
\<close>

unbundle bit_operations_syntax

subsection \<open>Type codes\<close>

definition PB_LTYPE_VARINT :: u8 where "PB_LTYPE_VARINT = 0x00"
definition PB_LTYPE_UVARINT :: u8 where "PB_LTYPE_UVARINT = 0x01"
definition PB_LTYPE_SVARINT :: u8 where "PB_LTYPE_SVARINT = 0x02"
definition PB_LTYPE_FIXED32 :: u8 where "PB_LTYPE_FIXED32 = 0x03"
definition PB_LTYPE_FIXED64 :: u8 where "PB_LTYPE_FIXED64 = 0x04"
definition PB_LTYPE_LAST_PACKABLE :: u8 where "PB_LTYPE_LAST_PACKABLE = 0x04"
definition PB_LTYPE_BYTES :: u8 where "PB_LTYPE_BYTES = 0x05"
definition PB_LTYPE_STRING :: u8 where "PB_LTYPE_STRING = 0x06"
definition PB_LTYPE_SUBMESSAGE :: u8 where "PB_LTYPE_SUBMESSAGE = 0x07"
definition PB_LTYPE_EXTENSION :: u8 where "PB_LTYPE_EXTENSION = 0x08"
definition PB_LTYPE_FIXED_LENGTH_BYTES :: u8 where "PB_LTYPE_FIXED_LENGTH_BYTES = 0x09"
definition PB_HTYPE_REQUIRED :: u8 where "PB_HTYPE_REQUIRED = 0x00"
definition PB_HTYPE_OPTIONAL :: u8 where "PB_HTYPE_OPTIONAL = 0x10"
definition PB_HTYPE_REPEATED :: u8 where "PB_HTYPE_REPEATED = 0x20"
definition PB_HTYPE_ONEOF :: u8 where "PB_HTYPE_ONEOF = 0x30"
definition PB_ATYPE_STATIC :: u8 where "PB_ATYPE_STATIC = 0x00"
definition PB_ATYPE_POINTER :: u8 where "PB_ATYPE_POINTER = 0x80"
definition PB_ATYPE_CALLBACK :: u8 where "PB_ATYPE_CALLBACK = 0x40"

definition PB_ATYPE :: "u8 \<Rightarrow> u8" where "PB_ATYPE x = x AND 0xC0"
definition PB_HTYPE :: "u8 \<Rightarrow> u8" where "PB_HTYPE x = x AND 0x30"
definition PB_LTYPE :: "u8 \<Rightarrow> u8" where "PB_LTYPE x = x AND 0x0F"

lemmas pb_codes =
  PB_LTYPE_VARINT_def PB_LTYPE_UVARINT_def PB_LTYPE_SVARINT_def PB_LTYPE_FIXED32_def
  PB_LTYPE_FIXED64_def PB_LTYPE_LAST_PACKABLE_def PB_LTYPE_BYTES_def PB_LTYPE_STRING_def
  PB_LTYPE_SUBMESSAGE_def PB_LTYPE_EXTENSION_def PB_LTYPE_FIXED_LENGTH_BYTES_def
  PB_HTYPE_REQUIRED_def PB_HTYPE_OPTIONAL_def PB_HTYPE_REPEATED_def PB_HTYPE_ONEOF_def
  PB_ATYPE_STATIC_def PB_ATYPE_POINTER_def PB_ATYPE_CALLBACK_def

lemmas pb_type_defs = pb_codes PB_ATYPE_def PB_HTYPE_def PB_LTYPE_def

text \<open>The scalar type of each proto type.\<close>

datatype proto_type =
  T_BOOL | T_BYTES | T_DOUBLE | T_ENUM | T_UENUM | T_FIXED32 | T_FIXED64 | T_FLOAT | T_INT32
  | T_INT64 | T_MESSAGE | T_SFIXED32 | T_SFIXED64 | T_SINT32 | T_SINT64 | T_STRING | T_UINT32
  | T_UINT64 | T_EXTENSION | T_FIXED_LENGTH_BYTES

fun PB_LTYPE_MAP :: "proto_type \<Rightarrow> u8" where
  "PB_LTYPE_MAP T_BOOL = PB_LTYPE_VARINT"
| "PB_LTYPE_MAP T_BYTES = PB_LTYPE_BYTES"
| "PB_LTYPE_MAP T_DOUBLE = PB_LTYPE_FIXED64"
| "PB_LTYPE_MAP T_ENUM = PB_LTYPE_VARINT"
| "PB_LTYPE_MAP T_UENUM = PB_LTYPE_UVARINT"
| "PB_LTYPE_MAP T_FIXED32 = PB_LTYPE_FIXED32"
| "PB_LTYPE_MAP T_FIXED64 = PB_LTYPE_FIXED64"
| "PB_LTYPE_MAP T_FLOAT = PB_LTYPE_FIXED32"
| "PB_LTYPE_MAP T_INT32 = PB_LTYPE_VARINT"
| "PB_LTYPE_MAP T_INT64 = PB_LTYPE_VARINT"
| "PB_LTYPE_MAP T_MESSAGE = PB_LTYPE_SUBMESSAGE"
| "PB_LTYPE_MAP T_SFIXED32 = PB_LTYPE_FIXED32"
| "PB_LTYPE_MAP T_SFIXED64 = PB_LTYPE_FIXED64"
| "PB_LTYPE_MAP T_SINT32 = PB_LTYPE_SVARINT"
| "PB_LTYPE_MAP T_SINT64 = PB_LTYPE_SVARINT"
| "PB_LTYPE_MAP T_STRING = PB_LTYPE_STRING"
| "PB_LTYPE_MAP T_UINT32 = PB_LTYPE_UVARINT"
| "PB_LTYPE_MAP T_UINT64 = PB_LTYPE_UVARINT"
| "PB_LTYPE_MAP T_EXTENSION = PB_LTYPE_EXTENSION"
| "PB_LTYPE_MAP T_FIXED_LENGTH_BYTES = PB_LTYPE_FIXED_LENGTH_BYTES"

subsection \<open>Wire types\<close>

text \<open>The decoder casts any three-bit value to the enumeration, so it is kept as its value.\<close>

type_synonym pb_wire_type_t = u32

definition PB_WT_VARINT :: pb_wire_type_t where "PB_WT_VARINT = 0"
definition PB_WT_64BIT :: pb_wire_type_t where "PB_WT_64BIT = 1"
definition PB_WT_STRING :: pb_wire_type_t where "PB_WT_STRING = 2"
definition PB_WT_32BIT :: pb_wire_type_t where "PB_WT_32BIT = 5"

lemmas wt_defs = PB_WT_VARINT_def PB_WT_64BIT_def PB_WT_STRING_def PB_WT_32BIT_def

subsection \<open>Field descriptors\<close>

text \<open>
  \<open>ptr\<close> is null, the descriptor array of a submessage (an index into the table of the
  program's descriptor arrays, so that descriptors may refer to each other), or the bytes
  of a default value.
\<close>

datatype field_ptr = Ptr_null | Ptr_submsg nat | Ptr_default "u8 list"

record pb_field =
  tag :: u32
  ftype :: u8
  data_offset :: u32
  size_offset :: "32 word"
  data_size :: u32
  array_size :: u32
  ptr :: field_ptr

definition PB_SIZE_MAX :: u32 where "PB_SIZE_MAX = -1"

definition PB_LAST_FIELD :: pb_field where
  "PB_LAST_FIELD = \<lparr>tag = 0, ftype = 0, data_offset = 0, size_offset = 0, data_size = 0,
     array_size = 0, ptr = Ptr_null\<rparr>"

text \<open>
  A descriptor array is the list of its entries without the terminator; the entry after
  the last one is \<open>PB_LAST_FIELD\<close>.
\<close>

definition fld :: "pb_field list \<Rightarrow> nat \<Rightarrow> pb_field" where
  "fld fs i = (if i < length fs then fs ! i else PB_LAST_FIELD)"

lemma fld_end [simp]: "tag (fld fs (length fs)) = 0"
  by (simp add: fld_def PB_LAST_FIELD_def)

text \<open>
  The macros that build the entries: \<open>fd\<close> is the offset relative to the end of the
  previous field, \<open>delta\<close> the offset of the \<open>has_\<close>, \<open>_count\<close> or \<open>which_\<close> member relative
  to the data, \<open>sz\<close> the member (or array element) size and \<open>cnt\<close> the array length.
\<close>

definition PB_REQUIRED_STATIC :: "u32 \<Rightarrow> u32 \<Rightarrow> u32 \<Rightarrow> u8 \<Rightarrow> field_ptr \<Rightarrow> pb_field" where
  "PB_REQUIRED_STATIC t fd sz ltype p =
     \<lparr>tag = t, ftype = PB_ATYPE_STATIC OR PB_HTYPE_REQUIRED OR ltype, data_offset = fd,
      size_offset = 0, data_size = sz, array_size = 0, ptr = p\<rparr>"

definition PB_OPTIONAL_STATIC :: "u32 \<Rightarrow> u32 \<Rightarrow> u32 \<Rightarrow> u32 \<Rightarrow> u8 \<Rightarrow> field_ptr \<Rightarrow> pb_field" where
  "PB_OPTIONAL_STATIC t fd delta sz ltype p =
     \<lparr>tag = t, ftype = PB_ATYPE_STATIC OR PB_HTYPE_OPTIONAL OR ltype, data_offset = fd,
      size_offset = delta, data_size = sz, array_size = 0, ptr = p\<rparr>"

definition PB_SINGULAR_STATIC :: "u32 \<Rightarrow> u32 \<Rightarrow> u32 \<Rightarrow> u8 \<Rightarrow> field_ptr \<Rightarrow> pb_field" where
  "PB_SINGULAR_STATIC t fd sz ltype p =
     \<lparr>tag = t, ftype = PB_ATYPE_STATIC OR PB_HTYPE_OPTIONAL OR ltype, data_offset = fd,
      size_offset = 0, data_size = sz, array_size = 0, ptr = p\<rparr>"

definition PB_REPEATED_STATIC ::
    "u32 \<Rightarrow> u32 \<Rightarrow> u32 \<Rightarrow> u32 \<Rightarrow> u32 \<Rightarrow> u8 \<Rightarrow> field_ptr \<Rightarrow> pb_field" where
  "PB_REPEATED_STATIC t fd delta sz cnt ltype p =
     \<lparr>tag = t, ftype = PB_ATYPE_STATIC OR PB_HTYPE_REPEATED OR ltype, data_offset = fd,
      size_offset = delta, data_size = sz, array_size = cnt, ptr = p\<rparr>"

definition PB_REPEATED_FIXED_COUNT :: "u32 \<Rightarrow> u32 \<Rightarrow> u32 \<Rightarrow> u32 \<Rightarrow> u8 \<Rightarrow> field_ptr \<Rightarrow> pb_field" where
  "PB_REPEATED_FIXED_COUNT t fd sz cnt ltype p =
     \<lparr>tag = t, ftype = PB_ATYPE_STATIC OR PB_HTYPE_REPEATED OR ltype, data_offset = fd,
      size_offset = 0, data_size = sz, array_size = cnt, ptr = p\<rparr>"

definition PB_REQUIRED_POINTER :: "u32 \<Rightarrow> u32 \<Rightarrow> u32 \<Rightarrow> u8 \<Rightarrow> field_ptr \<Rightarrow> pb_field" where
  "PB_REQUIRED_POINTER t fd sz ltype p =
     \<lparr>tag = t, ftype = PB_ATYPE_POINTER OR PB_HTYPE_REQUIRED OR ltype, data_offset = fd,
      size_offset = 0, data_size = sz, array_size = 0, ptr = p\<rparr>"

definition PB_OPTIONAL_POINTER :: "u32 \<Rightarrow> u32 \<Rightarrow> u32 \<Rightarrow> u8 \<Rightarrow> field_ptr \<Rightarrow> pb_field" where
  "PB_OPTIONAL_POINTER t fd sz ltype p =
     \<lparr>tag = t, ftype = PB_ATYPE_POINTER OR PB_HTYPE_OPTIONAL OR ltype, data_offset = fd,
      size_offset = 0, data_size = sz, array_size = 0, ptr = p\<rparr>"

definition PB_SINGULAR_POINTER :: "u32 \<Rightarrow> u32 \<Rightarrow> u32 \<Rightarrow> u8 \<Rightarrow> field_ptr \<Rightarrow> pb_field" where
  "PB_SINGULAR_POINTER t fd sz ltype p =
     \<lparr>tag = t, ftype = PB_ATYPE_POINTER OR PB_HTYPE_OPTIONAL OR ltype, data_offset = fd,
      size_offset = 0, data_size = sz, array_size = 0, ptr = p\<rparr>"

definition PB_REPEATED_POINTER :: "u32 \<Rightarrow> u32 \<Rightarrow> u32 \<Rightarrow> u32 \<Rightarrow> u8 \<Rightarrow> field_ptr \<Rightarrow> pb_field" where
  "PB_REPEATED_POINTER t fd delta sz ltype p =
     \<lparr>tag = t, ftype = PB_ATYPE_POINTER OR PB_HTYPE_REPEATED OR ltype, data_offset = fd,
      size_offset = delta, data_size = sz, array_size = 0, ptr = p\<rparr>"

definition PB_OPTIONAL_CALLBACK :: "u32 \<Rightarrow> u32 \<Rightarrow> u32 \<Rightarrow> u8 \<Rightarrow> field_ptr \<Rightarrow> pb_field" where
  "PB_OPTIONAL_CALLBACK t fd sz ltype p =
     \<lparr>tag = t, ftype = PB_ATYPE_CALLBACK OR PB_HTYPE_OPTIONAL OR ltype, data_offset = fd,
      size_offset = 0, data_size = sz, array_size = 0, ptr = p\<rparr>"

definition PB_REQUIRED_CALLBACK :: "u32 \<Rightarrow> u32 \<Rightarrow> u32 \<Rightarrow> u8 \<Rightarrow> field_ptr \<Rightarrow> pb_field" where
  "PB_REQUIRED_CALLBACK t fd sz ltype p =
     \<lparr>tag = t, ftype = PB_ATYPE_CALLBACK OR PB_HTYPE_REQUIRED OR ltype, data_offset = fd,
      size_offset = 0, data_size = sz, array_size = 0, ptr = p\<rparr>"

definition PB_SINGULAR_CALLBACK :: "u32 \<Rightarrow> u32 \<Rightarrow> u32 \<Rightarrow> u8 \<Rightarrow> field_ptr \<Rightarrow> pb_field" where
  "PB_SINGULAR_CALLBACK t fd sz ltype p =
     \<lparr>tag = t, ftype = PB_ATYPE_CALLBACK OR PB_HTYPE_OPTIONAL OR ltype, data_offset = fd,
      size_offset = 0, data_size = sz, array_size = 0, ptr = p\<rparr>"

definition PB_REPEATED_CALLBACK :: "u32 \<Rightarrow> u32 \<Rightarrow> u32 \<Rightarrow> u8 \<Rightarrow> field_ptr \<Rightarrow> pb_field" where
  "PB_REPEATED_CALLBACK t fd sz ltype p =
     \<lparr>tag = t, ftype = PB_ATYPE_CALLBACK OR PB_HTYPE_REPEATED OR ltype, data_offset = fd,
      size_offset = 0, data_size = sz, array_size = 0, ptr = p\<rparr>"

definition PB_ONEOF_POINTER :: "u32 \<Rightarrow> u32 \<Rightarrow> u32 \<Rightarrow> u32 \<Rightarrow> u8 \<Rightarrow> field_ptr \<Rightarrow> pb_field" where
  "PB_ONEOF_POINTER t fd delta sz ltype p =
     \<lparr>tag = t, ftype = PB_ATYPE_POINTER OR PB_HTYPE_ONEOF OR ltype, data_offset = fd,
      size_offset = delta, data_size = sz, array_size = 0, ptr = p\<rparr>"

definition PB_ONEOF_STATIC :: "u32 \<Rightarrow> u32 \<Rightarrow> u32 \<Rightarrow> u32 \<Rightarrow> u8 \<Rightarrow> field_ptr \<Rightarrow> pb_field" where
  "PB_ONEOF_STATIC t fd delta sz ltype p =
     \<lparr>tag = t, ftype = PB_ATYPE_STATIC OR PB_HTYPE_ONEOF OR ltype, data_offset = fd,
      size_offset = delta, data_size = sz, array_size = 0, ptr = p\<rparr>"

lemmas pb_field_macros =
  PB_REQUIRED_STATIC_def PB_OPTIONAL_STATIC_def PB_SINGULAR_STATIC_def PB_REPEATED_STATIC_def
  PB_REPEATED_FIXED_COUNT_def PB_REQUIRED_POINTER_def PB_OPTIONAL_POINTER_def
  PB_SINGULAR_POINTER_def PB_REPEATED_POINTER_def PB_OPTIONAL_CALLBACK_def PB_ONEOF_STATIC_def
  PB_REQUIRED_CALLBACK_def PB_SINGULAR_CALLBACK_def PB_REPEATED_CALLBACK_def PB_ONEOF_POINTER_def

subsection \<open>Streams\<close>

text \<open>
  An output stream's callback is null (a sizing stream), \<open>buf_write\<close> or a user function.
  The state of \<open>buf_write\<close> is a pointer that advances through the buffer; here it is the
  list of the bytes written so far, and a user function works on the bytes it has accepted.
\<close>

datatype ocallback = Sizing | Buf_write | User_write "u8 list \<Rightarrow> u8 list \<Rightarrow> bool \<times> u8 list"

record pb_ostream =
  callback :: ocallback
  state :: "u8 list"
  max_size :: size_t
  bytes_written :: size_t
  errmsg :: "string option"

definition PB_OSTREAM_SIZING :: pb_ostream where
  "PB_OSTREAM_SIZING =
     \<lparr>callback = Sizing, state = [], max_size = 0, bytes_written = 0, errmsg = None\<rparr>"

text \<open>
  An input stream's callback is \<open>buf_read\<close> or a user function, which fills the
  destination (the function gives the contents of the buffer after the call) or fails,
  where it may also report the end of the input by clearing \<open>bytes_left\<close>. The state is the
  input that is still to come.
\<close>

datatype read_result = Read_ok "nat \<Rightarrow> u8" "u8 list" | Read_error "u8 list" | Read_eof "u8 list"

datatype icallback = Buf_read | User_read "size_t \<Rightarrow> u8 list \<Rightarrow> read_result"

record pb_istream =
  icallback :: icallback
  istate :: "u8 list"
  bytes_left :: size_t
  ierrmsg :: "string option"

text \<open>\<open>PB_SET_ERROR\<close> keeps the first message; \<open>PB_RETURN_ERROR\<close> also returns false.\<close>

definition PB_SET_ERROR :: "string \<Rightarrow> pb_ostream \<Rightarrow> pb_ostream" where
  "PB_SET_ERROR msg s = s\<lparr>errmsg := (case errmsg s of None \<Rightarrow> Some msg | Some e \<Rightarrow> Some e)\<rparr>"

definition PB_SET_ERROR_in :: "string \<Rightarrow> pb_istream \<Rightarrow> pb_istream" where
  "PB_SET_ERROR_in msg s = s\<lparr>ierrmsg := (case ierrmsg s of None \<Rightarrow> Some msg | Some e \<Rightarrow> Some e)\<rparr>"

lemma PB_SET_ERROR_simps [simp]:
  "callback (PB_SET_ERROR msg s) = callback s" "state (PB_SET_ERROR msg s) = state s"
  "max_size (PB_SET_ERROR msg s) = max_size s"
  "bytes_written (PB_SET_ERROR msg s) = bytes_written s"
  "errmsg (PB_SET_ERROR msg s) \<noteq> None"
  by (simp_all add: PB_SET_ERROR_def split: option.split)

lemma PB_SET_ERROR_in_simps [simp]:
  "icallback (PB_SET_ERROR_in msg s) = icallback s" "istate (PB_SET_ERROR_in msg s) = istate s"
  "bytes_left (PB_SET_ERROR_in msg s) = bytes_left s"
  "ierrmsg (PB_SET_ERROR_in msg s) \<noteq> None"
  by (simp_all add: PB_SET_ERROR_in_def split: option.split)

subsection \<open>The allocator\<close>

text \<open>
  \<open>realloc\<close> and \<open>free\<close> of the C library over an arena: a block is carved at \<open>brk\<close>, the
  old contents are copied, the old block is given back; a request that does not fit
  returns \<open>NULL\<close>. A pointer that is not the start of a live block is \<open>Undefined\<close>.
\<close>

record heap =
  hmem :: mem
  brk :: addr
  limit :: addr
  blocks :: "addr \<Rightarrow> nat option"

definition pb_realloc :: "heap \<Rightarrow> addr \<Rightarrow> nat \<Rightarrow> (addr \<times> heap) exec" where
  "pb_realloc h p n =
     (if p \<noteq> 0 \<and> blocks h p = None then Undefined
      else if limit h < brk h + int n then Done (0, h)
      else
        (let old = (if p = 0 then 0 else the (blocks h p));
             m = wr_bytes (hmem h) (brk h) (rd_bytes (hmem h) p (min old n))
         in Done (brk h,
              h\<lparr>hmem := m, brk := brk h + int n,
                blocks := ((blocks h)(p := None))(brk h \<mapsto> n)\<rparr>)))"

definition pb_free :: "heap \<Rightarrow> addr \<Rightarrow> heap exec" where
  "pb_free h p =
     (if p = 0 then Done h
      else if blocks h p = None then Undefined
      else Done (h\<lparr>blocks := (blocks h)(p := None)\<rparr>))"

subsection \<open>Callbacks, extensions and the program's tables\<close>

text \<open>
  Code outside nanopb enters through function pointers stored in messages: the encoder and
  decoder callbacks of \<open>pb_callback_t\<close> (the pointer at offset 0, the argument at offset 8)
  and the handlers of \<open>pb_extension_type_t\<close>. They are parameters of the model, collected
  with the program's descriptor tables in one environment, which also places the one local
  variable of the decoder whose address is taken (\<open>fixed_count_size\<close>, a slot per nesting
  depth). The extension records themselves
  (\<open>type\<close>, \<open>dest\<close>, \<open>next\<close>, \<open>found\<close> at offsets 0, 8, 16, 24) lie in memory.
\<close>

record pb_extension_type =
  ext_decode :: "(pb_istream \<Rightarrow> addr \<Rightarrow> u32 \<Rightarrow> pb_wire_type_t \<Rightarrow> heap \<Rightarrow>
                    (bool \<times> pb_istream \<times> heap) exec) option"
  ext_encode :: "(pb_ostream \<Rightarrow> addr \<Rightarrow> mem \<Rightarrow> (bool \<times> pb_ostream) exec) option"
  ext_arg :: pb_field

record pb_env =
  msg_desc :: "nat \<Rightarrow> pb_field list"
  encode_cb :: "addr \<Rightarrow> pb_ostream \<Rightarrow> pb_field \<Rightarrow> addr \<Rightarrow> mem \<Rightarrow> (bool \<times> pb_ostream) exec"
  decode_cb :: "addr \<Rightarrow> pb_istream \<Rightarrow> pb_field \<Rightarrow> addr \<Rightarrow> heap \<Rightarrow> (bool \<times> pb_istream \<times> heap) exec"
  ext_type :: "addr \<Rightarrow> pb_extension_type"
  frame_slot :: "nat \<Rightarrow> addr"

definition extension_type :: "pb_env \<Rightarrow> mem \<Rightarrow> addr \<Rightarrow> pb_extension_type" where
  "extension_type E m e = ext_type E (rdptr m e)"
definition extension_dest :: "mem \<Rightarrow> addr \<Rightarrow> addr" where "extension_dest m e = rdptr m (e + 8)"
definition extension_next :: "mem \<Rightarrow> addr \<Rightarrow> addr" where "extension_next m e = rdptr m (e + 16)"

text \<open>\<open>PB_BYTES_ARRAY_T\<close>: a 32-bit size followed by the bytes.\<close>

definition PB_BYTES_ARRAY_T_ALLOCSIZE :: "u64 \<Rightarrow> size_t" where
  "PB_BYTES_ARRAY_T_ALLOCSIZE n = n + 4"

end
