(* ===== verification/Pb_Common.thy ===== *)
theory Pb_Common
  imports Pb_Types
begin

text \<open>
  The field iterator of \<open>pb_common.c\<close>: it walks a descriptor array and computes the
  address of each field of the message structure from the relative offsets. The lemmas
  show that a full round visits every descriptor once, that \<open>pb_field_iter_find\<close> ends
  within one round and finds a field exactly when there is one. That the addresses are those of
  the structure's members is shown in \<open>Pb_Layout\<close>.
\<close>

unbundle bit_operations_syntax

record pb_field_iter =
  start :: "pb_field list"
  pos :: nat
  required_field_index :: u32
  dest_struct :: addr
  pData :: addr
  pSize :: addr

definition cur :: "pb_field_iter \<Rightarrow> pb_field" where
  "cur it = fld (start it) (pos it)"

definition pb_field_iter_begin :: "pb_field list \<Rightarrow> addr \<Rightarrow> bool \<times> pb_field_iter" where
  "pb_field_iter_begin fs dest =
     (let f = fld fs 0; d = dest + uint (data_offset f)
      in (tag f \<noteq> 0,
          \<lparr>start = fs, pos = 0, required_field_index = 0, dest_struct = dest,
           pData = d, pSize = d + sint (size_offset f)\<rparr>))"

definition prev_field_size :: "pb_field \<Rightarrow> int" where
  "prev_field_size f =
     (if PB_ATYPE (ftype f) = PB_ATYPE_STATIC \<and> PB_HTYPE (ftype f) = PB_HTYPE_REPEATED
      then uint (data_size f) * uint (array_size f)
      else if PB_ATYPE (ftype f) = PB_ATYPE_POINTER then 8
      else uint (data_size f))"

definition pb_field_iter_next :: "pb_field_iter \<Rightarrow> bool \<times> pb_field_iter" where
  "pb_field_iter_next it =
     (let prev = cur it in
      if tag prev = 0 then (False, it)
      else
        (let it1 = it\<lparr>pos := Suc (pos it)\<rparr>; f = cur it1 in
         if tag f = 0 then (False, snd (pb_field_iter_begin (start it) (dest_struct it)))
         else if PB_HTYPE (ftype prev) = PB_HTYPE_ONEOF \<and> PB_HTYPE (ftype f) = PB_HTYPE_ONEOF
                 \<and> data_offset f = PB_SIZE_MAX
         then (True, it1)
         else
           (let it2 = (if PB_HTYPE (ftype prev) = PB_HTYPE_REQUIRED
                       then it1\<lparr>required_field_index := required_field_index it1 + 1\<rparr> else it1);
                d = pData it + prev_field_size prev + uint (data_offset f)
            in (True, it2\<lparr>pData := d, pSize := d + sint (size_offset f)\<rparr>))))"

text \<open>
  The \<open>do .. while (iter->pos != start)\<close> loop, with the number of steps as fuel:
  \<open>Suc (length fields)\<close> steps go all the way round (\<open>find_loop_total\<close>).
\<close>

fun find_loop :: "nat \<Rightarrow> (pb_field \<Rightarrow> bool) \<Rightarrow> nat \<Rightarrow> pb_field_iter \<Rightarrow> (bool \<times> pb_field_iter) exec" where
  "find_loop 0 p s it = Out_of_fuel"
| "find_loop (Suc k) p s it =
     (if p (cur it) then Done (True, it)
      else (let it' = snd (pb_field_iter_next it)
            in if pos it' \<noteq> s then find_loop k p s it' else Done (False, it')))"

definition pb_field_iter_find :: "pb_field_iter \<Rightarrow> u32 \<Rightarrow> (bool \<times> pb_field_iter) exec" where
  "pb_field_iter_find it t =
     find_loop (Suc (length (start it)))
       (\<lambda>f. tag f = t \<and> PB_LTYPE (ftype f) \<noteq> PB_LTYPE_EXTENSION) (pos it) it"

subsection \<open>The positions of a round\<close>

text \<open>
  \<open>iter_at fs d i\<close>: the iterator after \<open>i\<close> steps from the beginning. Every iterator the
  code works with has this form, so the addresses depend only on the index.
\<close>

fun iter_at :: "pb_field list \<Rightarrow> addr \<Rightarrow> nat \<Rightarrow> pb_field_iter" where
  "iter_at fs d 0 = snd (pb_field_iter_begin fs d)"
| "iter_at fs d (Suc i) = snd (pb_field_iter_next (iter_at fs d i))"

definition wf_fields :: "pb_field list \<Rightarrow> bool" where
  "wf_fields fs = (\<forall>f \<in> set fs. tag f \<noteq> 0)"

lemma fld_nth [simp]: "i < length fs \<Longrightarrow> fld fs i = fs ! i"
  by (simp add: fld_def)

lemma wf_fields_tag: "wf_fields fs \<Longrightarrow> i < length fs \<Longrightarrow> tag (fs ! i) \<noteq> 0"
  by (simp add: wf_fields_def)

lemma begin_simps [simp]:
  "start (snd (pb_field_iter_begin fs d)) = fs" "pos (snd (pb_field_iter_begin fs d)) = 0"
  "dest_struct (snd (pb_field_iter_begin fs d)) = d"
  "required_field_index (snd (pb_field_iter_begin fs d)) = 0"
  by (simp_all add: pb_field_iter_begin_def Let_def)

lemma iter_at_basic:
  assumes "wf_fields fs" "i < length fs"
  shows "start (iter_at fs d i) = fs \<and> pos (iter_at fs d i) = i \<and> dest_struct (iter_at fs d i) = d"
  using assms(2)
proof (induction i)
  case 0
  then show ?case by simp
next
  case (Suc i)
  then have "start (iter_at fs d i) = fs" "pos (iter_at fs d i) = i" "dest_struct (iter_at fs d i) = d"
    by simp_all
  with Suc.prems wf_fields_tag [OF assms(1), of i] wf_fields_tag [OF assms(1), of "Suc i"]
  show ?case by (simp add: pb_field_iter_next_def cur_def Let_def)
qed

lemma cur_iter_at: "wf_fields fs \<Longrightarrow> i < length fs \<Longrightarrow> cur (iter_at fs d i) = fs ! i"
  by (simp add: cur_def iter_at_basic)

lemma next_iter_at:
  assumes "wf_fields fs" "i < length fs"
  shows "pb_field_iter_next (iter_at fs d i) =
           (Suc i < length fs, iter_at fs d (if Suc i < length fs then Suc i else 0))"
proof (cases "Suc i < length fs")
  case True
  then have "tag (fs ! i) \<noteq> 0" "tag (fs ! Suc i) \<noteq> 0"
    using wf_fields_tag [OF assms(1)] by simp_all
  with True assms have "fst (pb_field_iter_next (iter_at fs d i))"
    by (simp add: pb_field_iter_next_def cur_def Let_def iter_at_basic)
  with True show ?thesis by (simp add: prod_eq_iff)
next
  case False
  with assms(2) have l: "Suc i = length fs" by simp
  then have "tag (fs ! i) \<noteq> 0" "tag (fld fs (Suc i)) = 0"
    using wf_fields_tag [OF assms] by simp_all
  with l assms show ?thesis
    by (simp add: pb_field_iter_next_def cur_def Let_def iter_at_basic)
qed

lemma htype_codes_distinct [simp]:
  "PB_HTYPE_REQUIRED \<noteq> PB_HTYPE_ONEOF" "PB_HTYPE_ONEOF \<noteq> PB_HTYPE_REQUIRED"
  "PB_HTYPE_REQUIRED \<noteq> PB_HTYPE_REPEATED" "PB_HTYPE_REPEATED \<noteq> PB_HTYPE_REQUIRED"
  "PB_HTYPE_REQUIRED \<noteq> PB_HTYPE_OPTIONAL" "PB_HTYPE_OPTIONAL \<noteq> PB_HTYPE_REQUIRED"
  "PB_HTYPE_OPTIONAL \<noteq> PB_HTYPE_REPEATED" "PB_HTYPE_REPEATED \<noteq> PB_HTYPE_OPTIONAL"
  "PB_HTYPE_OPTIONAL \<noteq> PB_HTYPE_ONEOF" "PB_HTYPE_ONEOF \<noteq> PB_HTYPE_OPTIONAL"
  "PB_HTYPE_REPEATED \<noteq> PB_HTYPE_ONEOF" "PB_HTYPE_ONEOF \<noteq> PB_HTYPE_REPEATED"
  by (simp_all add: pb_codes)

lemma htype_cases:
  "PB_HTYPE t = PB_HTYPE_REQUIRED \<or> PB_HTYPE t = PB_HTYPE_OPTIONAL \<or>
   PB_HTYPE t = PB_HTYPE_REPEATED \<or> PB_HTYPE t = PB_HTYPE_ONEOF"
proof -
  have d: "x AND (2 ^ i OR 2 ^ j) = (if bit x i then 2 ^ i else 0) OR (if bit x j then 2 ^ j else 0)"
    for x :: u8 and i j
    by (intro bit_word_eqI) (auto simp: bit_simps)
  have "t AND 0x30 = t AND (2 ^ 4 OR 2 ^ 5)" by simp
  then have "t AND 0x30 = (if bit t 4 then 2 ^ 4 else 0) OR (if bit t 5 then 2 ^ 5 else 0)"
    unfolding d .
  then show ?thesis
    unfolding pb_codes PB_HTYPE_def by simp
qed

lemma atype_codes_distinct [simp]:
  "PB_ATYPE_STATIC \<noteq> PB_ATYPE_POINTER" "PB_ATYPE_POINTER \<noteq> PB_ATYPE_STATIC"
  "PB_ATYPE_STATIC \<noteq> PB_ATYPE_CALLBACK" "PB_ATYPE_CALLBACK \<noteq> PB_ATYPE_STATIC"
  "PB_ATYPE_POINTER \<noteq> PB_ATYPE_CALLBACK" "PB_ATYPE_CALLBACK \<noteq> PB_ATYPE_POINTER"
  by (simp_all add: pb_codes)

definition is_required :: "pb_field \<Rightarrow> bool" where
  "is_required f = (PB_HTYPE (ftype f) = PB_HTYPE_REQUIRED)"

definition union_step :: "pb_field \<Rightarrow> pb_field \<Rightarrow> bool" where
  "union_step f g = (PB_HTYPE (ftype f) = PB_HTYPE_ONEOF \<and> PB_HTYPE (ftype g) = PB_HTYPE_ONEOF
     \<and> data_offset g = PB_SIZE_MAX)"

lemma iter_at_Suc:
  assumes "wf_fields fs" "Suc i < length fs"
  defines "f \<equiv> fs ! i" and "g \<equiv> fs ! Suc i"
  shows "required_field_index (iter_at fs d (Suc i)) =
           required_field_index (iter_at fs d i) + (if is_required f then 1 else 0)"
    and "pData (iter_at fs d (Suc i)) =
           (if union_step f g then pData (iter_at fs d i)
            else pData (iter_at fs d i) + prev_field_size f + uint (data_offset g))"
    and "pSize (iter_at fs d (Suc i)) =
           (if union_step f g then pSize (iter_at fs d i)
            else pData (iter_at fs d (Suc i)) + sint (size_offset g))"
  using assms(2) wf_fields_tag [OF assms(1), of i] wf_fields_tag [OF assms(1), of "Suc i"]
  by (auto simp: pb_field_iter_next_def cur_def Let_def iter_at_basic [OF assms(1)] f_def g_def
      is_required_def union_step_def)

lemma required_index_iter_at:
  assumes "wf_fields fs" "i < length fs"
  shows "required_field_index (iter_at fs d i) = of_nat (length (filter is_required (take i fs)))"
  using assms(2)
proof (induction i)
  case 0
  then show ?case by simp
next
  case (Suc i)
  then show ?case
    by (simp add: iter_at_Suc [OF assms(1)] take_Suc_conv_app_nth del: iter_at.simps)
qed

subsection \<open>Searching\<close>

lemma find_loop_round:
  assumes wf: "wf_fields fs" and n: "n = length fs" "s < n"
  shows "m < n \<Longrightarrow> n - m \<le> k \<Longrightarrow> (\<forall>i < m. \<not> p (fs ! ((s + i) mod n))) \<Longrightarrow>
    (\<exists>j < n. p (fs ! j) \<and> find_loop k p s (iter_at fs d ((s + m) mod n)) = Done (True, iter_at fs d j))
    \<or> (\<forall>i < n. \<not> p (fs ! ((s + i) mod n))) \<and>
       find_loop k p s (iter_at fs d ((s + m) mod n)) = Done (False, iter_at fs d s)"
proof (induction k arbitrary: m)
  case 0
  then show ?case by simp
next
  case (Suc k)
  let ?c = "(s + m) mod n"
  have "0 < n" using n by linarith
  then have "?c < n" by (rule mod_less_divisor)
  with n(1) have c: "?c < n" "?c < length fs" by (simp_all only:)
  show ?case
  proof (cases "p (fs ! ?c)")
    case True
    with c wf show ?thesis by (intro disjI1 exI [of _ ?c]) (simp add: cur_iter_at)
  next
    case False
    have nxt: "(if Suc ?c < length fs then Suc ?c else 0) = (s + Suc m) mod n"
      using c n by (simp add: mod_Suc)
    have upto: "\<forall>i < Suc m. \<not> p (fs ! ((s + i) mod n))"
      using Suc.prems False by (simp add: less_Suc_eq)
    have c': "(s + Suc m) mod n < length fs" using mod_less_divisor [OF \<open>0 < n\<close>] n(1) by (simp only:)
    have step: "find_loop (Suc k) p s (iter_at fs d ?c) =
        (if (s + Suc m) mod n \<noteq> s then find_loop k p s (iter_at fs d ((s + Suc m) mod n))
         else Done (False, iter_at fs d ((s + Suc m) mod n)))"
      using False wf c c'
      by (simp add: cur_iter_at next_iter_at iter_at_basic nxt Let_def del: mod_Suc)
    show ?thesis
    proof (cases "Suc m < n")
      case True
      have "(s + Suc m) mod n \<noteq> s"
      proof
        assume "(s + Suc m) mod n = s"
        with n(2) have "(s + Suc m) mod n = (s + 0) mod n" by simp
        then have "n dvd (s + Suc m) - (s + 0)"
          by (subst (asm) mod_eq_dvd_iff_nat) simp_all
        then have "n dvd Suc m" by simp
        with True show False by (auto dest: dvd_imp_le)
      qed
      with step Suc.IH [OF True _ upto] Suc.prems(2) show ?thesis by simp
    next
      case False
      with Suc.prems have "Suc m = n" by simp
      with step n upto show ?thesis by simp
    qed
  qed
qed

lemma find_loop_total:
  assumes "wf_fields fs" "s < length fs"
  shows "(\<exists>j < length fs. p (fs ! j) \<and>
            find_loop (Suc (length fs)) p s (iter_at fs d s) = Done (True, iter_at fs d j))
    \<or> (\<forall>f \<in> set fs. \<not> p f) \<and>
       find_loop (Suc (length fs)) p s (iter_at fs d s) = Done (False, iter_at fs d s)"
proof -
  let ?n = "length fs"
  have all: "(\<forall>i < ?n. \<not> p (fs ! ((s + i) mod ?n))) \<longleftrightarrow> (\<forall>f \<in> set fs. \<not> p f)"
  proof
    assume *: "\<forall>i < ?n. \<not> p (fs ! ((s + i) mod ?n))"
    show "\<forall>f \<in> set fs. \<not> p f"
    proof
      fix f assume "f \<in> set fs"
      then obtain j where j: "j < ?n" "f = fs ! j" by (auto simp: in_set_conv_nth)
      let ?i = "(j + (?n - s)) mod ?n"
      have "(s + ?i) mod ?n = (s + (j + (?n - s))) mod ?n" by (simp add: mod_add_right_eq)
      also have "\<dots> = j" using j assms(2) by simp
      finally have "(s + ?i) mod ?n = j" .
      moreover have "?i < ?n" using assms(2) by (intro mod_less_divisor) linarith
      ultimately show "\<not> p f" using * j(2) by metis
    qed
  next
    assume *: "\<forall>f \<in> set fs. \<not> p f"
    have "(s + i) mod ?n < ?n" for i using assms(2) by (intro mod_less_divisor) linarith
    then show "\<forall>i < ?n. \<not> p (fs ! ((s + i) mod ?n))" using * nth_mem by blast
  qed
  have "fs \<noteq> []" using assms(2) by auto
  with find_loop_round [OF assms(1) refl assms(2), of 0 "Suc ?n" p d] assms(2) show ?thesis
    unfolding all by (simp del: find_loop.simps)
qed

lemma pb_field_iter_find_spec:
  assumes "wf_fields fs" "s < length fs"
  shows "(\<exists>j < length fs. tag (fs ! j) = t \<and> PB_LTYPE (ftype (fs ! j)) \<noteq> PB_LTYPE_EXTENSION \<and>
            pb_field_iter_find (iter_at fs d s) t = Done (True, iter_at fs d j))
    \<or> (\<forall>f \<in> set fs. tag f = t \<longrightarrow> PB_LTYPE (ftype f) = PB_LTYPE_EXTENSION) \<and>
       pb_field_iter_find (iter_at fs d s) t = Done (False, iter_at fs d s)"
  using find_loop_total [OF assms, of "\<lambda>f. tag f = t \<and> PB_LTYPE (ftype f) \<noteq> PB_LTYPE_EXTENSION" d]
    iter_at_basic [OF assms]
  unfolding pb_field_iter_find_def by auto

subsection \<open>Loops over all fields\<close>

text \<open>
  The recurring \<open>do { .. } while (pb_field_iter_next(&iter))\<close>: the body may fail, which ends
  the loop. One round takes \<open>length fields\<close> steps (\<open>iter_loop_seq_upto\<close>).
\<close>

fun iter_loop :: "nat \<Rightarrow> (pb_field_iter \<Rightarrow> 's \<Rightarrow> (bool \<times> 's) exec) \<Rightarrow> pb_field_iter \<Rightarrow> 's \<Rightarrow>
    (bool \<times> 's) exec" where
  "iter_loop 0 body it s = Out_of_fuel"
| "iter_loop (Suc k) body it s =
     seq (body it s)
       (\<lambda>s'. let (more, it') = pb_field_iter_next it
             in if more then iter_loop k body it' s' else Done (True, s'))"

definition for_fields :: "(pb_field_iter \<Rightarrow> 's \<Rightarrow> (bool \<times> 's) exec) \<Rightarrow> pb_field_iter \<Rightarrow> 's \<Rightarrow>
    (bool \<times> 's) exec" where
  "for_fields body it s = iter_loop (length (start it)) body it s"

fun seq_upto :: "(nat \<Rightarrow> 's \<Rightarrow> (bool \<times> 's) exec) \<Rightarrow> nat \<Rightarrow> nat \<Rightarrow> 's \<Rightarrow> (bool \<times> 's) exec" where
  "seq_upto body i 0 s = Done (True, s)"
| "seq_upto body i (Suc k) s = seq (body i s) (seq_upto body (Suc i) k)"

lemma seq_upto_0: "seq_upto body j 0 = (\<lambda>s. Done (True, s))"
  by (rule ext) simp

lemma iter_loop_seq_upto:
  assumes "wf_fields fs"
  shows "i < length fs \<Longrightarrow> length fs - i = k \<Longrightarrow>
    iter_loop k body (iter_at fs d i) s = seq_upto (\<lambda>j. body (iter_at fs d j)) i k s"
proof (induction k arbitrary: i s)
  case 0
  then show ?case by simp
next
  case (Suc k)
  show ?case
  proof (cases "Suc i < length fs")
    case True
    with Suc.prems have "length fs - Suc i = k" by simp
    from Suc.IH [OF True this] True show ?thesis
      by (simp add: next_iter_at [OF assms Suc.prems(1)] del: iter_at.simps)
  next
    case False
    with Suc.prems have "k = 0" by simp
    with False Suc.prems show ?thesis
      by (simp add: seq_upto_0 next_iter_at [OF assms Suc.prems(1)] del: iter_at.simps)
  qed
qed

lemma for_fields_seq_upto:
  assumes "wf_fields fs" "fs \<noteq> []"
  shows "for_fields body (snd (pb_field_iter_begin fs d)) s =
         seq_upto (\<lambda>j. body (iter_at fs d j)) 0 (length fs) s"
  using iter_loop_seq_upto [OF assms(1), of 0 "length fs" body d s] assms(2)
  by (simp add: for_fields_def)

end
