(* ===== verification/Varint.thy ===== *)
theory Varint
  imports Prelude
begin

text \<open>
  The base-128 varint format as a reference definition on natural numbers, shared by the
  two components that implement it (nanopb in C, LevelDB's coding routines in C++), and
  the interface of a self-delimiting binary code: a locale whose law is that a decoder
  undoes the encoder whatever bytes follow. Its consequences (injectivity, prefix
  freedom, decoding of a sequence) are proved once and interpreted by each component.
\<close>

subsection \<open>Self-delimiting codes\<close>

fun dec_many :: "(u8 list \<Rightarrow> ('a \<times> u8 list) option) \<Rightarrow> nat \<Rightarrow> u8 list \<Rightarrow> ('a list \<times> u8 list) option" where
  "dec_many dec 0 bs = Some ([], bs)"
| "dec_many dec (Suc n) bs =
     (case dec bs of None \<Rightarrow> None
      | Some (x, r) \<Rightarrow>
          (case dec_many dec n r of None \<Rightarrow> None | Some (xs, r') \<Rightarrow> Some (x # xs, r')))"

locale codec =
  fixes enc :: "'a \<Rightarrow> u8 list"
    and dec :: "u8 list \<Rightarrow> ('a \<times> u8 list) option"
    and valid :: "'a \<Rightarrow> bool"
  assumes dec_enc: "valid x \<Longrightarrow> dec (enc x @ r) = Some (x, r)"
begin

lemma prefix_free:
  assumes "valid x" "valid y" "enc x @ r = enc y @ s"
  shows "x = y \<and> r = s"
proof -
  have "Some (x, r) = dec (enc x @ r)" using assms(1) by (simp add: dec_enc)
  also have "\<dots> = Some (y, s)" using assms(2,3) by (simp add: dec_enc)
  finally show ?thesis by simp
qed

lemma enc_inj: "valid x \<Longrightarrow> valid y \<Longrightarrow> enc x = enc y \<Longrightarrow> x = y"
  using prefix_free [of x y "[]" "[]"] by simp

lemma dec_many_enc:
  "\<forall>x \<in> set xs. valid x \<Longrightarrow> dec_many dec (length xs) (concat (map enc xs) @ r) = Some (xs, r)"
  by (induction xs) (auto simp: dec_enc)

lemma enc_seq_inj:
  assumes "\<forall>x \<in> set xs. valid x" "\<forall>y \<in> set ys. valid y" "length xs = length ys"
    and "concat (map enc xs) @ r = concat (map enc ys) @ s"
  shows "xs = ys \<and> r = s"
proof -
  have "Some (xs, r) = dec_many dec (length xs) (concat (map enc xs) @ r)"
    using assms(1) by (rule dec_many_enc [symmetric])
  also have "\<dots> = dec_many dec (length ys) (concat (map enc ys) @ s)"
    by (simp only: assms(3,4))
  also have "\<dots> = Some (ys, s)"
    using assms(2) by (rule dec_many_enc)
  finally show ?thesis by simp
qed

end

subsection \<open>The varint format\<close>

fun vbytes :: "nat \<Rightarrow> u8 list" where
  "vbytes n = (if n < 128 then [of_nat n] else of_nat (n mod 128 + 128) # vbytes (n div 128))"

declare vbytes.simps [simp del]

fun vdec :: "u8 list \<Rightarrow> (nat \<times> u8 list) option" where
  "vdec [] = None"
| "vdec (b # bs) =
     (if unat b < 128 then Some (unat b, bs)
      else map_option (\<lambda>(v, r). (unat b - 128 + 128 * v, r)) (vdec bs))"

lemma unat_u8_of_nat: "n < 256 \<Longrightarrow> unat (of_nat n :: u8) = n"
  by (simp add: unat_of_nat)

lemma vdec_vbytes: "vdec (vbytes n @ r) = Some (n, r)"
proof (induction n rule: vbytes.induct)
  case (1 n)
  show ?case
  proof (cases "n < 128")
    case True
    then show ?thesis by (subst vbytes.simps) (simp add: unat_u8_of_nat)
  next
    case False
    have "n mod 128 + 128 < 256" by simp
    with False "1.IH" show ?thesis
      by (subst vbytes.simps) (simp add: unat_u8_of_nat del: of_nat_add)
  qed
qed

interpretation varint: codec vbytes vdec "\<lambda>_. True"
  by unfold_locales (simp add: vdec_vbytes)

lemma vbytes_not_Nil [simp]: "vbytes n \<noteq> []"
  by (subst vbytes.simps) simp

lemma length_vbytes_le: "0 < k \<Longrightarrow> n < 128 ^ k \<Longrightarrow> length (vbytes n) \<le> k"
proof (induction k arbitrary: n)
  case 0
  then show ?case by simp
next
  case (Suc k)
  show ?case
  proof (cases "n < 128")
    case True
    then show ?thesis by (subst vbytes.simps) simp
  next
    case False
    with Suc.prems have k: "0 < k" and n: "n div 128 < 128 ^ k"
      by (cases k; simp add: div_less_iff_less_mult mult.commute)+
    from Suc.IH [OF this] False show ?thesis by (subst vbytes.simps) simp
  qed
qed

lemma length_vbytes_u64: "length (vbytes (unat (v :: u64))) \<le> 10"
  using unat_u64_less [of v] by (intro length_vbytes_le) simp_all

lemma length_vbytes_u32: "length (vbytes (unat (v :: u32))) \<le> 5"
  using unsigned_less [of v, where ?'a = nat] by (intro length_vbytes_le) simp_all

lemma length_vbytes_ge: "128 ^ k \<le> n \<Longrightarrow> k < length (vbytes n)"
proof (induction k arbitrary: n)
  case 0
  then show ?case by simp
next
  case (Suc k)
  then have "128 \<le> n" "128 ^ k \<le> n div 128"
    using order_trans [OF _ Suc.prems, of 128]
    by (auto simp: less_eq_div_iff_mult_less_eq mult.commute)
  with Suc.IH [of "n div 128"] show ?case by (subst vbytes.simps) simp
qed

subsection \<open>The word steps of the implementations\<close>

lemma unat_drop7: "unat (drop_bit 7 (v :: 'a::len word)) = unat v div 128"
proof -
  have "unat (drop_bit 7 v) = drop_bit 7 (unat v)" by (rule unat_drop_bit_eq)
  also have "\<dots> = unat v div 2 ^ 7" by (rule drop_bit_eq_div)
  finally show ?thesis by simp
qed

lemma ucast_eq_of_nat: "(ucast (v :: 'a::len word) :: 'b::len word) = of_nat (unat v)"
  by (simp add: unsigned_of_nat word_eq_iff_unsigned unsigned_ucast_eq)

lemma ucast_byte_of_nat: "(ucast (v :: 'a::len word) :: u8) = of_nat (unat v)"
  by (simp add: unsigned_of_nat word_eq_iff_unsigned unsigned_ucast_eq)

lemma unat_and_mask7: "8 \<le> LENGTH('a) \<Longrightarrow> unat (v AND 0x7F :: 'a::len word) = unat v mod 128"
proof -
  assume "8 \<le> LENGTH('a)"
  then have "v AND 0x7F = take_bit 7 v"
    by (simp add: take_bit_eq_mask mask_eq_exp_minus_1)
  then show ?thesis by (simp only: unsigned_take_bit_eq) (simp add: take_bit_eq_mod)
qed

lemma cont_byte:
  assumes "8 \<le> LENGTH('a)"
  shows "(ucast ((v AND 0x7F) OR 0x80 :: 'a::len word) :: u8) = of_nat (unat v mod 128 + 128)"
proof -
  have "(ucast ((v AND 0x7F) OR 0x80 :: 'a word) :: u8) = ucast (v AND 0x7F) + 0x80"
  proof -
    have c: "(0x80 :: 'a word) = 2 ^ 7" "(0x80 :: u8) = 2 ^ 7" "(0x7F :: 'a word) = mask 7"
      by (simp_all add: mask_eq_exp_minus_1)
    have d: "ucast (v AND mask 7) AND (2 ^ 7 :: u8) = 0"
      by (subst and_exp_eq_0_iff_not_bit) (simp only: bit_simps, simp)
    show ?thesis
      unfolding c disjunctive_add_eq_or [OF d]
      using assms by (intro bit_word_eqI) (auto simp: bit_simps)
  qed
  also have "\<dots> = of_nat (unat v mod 128 + 128)"
    using assms by (simp add: ucast_byte_of_nat unat_and_mask7)
  finally show ?thesis .
qed

lemma top_bit_u8: "b AND 0x80 = 0 \<longleftrightarrow> unat (b :: u8) < 128"
proof -
  have e: "(0x80 :: u8) = 2 ^ 7" by simp
  have "b AND 0x80 = 0 \<longleftrightarrow> \<not> bit (unat b) 7"
    unfolding e and_exp_eq_0_iff_not_bit by (simp add: bit_unsigned_iff)
  also have "\<dots> \<longleftrightarrow> even (unat b div 2 ^ 7)"
    by (simp only: bit_iff_odd not_not)
  also have "\<dots> \<longleftrightarrow> unat b < 128"
  proof -
    have "unat b < 256" using unsigned_less [of b, where ?'a = nat] by simp
    then have "unat b div 2 ^ 7 < 2" by simp
    then have "even (unat b div 2 ^ 7) \<longleftrightarrow> unat b div 2 ^ 7 = 0" by auto
    then show ?thesis by (simp add: div_eq_0_iff)
  qed
  finally show ?thesis .
qed

lemma unat_or_push:
  assumes "unat r < 2 ^ k" "unat x * 2 ^ k < 2 ^ LENGTH('a)"
  shows "unat (r OR push_bit k x :: 'a::len word) = unat r + unat x * 2 ^ k"
proof -
  have r: "r = take_bit k r"
    using assms(1) by (metis less_mask_eq take_bit_eq_mask unsigned_take_bit_eq
        take_bit_nat_eq_self word_unat_eq_iff)
  have "r OR push_bit k x = r + push_bit k x"
  proof (subst disjunctive_add_eq_or)
    have "bit r n \<Longrightarrow> n < k" for n
      by (subst (asm) r) (simp add: bit_simps)
    then show "r AND push_bit k x = 0"
      by (fastforce simp: bit_eq_iff bit_simps)
  qed simp
  moreover have p: "unat (push_bit k x) = unat x * 2 ^ k"
  proof -
    have "unat (push_bit k x) = take_bit LENGTH('a) (push_bit k (unat x))"
      by (rule unsigned_push_bit_eq)
    also have "\<dots> = unat x * 2 ^ k mod 2 ^ LENGTH('a)"
      by (simp only: take_bit_eq_mod push_bit_eq_mult)
    finally show ?thesis using assms(2) by simp
  qed
  moreover have "unat r + unat x * 2 ^ k < 2 ^ LENGTH('a)"
  proof (cases "unat x = 0")
    case True
    then show ?thesis by (simp add: unsigned_less)
  next
    case False
    have kl: "k < LENGTH('a)"
    proof (rule ccontr)
      assume "\<not> k < LENGTH('a)"
      then have "(2::nat) ^ LENGTH('a) \<le> 2 ^ k" by simp
      also have "\<dots> \<le> unat x * 2 ^ k" using False by simp
      finally show False using assms(2) by simp
    qed
    then have e: "(2::nat) ^ LENGTH('a) = 2 ^ (LENGTH('a) - k) * 2 ^ k"
      by (simp flip: power_add)
    with assms(2) have "unat x < 2 ^ (LENGTH('a) - k)" by simp
    then have "(unat x + 1) * 2 ^ k \<le> 2 ^ LENGTH('a)"
      unfolding e by (intro mult_right_mono) auto
    with assms(1) show ?thesis by (simp add: algebra_simps)
  qed
  ultimately show ?thesis
    by (simp add: unat_word_ariths)
qed

lemma of_nat_mod_div7:
  "(of_nat n :: 'a::len word) = of_nat (n mod 128) OR push_bit 7 (of_nat (n div 128))"
proof (rule bit_word_eqI)
  fix k assume "k < LENGTH('a)"
  have "bit n k \<longleftrightarrow> bit (take_bit 7 n OR push_bit 7 (drop_bit 7 n)) k"
    by (cases "k < 7") (auto simp: bit_simps)
  moreover have "take_bit 7 n = n mod 128" "drop_bit 7 n = n div 128"
    by (simp_all add: take_bit_eq_mod drop_bit_eq_div)
  ultimately show "bit (of_nat n :: 'a word) k \<longleftrightarrow>
      bit (of_nat (n mod 128) OR push_bit 7 (of_nat (n div 128)) :: 'a word) k"
    using \<open>k < LENGTH('a)\<close>
    by (auto simp: bit_simps)
qed

lemma push_of_nat_mod_div7:
  "push_bit k (of_nat (n mod 128)) OR push_bit (k + 7) (of_nat (n div 128)) =
     (push_bit k (of_nat n) :: 'a::len word)"
  by (subst (3) of_nat_mod_div7) (simp add: push_bit_or add.commute)

text \<open>The first byte of a varint: its low bits and its continuation bit.\<close>

lemma ucast_low7: "ucast ((b :: u8) AND 0x7F) = (of_nat (unat b mod 128) :: 'a::len word)"
  by (subst ucast_eq_of_nat) (simp add: unat_and_mask7)

lemma vbyte_last:
  assumes "n < 128"
  shows "(of_nat n :: u8) AND 0x80 = 0" "ucast ((of_nat n :: u8) AND 0x7F) = (of_nat n :: 'a::len word)"
  using assms unat_u8_of_nat [of n] by (simp_all only: top_bit_u8 ucast_low7) simp_all

lemma vbyte_cont:
  assumes "m < 128"
  shows "(of_nat (m + 128) :: u8) AND 0x80 \<noteq> 0"
    "ucast ((of_nat (m + 128) :: u8) AND 0x7F) = (of_nat m :: 'a::len word)"
  using assms unat_u8_of_nat [of "m + 128"] by (simp_all only: top_bit_u8 ucast_low7) simp_all

end
