(* ===== verification/Pb_Ostream.thy ===== *)
theory Pb_Ostream
  imports Pb_Types Varint
begin

text \<open>
  The output streams of \<open>pb_encode.c\<close> and the scalar writers on top of them: \<open>pb_write\<close>,
  varints, zig-zag, fixed-width values, tags and strings. The contract \<open>emits f bs\<close> says
  what a writer does on every stream without a user callback: a sizing stream counts the
  bytes, a buffer with room receives exactly \<open>bs\<close>, a buffer without room makes the
  writer return false and never receives more than its size.
\<close>

unbundle bit_operations_syntax

subsection \<open>Streams\<close>

definition buf_write :: "pb_ostream \<Rightarrow> u8 list \<Rightarrow> size_t \<Rightarrow> bool \<times> pb_ostream" where
  "buf_write s buf count = (True, s\<lparr>state := state s @ take (unat count) buf\<rparr>)"

definition pb_ostream_from_buffer :: "size_t \<Rightarrow> pb_ostream" where
  "pb_ostream_from_buffer bufsize =
     \<lparr>callback = Buf_write, state = [], max_size = bufsize, bytes_written = 0, errmsg = None\<rparr>"

definition ostream_callback :: "pb_ostream \<Rightarrow> u8 list \<Rightarrow> size_t \<Rightarrow> bool \<times> pb_ostream" where
  "ostream_callback s buf count =
     (case callback s of
        Sizing \<Rightarrow> (True, s)
      | Buf_write \<Rightarrow> buf_write s buf count
      | User_write w \<Rightarrow> (let (ok, st) = w (take (unat count) buf) (state s) in (ok, s\<lparr>state := st\<rparr>)))"

definition is_sizing :: "pb_ostream \<Rightarrow> bool" where
  "is_sizing s = (case callback s of Sizing \<Rightarrow> True | _ \<Rightarrow> False)"

definition pb_write :: "pb_ostream \<Rightarrow> u8 list \<Rightarrow> size_t \<Rightarrow> bool \<times> pb_ostream" where
  "pb_write s buf count =
     (if \<not> is_sizing s then
        (if max_size s < bytes_written s + count then (False, PB_SET_ERROR ''stream full'' s)
         else
           (let (ok, s1) = ostream_callback s buf count in
            if \<not> ok then (False, PB_SET_ERROR ''io error'' s1)
            else (True, s1\<lparr>bytes_written := bytes_written s1 + count\<rparr>)))
      else (True, s\<lparr>bytes_written := bytes_written s + count\<rparr>))"

subsection \<open>Scalars\<close>

text \<open>The loop \<open>while (value)\<close> that fills the buffer with continuation bytes.\<close>

function varint_loop :: "u64 \<Rightarrow> u8 list" where
  "varint_loop v =
     (if v = 0 then [] else ucast ((v AND 0x7F) OR 0x80) # varint_loop (drop_bit 7 v))"
  by auto
termination
proof (relation "measure unat", goal_cases)
  case (2 v)
  then have "0 < unat v" by (simp add: unat_gt_0)
  then show ?case by (simp only: in_measure unat_drop7)
qed simp

declare varint_loop.simps [simp del]

definition pb_encode_varint :: "pb_ostream \<Rightarrow> u64 \<Rightarrow> bool \<times> pb_ostream" where
  "pb_encode_varint s v =
     (if v \<le> 0x7F then pb_write s [ucast v] 1
      else
        (let buffer = varint_loop v;
             bytes = butlast buffer @ [last buffer AND 0x7F]
         in pb_write s bytes (of_nat (length buffer))))"

definition zigzag :: "u64 \<Rightarrow> u64" where
  "zigzag v = (if sint v < 0 then NOT (push_bit 1 v) else push_bit 1 v)"

definition pb_encode_svarint :: "pb_ostream \<Rightarrow> u64 \<Rightarrow> bool \<times> pb_ostream" where
  "pb_encode_svarint s v = pb_encode_varint s (zigzag v)"

definition pb_encode_fixed32 :: "mem \<Rightarrow> pb_ostream \<Rightarrow> addr \<Rightarrow> bool \<times> pb_ostream" where
  "pb_encode_fixed32 m s a =
     (let val = rd32 m a;
          bytes = [ucast (val AND 0xFF), ucast (drop_bit 8 val AND 0xFF),
                   ucast (drop_bit 16 val AND 0xFF), ucast (drop_bit 24 val AND 0xFF)]
      in pb_write s bytes 4)"

definition pb_encode_fixed64 :: "mem \<Rightarrow> pb_ostream \<Rightarrow> addr \<Rightarrow> bool \<times> pb_ostream" where
  "pb_encode_fixed64 m s a =
     (let val = rd64 m a;
          bytes = [ucast (val AND 0xFF), ucast (drop_bit 8 val AND 0xFF),
                   ucast (drop_bit 16 val AND 0xFF), ucast (drop_bit 24 val AND 0xFF),
                   ucast (drop_bit 32 val AND 0xFF), ucast (drop_bit 40 val AND 0xFF),
                   ucast (drop_bit 48 val AND 0xFF), ucast (drop_bit 56 val AND 0xFF)]
      in pb_write s bytes 8)"

definition pb_encode_tag :: "pb_ostream \<Rightarrow> pb_wire_type_t \<Rightarrow> u32 \<Rightarrow> bool \<times> pb_ostream" where
  "pb_encode_tag s wiretype field_number =
     pb_encode_varint s (push_bit 3 (ucast field_number :: u64) OR ucast wiretype)"

definition field_wire_type :: "u8 \<Rightarrow> pb_wire_type_t option" where
  "field_wire_type lt =
     (if lt = PB_LTYPE_VARINT \<or> lt = PB_LTYPE_UVARINT \<or> lt = PB_LTYPE_SVARINT then Some PB_WT_VARINT
      else if lt = PB_LTYPE_FIXED32 then Some PB_WT_32BIT
      else if lt = PB_LTYPE_FIXED64 then Some PB_WT_64BIT
      else if lt = PB_LTYPE_BYTES \<or> lt = PB_LTYPE_STRING \<or> lt = PB_LTYPE_SUBMESSAGE
              \<or> lt = PB_LTYPE_FIXED_LENGTH_BYTES then Some PB_WT_STRING
      else None)"

definition pb_encode_tag_for_field :: "pb_ostream \<Rightarrow> pb_field \<Rightarrow> bool \<times> pb_ostream" where
  "pb_encode_tag_for_field s f =
     (case field_wire_type (PB_LTYPE (ftype f)) of
        None \<Rightarrow> (False, PB_SET_ERROR ''invalid field type'' s)
      | Some wt \<Rightarrow> pb_encode_tag s wt (tag f))"

definition pb_encode_string :: "pb_ostream \<Rightarrow> u8 list \<Rightarrow> size_t \<Rightarrow> bool \<times> pb_ostream" where
  "pb_encode_string s buffer n =
     (let (ok, s1) = pb_encode_varint s n in
      if \<not> ok then (False, s1) else pb_write s1 buffer n)"

subsection \<open>The contract of a writer\<close>

definition emits :: "(pb_ostream \<Rightarrow> (bool \<times> pb_ostream) exec) \<Rightarrow> u8 list \<Rightarrow> bool" where
  "emits f bs =
     ((\<forall>s. callback s = Sizing \<longrightarrow>
         f s = Done (True, s\<lparr>bytes_written := bytes_written s + of_nat (length bs)\<rparr>)) \<and>
      (\<forall>s. callback s = Buf_write \<and> errmsg s = None \<and>
           unat (bytes_written s) + length bs \<le> unat (max_size s) \<longrightarrow>
         f s = Done (True, s\<lparr>state := state s @ bs,
                            bytes_written := bytes_written s + of_nat (length bs)\<rparr>)) \<and>
      (\<forall>s. callback s = Buf_write \<and> errmsg s = None \<and>
           unat (bytes_written s) \<le> unat (max_size s) \<and>
           unat (max_size s) < unat (bytes_written s) + length bs \<and>
           unat (bytes_written s) + length bs < 2 ^ 64 \<longrightarrow>
         (\<exists>s' n. f s = Done (False, s') \<and> state s' = state s @ take n bs \<and>
                 unat (bytes_written s) + n \<le> unat (max_size s))))"

lemma emitsD_sizing:
  "emits f bs \<Longrightarrow> callback s = Sizing \<Longrightarrow>
     f s = Done (True, s\<lparr>bytes_written := bytes_written s + of_nat (length bs)\<rparr>)"
  by (simp add: emits_def)

lemma emitsD_fits:
  "emits f bs \<Longrightarrow> callback s = Buf_write \<Longrightarrow> errmsg s = None \<Longrightarrow>
     unat (bytes_written s) + length bs \<le> unat (max_size s) \<Longrightarrow>
     f s = Done (True, s\<lparr>state := state s @ bs,
                         bytes_written := bytes_written s + of_nat (length bs)\<rparr>)"
  by (simp add: emits_def)

lemma emitsD_full:
  "emits f bs \<Longrightarrow> callback s = Buf_write \<Longrightarrow> errmsg s = None \<Longrightarrow>
     unat (bytes_written s) \<le> unat (max_size s) \<Longrightarrow>
     unat (max_size s) < unat (bytes_written s) + length bs \<Longrightarrow>
     unat (bytes_written s) + length bs < 2 ^ 64 \<Longrightarrow>
     \<exists>s' n. f s = Done (False, s') \<and> state s' = state s @ take n bs \<and>
            unat (bytes_written s) + n \<le> unat (max_size s)"
  by (simp add: emits_def)

lemma emits_nil: "emits (\<lambda>s. Done (True, s)) []"
  by (simp add: emits_def)

lemma emits_write: "emits (\<lambda>s. Done (pb_write s bs (of_nat (length bs)))) bs" if "length bs < 2 ^ 64"
proof -
  have l: "unat (of_nat (length bs) :: u64) = length bs"
    using that by (simp add: unat_of_nat)
  have full: "max_size s < bytes_written s + of_nat (length bs)"
    if "unat (max_size s) < unat (bytes_written s) + length bs"
      "unat (bytes_written s) + length bs < 2 ^ 64" for s :: pb_ostream
    using that by (simp add: word_less_nat_alt unat_add_of_nat64 del: of_nat_add)
  have fits: "\<not> max_size s < bytes_written s + of_nat (length bs)"
    if "unat (bytes_written s) + length bs \<le> unat (max_size s)" for s :: pb_ostream
  proof -
    have "unat (bytes_written s) + length bs < 2 ^ 64"
      using that unat_u64_less [of "max_size s"] by linarith
    with that show ?thesis by (simp add: word_less_nat_alt unat_add_of_nat64 del: of_nat_add)
  qed
  show ?thesis
    unfolding emits_def
    by (auto simp: pb_write_def is_sizing_def ostream_callback_def buf_write_def l full fits
        intro!: exI [of _ 0])
qed

lemma emits_seq:
  assumes "emits f a" "emits g b"
  shows "emits (\<lambda>s. seq (f s) g) (a @ b)"
  unfolding emits_def
proof (intro conjI allI impI; (elim conjE)?)
  fix s :: pb_ostream assume "callback s = Sizing"
  then show "seq (f s) g =
      Done (True, s\<lparr>bytes_written := bytes_written s + of_nat (length (a @ b))\<rparr>)"
    by (simp add: emitsD_sizing [OF assms(1)] emitsD_sizing [OF assms(2)] add.assoc)
next
  fix s :: pb_ostream
  assume s: "callback s = Buf_write" "errmsg s = None"
    "unat (bytes_written s) + length (a @ b) \<le> unat (max_size s)"
  then have "unat (bytes_written s + of_nat (length a)) = unat (bytes_written s) + length a"
    using unat_u64_less [of "max_size s"] by (intro unat_add_of_nat64) simp
  with s show "seq (f s) g = Done (True, s\<lparr>state := state s @ a @ b,
      bytes_written := bytes_written s + of_nat (length (a @ b))\<rparr>)"
    by (simp add: emitsD_fits [OF assms(1)] emitsD_fits [OF assms(2)] add.assoc)
next
  fix s :: pb_ostream
  assume s: "callback s = Buf_write" "errmsg s = None"
    "unat (bytes_written s) \<le> unat (max_size s)"
    "unat (max_size s) < unat (bytes_written s) + length (a @ b)"
    "unat (bytes_written s) + length (a @ b) < 2 ^ 64"
  show "\<exists>s' n. seq (f s) g = Done (False, s') \<and> state s' = state s @ take n (a @ b) \<and>
      unat (bytes_written s) + n \<le> unat (max_size s)"
  proof (cases "unat (bytes_written s) + length a \<le> unat (max_size s)")
    case True
    let ?s1 = "s\<lparr>state := state s @ a, bytes_written := bytes_written s + of_nat (length a)\<rparr>"
    have w: "unat (bytes_written ?s1) = unat (bytes_written s) + length a"
      using s(5) by (simp add: unat_add_of_nat64)
    have "\<exists>s' n. g ?s1 = Done (False, s') \<and> state s' = state ?s1 @ take n b \<and>
            unat (bytes_written ?s1) + n \<le> unat (max_size ?s1)"
      by (rule emitsD_full [OF assms(2)]) (use s True w in simp_all)
    then obtain s' n where "g ?s1 = Done (False, s')" "state s' = state s @ a @ take n b"
      "unat (bytes_written s) + length a + n \<le> unat (max_size s)"
      using w by auto
    with s True show ?thesis
      by (intro exI [of _ s'] exI [of _ "length a + n"]) (simp add: emitsD_fits [OF assms(1)])
  next
    case False
    then obtain s' n where fs: "f s = Done (False, s')" "state s' = state s @ take n a"
      "unat (bytes_written s) + n \<le> unat (max_size s)"
      using emitsD_full [OF assms(1) s(1,2,3)] s(5) by auto
    with False have "n \<le> length a" by simp
    with fs show ?thesis
      by (intro exI [of _ s'] exI [of _ n]) simp
  qed
qed

lemma emits_prefix_pure:
  assumes "emits (\<lambda>s. Done (f s)) a" "emits g b"
  shows "emits (\<lambda>s. let (ok, s1) = f s in if \<not> ok then Done (False, s1) else g s1) (a @ b)"
proof -
  have "(\<lambda>s. let (ok, s1) = f s in if \<not> ok then Done (False, s1) else g s1) =
        (\<lambda>s. seq (Done (f s)) g)"
    by (auto simp: fun_eq_iff seq_def split: prod.split)
  with emits_seq [OF assms] show ?thesis by simp
qed

subsection \<open>What the scalar writers emit\<close>

lemma varint_loop_bytes:
  assumes "v \<noteq> 0"
  shows "varint_loop v \<noteq> [] \<and> butlast (varint_loop v) @ [last (varint_loop v) AND 0x7F] = vbytes (unat v)"
  using assms
proof (induction v rule: varint_loop.induct)
  case (1 v)
  let ?w = "drop_bit 7 v"
  have v0: "unat v \<noteq> 0" using "1.prems" by (simp add: unat_eq_0)
  show ?case
  proof (cases "?w = 0")
    case True
    then have "unat v div 128 = 0" by (simp flip: unat_drop7)
    then have lt: "unat v < 128" by simp
    have "(ucast ((v AND 0x7F) OR 0x80) AND 0x7F :: u8) = of_nat (unat v)"
    proof -
      have "unat ((of_nat (unat v mod 128 + 128) :: u8) AND 0x7F) = unat v"
        using lt by (subst unat_and_mask7) (simp_all add: unat_u8_of_nat del: of_nat_add)
      then have "(of_nat (unat v mod 128 + 128) :: u8) AND 0x7F = of_nat (unat v)"
        by (metis of_nat_unat ucast_id unat_of_nat ucast_byte_of_nat)
      then show ?thesis by (simp add: cont_byte)
    qed
    with True lt "1.prems" show ?thesis
      by (subst (1 2 3) varint_loop.simps, subst (1 2 3) varint_loop.simps, subst vbytes.simps) simp
  next
    case False
    from "1.IH" [OF "1.prems" False] have IH: "varint_loop ?w \<noteq> []"
      "butlast (varint_loop ?w) @ [last (varint_loop ?w) AND 0x7F] = vbytes (unat v div 128)"
      unfolding unat_drop7 by blast+
    have "\<not> unat v < 128"
    proof
      assume "unat v < 128"
      moreover have "unat ?w = unat v div 128" by (rule unat_drop7)
      ultimately have "unat ?w = 0" by simp
      then have "?w = 0" by (simp only: unat_eq_0)
      with False show False by blast
    qed
    moreover have "varint_loop v = ucast ((v AND 0x7F) OR 0x80) # varint_loop ?w"
      using "1.prems" by (subst varint_loop.simps) simp
    ultimately show ?thesis
      using IH by (subst vbytes.simps) (simp add: cont_byte)
  qed
qed

lemma emits_varint: "emits (\<lambda>s. Done (pb_encode_varint s v)) (vbytes (unat v))"
proof (cases "v \<le> 0x7F")
  case True
  then have "unat v < 128" by (simp add: word_le_nat_alt)
  then have "vbytes (unat v) = [ucast v]"
    by (subst vbytes.simps) (simp only: ucast_byte_of_nat if_True)
  with True emits_write [of "[ucast v]"] show ?thesis by (simp add: pb_encode_varint_def)
next
  case False
  then have "v \<noteq> 0" by auto
  from varint_loop_bytes [OF this] have b: "varint_loop v \<noteq> []"
    "butlast (varint_loop v) @ [last (varint_loop v) AND 0x7F] = vbytes (unat v)" by auto
  then have "length (varint_loop v) = length (vbytes (unat v))"
    by (metis append_butlast_last_id length_append_singleton)
  moreover have "length (vbytes (unat v)) < 2 ^ 64"
    using length_vbytes_u64 [of v] by (rule le_less_trans) simp
  ultimately show ?thesis
    using False b emits_write [of "vbytes (unat v)"] by (simp add: pb_encode_varint_def Let_def)
qed

lemma emits_svarint: "emits (\<lambda>s. Done (pb_encode_svarint s v)) (vbytes (unat (zigzag v)))"
  by (simp add: pb_encode_svarint_def emits_varint)

lemma mask8_ucast: "8 \<le> LENGTH('a) \<Longrightarrow> (ucast (v AND 0xFF :: 'a::len word) :: u8) = ucast v"
proof -
  assume "8 \<le> LENGTH('a)"
  have "(0xFF :: 'a word) = mask 8" by (simp add: mask_eq_exp_minus_1)
  then show ?thesis
    using \<open>8 \<le> LENGTH('a)\<close> by (simp only:) (intro bit_word_eqI, auto simp only: bit_simps, auto)
qed

lemma le_bytes_rd [le_simps]:
  "le_bytes 2 (rd16 m a) = rd_bytes m a 2"
  "le_bytes 4 (rd32 m a) = rd_bytes m a 4"
  "le_bytes 8 (rd64 m a) = rd_bytes m a 8"
  using le_bytes_le_val [of "rd_bytes m a 2", where 'a = 16]
    le_bytes_le_val [of "rd_bytes m a 4", where 'a = 32]
    le_bytes_le_val [of "rd_bytes m a 8", where 'a = 64]
  by (simp_all add: rd16_def rd32_def rd64_def)

lemma le_bytes_numeral:
  "le_bytes (numeral k) w = ucast w # le_bytes (pred_numeral k) (drop_bit 8 w)"
  by (simp add: numeral_eq_Suc)

lemma le_bytes_4: "le_bytes 4 (w :: 'a::len word) =
    [ucast w, ucast (drop_bit 8 w), ucast (drop_bit 16 w), ucast (drop_bit 24 w)]"
  by (simp add: le_bytes_numeral)

lemma le_bytes_8: "le_bytes 8 (w :: 'a::len word) =
    [ucast w, ucast (drop_bit 8 w), ucast (drop_bit 16 w), ucast (drop_bit 24 w),
     ucast (drop_bit 32 w), ucast (drop_bit 40 w), ucast (drop_bit 48 w), ucast (drop_bit 56 w)]"
  by (simp add: le_bytes_numeral)

lemma emits_fixed32: "emits (\<lambda>s. Done (pb_encode_fixed32 m s a)) (rd_bytes m a 4)"
  using emits_write [of "rd_bytes m a 4"]
  unfolding pb_encode_fixed32_def Let_def
  by (simp add: mask8_ucast le_bytes_4 flip: le_bytes_rd)

lemma emits_fixed64: "emits (\<lambda>s. Done (pb_encode_fixed64 m s a)) (rd_bytes m a 8)"
  using emits_write [of "rd_bytes m a 8"]
  unfolding pb_encode_fixed64_def Let_def
  by (simp add: mask8_ucast le_bytes_8 flip: le_bytes_rd)

lemma tag_word:
  assumes "unat wt < 8"
  shows "unat (push_bit 3 (ucast n :: u64) OR ucast (wt :: u32)) = 8 * unat (n :: u32) + unat wt"
proof -
  have n: "unat (ucast n :: u64) = unat n" and w: "unat (ucast wt :: u64) = unat wt"
    by (simp_all add: unsigned_ucast_eq take_bit_nat_eq_self unsigned_less [THEN less_le_trans])
  have "unat n < 2 ^ 32" using unsigned_less [of n, where ?'a = nat] by simp
  then have "unat (ucast wt OR push_bit 3 (ucast n) :: u64) = unat wt + unat n * 2 ^ 3"
    using assms by (subst unat_or_push) (simp_all add: n w)
  then show ?thesis by (simp add: or.commute)
qed

lemma emits_tag:
  "unat wt < 8 \<Longrightarrow> emits (\<lambda>s. Done (pb_encode_tag s wt n)) (vbytes (8 * unat n + unat wt))"
  using emits_varint [of "push_bit 3 (ucast n :: u64) OR ucast wt"]
  by (simp only: pb_encode_tag_def tag_word)

lemma emits_string:
  assumes "length buf = unat n"
  shows "emits (\<lambda>s. Done (pb_encode_string s buf n)) (vbytes (unat n) @ buf)"
proof -
  have n: "of_nat (length buf) = n" "length buf < 2 ^ 64"
    using assms unat_u64_less [of n] by simp_all
  have "emits (\<lambda>s. let (ok, s1) = pb_encode_varint s n in
          if \<not> ok then Done (False, s1) else Done (pb_write s1 buf n)) (vbytes (unat n) @ buf)"
    using emits_prefix_pure [OF emits_varint [of n] emits_write [OF n(2)]] by (simp only: n)
  moreover have "(\<lambda>s. let (ok, s1) = pb_encode_varint s n in
          if \<not> ok then Done (False, s1) else Done (pb_write s1 buf n)) =
        (\<lambda>s. Done (pb_encode_string s buf n))"
    by (auto simp: fun_eq_iff pb_encode_string_def split: prod.split)
  ultimately show ?thesis by simp
qed

end
