(* ===== verification/Pb_Encode.thy ===== *)
theory Pb_Encode
  imports Pb_Common Pb_Ostream
begin

text \<open>
  The message encoder of \<open>pb_encode.c\<close>: the field encoders, arrays, optional, repeated,
  oneof, callback and extension fields, submessages and the entry points. A message lies in
  memory at an address; its shape is given by descriptor arrays. The nesting depth of
  submessages (and the length of extension chains) is bounded by the fuel.
\<close>

unbundle bit_operations_syntax

type_synonym eres = "(bool \<times> pb_ostream) exec"
type_synonym msg_encoder = "pb_ostream \<Rightarrow> pb_field list \<Rightarrow> addr \<Rightarrow> eres"
type_synonym field_encoder = "pb_ostream \<Rightarrow> pb_field \<Rightarrow> addr \<Rightarrow> eres"

subsection \<open>Field encoders\<close>

definition load_signed :: "mem \<Rightarrow> u32 \<Rightarrow> addr \<Rightarrow> u64 option" where
  "load_signed m sz a =
     (if sz = 1 then Some (scast (m a))
      else if sz = 2 then Some (scast (rd16 m a))
      else if sz = 4 then Some (scast (rd32 m a))
      else if sz = 8 then Some (rd64 m a)
      else None)"

definition load_unsigned :: "mem \<Rightarrow> u32 \<Rightarrow> addr \<Rightarrow> u64 option" where
  "load_unsigned m sz a =
     (if sz = 1 then Some (ucast (m a))
      else if sz = 2 then Some (ucast (rd16 m a))
      else if sz = 4 then Some (ucast (rd32 m a))
      else if sz = 8 then Some (rd64 m a)
      else None)"

definition pb_enc_varint :: "mem \<Rightarrow> pb_ostream \<Rightarrow> pb_field \<Rightarrow> addr \<Rightarrow> bool \<times> pb_ostream" where
  "pb_enc_varint m s f src =
     (case load_signed m (data_size f) src of
        None \<Rightarrow> (False, PB_SET_ERROR ''invalid data_size'' s)
      | Some v \<Rightarrow> pb_encode_varint s v)"

definition pb_enc_uvarint :: "mem \<Rightarrow> pb_ostream \<Rightarrow> pb_field \<Rightarrow> addr \<Rightarrow> bool \<times> pb_ostream" where
  "pb_enc_uvarint m s f src =
     (case load_unsigned m (data_size f) src of
        None \<Rightarrow> (False, PB_SET_ERROR ''invalid data_size'' s)
      | Some v \<Rightarrow> pb_encode_varint s v)"

definition pb_enc_svarint :: "mem \<Rightarrow> pb_ostream \<Rightarrow> pb_field \<Rightarrow> addr \<Rightarrow> bool \<times> pb_ostream" where
  "pb_enc_svarint m s f src =
     (case load_signed m (data_size f) src of
        None \<Rightarrow> (False, PB_SET_ERROR ''invalid data_size'' s)
      | Some v \<Rightarrow> pb_encode_svarint s v)"

definition pb_enc_fixed32 :: "mem \<Rightarrow> pb_ostream \<Rightarrow> pb_field \<Rightarrow> addr \<Rightarrow> bool \<times> pb_ostream" where
  "pb_enc_fixed32 m s f src = pb_encode_fixed32 m s src"

definition pb_enc_fixed64 :: "mem \<Rightarrow> pb_ostream \<Rightarrow> pb_field \<Rightarrow> addr \<Rightarrow> bool \<times> pb_ostream" where
  "pb_enc_fixed64 m s f src = pb_encode_fixed64 m s src"

definition pb_enc_bytes :: "mem \<Rightarrow> pb_ostream \<Rightarrow> pb_field \<Rightarrow> addr \<Rightarrow> bool \<times> pb_ostream" where
  "pb_enc_bytes m s f src =
     (if src = 0 then pb_encode_string s [] 0
      else
        (let n = rd32 m src in
         if PB_ATYPE (ftype f) = PB_ATYPE_STATIC \<and>
            ucast (data_size f) < PB_BYTES_ARRAY_T_ALLOCSIZE (ucast n)
         then (False, PB_SET_ERROR ''bytes size exceeded'' s)
         else pb_encode_string s (rd_bytes m (src + 4) (unat n)) (ucast n)))"

text \<open>The length of the string at \<open>p\<close>, at most the number of characters given.\<close>

fun strnlen_loop :: "mem \<Rightarrow> addr \<Rightarrow> nat \<Rightarrow> nat" where
  "strnlen_loop m p 0 = 0"
| "strnlen_loop m p (Suc k) = (if m p \<noteq> 0 then Suc (strnlen_loop m (p + 1) k) else 0)"

definition pb_enc_string :: "mem \<Rightarrow> pb_ostream \<Rightarrow> pb_field \<Rightarrow> addr \<Rightarrow> bool \<times> pb_ostream" where
  "pb_enc_string m s f src =
     (let max_sz = (if PB_ATYPE (ftype f) = PB_ATYPE_POINTER then (-1 :: size_t)
                    else ucast (data_size f));
          n = (if src = 0 then 0 else strnlen_loop m src (unat max_sz))
      in pb_encode_string s (rd_bytes m src n) (of_nat n))"

definition pb_enc_fixed_length_bytes ::
    "mem \<Rightarrow> pb_ostream \<Rightarrow> pb_field \<Rightarrow> addr \<Rightarrow> bool \<times> pb_ostream" where
  "pb_enc_fixed_length_bytes m s f src =
     pb_encode_string s (rd_bytes m src (unat (data_size f))) (ucast (data_size f))"

text \<open>
  A submessage: a sizing pass, the length, then the message itself on a substream that
  holds exactly that many bytes.
\<close>

definition pb_encode_submessage :: "msg_encoder \<Rightarrow> pb_ostream \<Rightarrow> pb_field list \<Rightarrow> addr \<Rightarrow> eres" where
  "pb_encode_submessage enc s fs src =
     exec_bind (enc PB_OSTREAM_SIZING fs src) (\<lambda>(ok, sub).
       if \<not> ok then Done (False, s\<lparr>errmsg := errmsg sub\<rparr>)
       else
         (let n = bytes_written sub; (ok1, s1) = pb_encode_varint s n in
          if \<not> ok1 then Done (False, s1)
          else if is_sizing s1 then Done (pb_write s1 [] n)
          else if max_size s1 < bytes_written s1 + n
          then Done (False, PB_SET_ERROR ''stream full'' s1)
          else
            exec_bind
              (enc \<lparr>callback = callback s1, state = state s1, max_size = n, bytes_written = 0,
                    errmsg = None\<rparr> fs src)
              (\<lambda>(status, sub2).
                 let s2 = s1\<lparr>bytes_written := bytes_written s1 + bytes_written sub2,
                              state := state sub2, errmsg := errmsg sub2\<rparr>
                 in if bytes_written sub2 \<noteq> n
                    then Done (False, PB_SET_ERROR ''submsg size changed'' s2)
                    else Done (status, s2))))"

definition pb_enc_submessage :: "pb_env \<Rightarrow> msg_encoder \<Rightarrow> field_encoder" where
  "pb_enc_submessage E enc s f src =
     (case ptr f of
        Ptr_null \<Rightarrow> Done (False, PB_SET_ERROR ''invalid field descriptor'' s)
      | Ptr_submsg i \<Rightarrow> pb_encode_submessage enc s (msg_desc E i) src
      | Ptr_default _ \<Rightarrow> Undefined)"

text \<open>
  The table of encoders. All but the bytes and string encoders dereference the pointer
  they are given. The entry for extensions is null and the table has ten entries: calling
  any other entry is undefined.
\<close>

definition deref :: "field_encoder \<Rightarrow> field_encoder" where
  "deref g s f src = (if src = 0 then Undefined else g s f src)"

definition PB_ENCODERS :: "pb_env \<Rightarrow> mem \<Rightarrow> msg_encoder \<Rightarrow> u8 \<Rightarrow> field_encoder" where
  "PB_ENCODERS E m enc lt =
     (if lt = PB_LTYPE_VARINT then deref (\<lambda>s f a. Done (pb_enc_varint m s f a))
      else if lt = PB_LTYPE_UVARINT then deref (\<lambda>s f a. Done (pb_enc_uvarint m s f a))
      else if lt = PB_LTYPE_SVARINT then deref (\<lambda>s f a. Done (pb_enc_svarint m s f a))
      else if lt = PB_LTYPE_FIXED32 then deref (\<lambda>s f a. Done (pb_enc_fixed32 m s f a))
      else if lt = PB_LTYPE_FIXED64 then deref (\<lambda>s f a. Done (pb_enc_fixed64 m s f a))
      else if lt = PB_LTYPE_BYTES then (\<lambda>s f a. Done (pb_enc_bytes m s f a))
      else if lt = PB_LTYPE_STRING then (\<lambda>s f a. Done (pb_enc_string m s f a))
      else if lt = PB_LTYPE_SUBMESSAGE then deref (pb_enc_submessage E enc)
      else if lt = PB_LTYPE_FIXED_LENGTH_BYTES
      then deref (\<lambda>s f a. Done (pb_enc_fixed_length_bytes m s f a))
      else (\<lambda>s f a. Undefined))"

subsection \<open>Arrays\<close>

fun array_loop :: "(pb_ostream \<Rightarrow> addr \<Rightarrow> eres) \<Rightarrow> int \<Rightarrow> nat \<Rightarrow> addr \<Rightarrow> pb_ostream \<Rightarrow> eres" where
  "array_loop g step 0 p s = Done (True, s)"
| "array_loop g step (Suc k) p s = seq (g s p) (array_loop g step k (p + step))"

definition encode_array ::
    "mem \<Rightarrow> field_encoder \<Rightarrow> pb_ostream \<Rightarrow> pb_field \<Rightarrow> addr \<Rightarrow> u32 \<Rightarrow> eres" where
  "encode_array m func s f pdata count =
     (let lt = PB_LTYPE (ftype f); step = uint (data_size f); n = unat count;
          ispointer = (PB_ATYPE (ftype f) = PB_ATYPE_POINTER)
      in
      if count = 0 then Done (True, s)
      else if \<not> ispointer \<and> array_size f < count
      then Done (False, PB_SET_ERROR ''array max size exceeded'' s)
      else if lt \<le> PB_LTYPE_LAST_PACKABLE then
        seq (Done (pb_encode_tag s PB_WT_STRING (tag f)))
          (\<lambda>s1. exec_bind
             (if lt = PB_LTYPE_FIXED32 then Done (True, 4 * ucast count)
              else if lt = PB_LTYPE_FIXED64 then Done (True, 8 * ucast count)
              else exec_bind (array_loop (\<lambda>s p. func s f p) step n pdata PB_OSTREAM_SIZING)
                     (\<lambda>(ok, sz). Done (ok, bytes_written sz)))
             (\<lambda>(ok, total :: size_t).
                if \<not> ok then Done (False, s1)
                else
                  seq (Done (pb_encode_varint s1 total))
                    (\<lambda>s2. if is_sizing s2 then Done (pb_write s2 [] total)
                          else array_loop (\<lambda>s p. func s f p) step n pdata s2)))
      else
        array_loop
          (\<lambda>s p. seq (Done (pb_encode_tag_for_field s f))
             (\<lambda>s1. if ispointer \<and> (lt = PB_LTYPE_STRING \<or> lt = PB_LTYPE_BYTES)
                   then (if p = 0 then Undefined else func s1 f (rdptr m p)) else func s1 f p))
          step n pdata s)"

subsection \<open>Proto3 default values\<close>

fun pb_check_proto3_default_value :: "nat \<Rightarrow> pb_env \<Rightarrow> mem \<Rightarrow> pb_field \<Rightarrow> addr \<Rightarrow> bool exec" where
  "pb_check_proto3_default_value 0 E m f a = Out_of_fuel"
| "pb_check_proto3_default_value (Suc n) E m f a =
     (let ty = ftype f; psize = a + sint (size_offset f);
          all_zero = list_all (\<lambda>b. b = 0) (rd_bytes m a (unat (data_size f)))
      in
      if PB_HTYPE ty = PB_HTYPE_REQUIRED then Done False
      else if PB_HTYPE ty = PB_HTYPE_REPEATED then Done (rd32 m psize = 0)
      else if PB_HTYPE ty = PB_HTYPE_ONEOF then Done (rd32 m psize = 0)
      else if PB_HTYPE ty = PB_HTYPE_OPTIONAL \<and> size_offset f \<noteq> 0 then Done (m psize = 0)
      else if PB_ATYPE ty = PB_ATYPE_STATIC then
        (if PB_LTYPE ty = PB_LTYPE_BYTES then Done (rd32 m a = 0)
         else if PB_LTYPE ty = PB_LTYPE_STRING then Done (m a = 0)
         else if PB_LTYPE ty = PB_LTYPE_FIXED_LENGTH_BYTES then Done (data_size f = 0)
         else if PB_LTYPE ty = PB_LTYPE_SUBMESSAGE then
           (case ptr f of
              Ptr_submsg i \<Rightarrow>
                (let (nonempty, it) = pb_field_iter_begin (msg_desc E i) a in
                 if nonempty then
                   exec_bind
                     (for_fields
                        (\<lambda>it' (_::unit).
                           exec_bind (pb_check_proto3_default_value n E m (cur it') (pData it'))
                             (\<lambda>d. Done (d, ())))
                        it ())
                     (\<lambda>(d, _). Done d)
                 else Done True)
            | _ \<Rightarrow> Undefined)
         else Done all_zero)
      else Done all_zero)"

subsection \<open>A single field\<close>

definition encode_basic_field :: "nat \<Rightarrow> pb_env \<Rightarrow> mem \<Rightarrow> msg_encoder \<Rightarrow> field_encoder" where
  "encode_basic_field n E m enc s f pdata =
     (let func = PB_ENCODERS E m enc (PB_LTYPE (ftype f));
          explicit = (size_offset f \<noteq> 0);
          psize = pdata + sint (size_offset f);
          ht = PB_HTYPE (ftype f);
          ispointer = (PB_ATYPE (ftype f) = PB_ATYPE_POINTER)
      in
      exec_bind
        (if explicit then Done False
         else if ht = PB_HTYPE_OPTIONAL
         then exec_bind (pb_check_proto3_default_value n E m f pdata) (\<lambda>d. Done (\<not> d))
         else Done True)
        (\<lambda>implicit0.
          let p = (if ispointer then rdptr m pdata else pdata);
              implicit_has = (if ispointer then p \<noteq> 0 else implicit0);
              tag_and_value =
                seq (Done (pb_encode_tag_for_field s f)) (\<lambda>s1. func s1 f p)
          in
          if ht = PB_HTYPE_REQUIRED then
            (if p = 0 then Done (False, PB_SET_ERROR ''missing required field'' s)
             else tag_and_value)
          else if ht = PB_HTYPE_OPTIONAL then
            (if (if explicit then m psize \<noteq> 0 else implicit_has) then tag_and_value
             else Done (True, s))
          else if ht = PB_HTYPE_REPEATED then
            encode_array m func s f p (if explicit then rd32 m psize else array_size f)
          else if ht = PB_HTYPE_ONEOF then
            (if \<not> explicit then Undefined
             else if rd32 m psize = tag f then tag_and_value
             else Done (True, s))
          else Done (False, PB_SET_ERROR ''invalid field type'' s)))"

definition encode_callback_field :: "pb_env \<Rightarrow> mem \<Rightarrow> field_encoder" where
  "encode_callback_field E m s f pdata =
     (let fn = rdptr m pdata in
      if fn \<noteq> 0 then
        exec_bind (encode_cb E fn s f (pdata + 8) m)
          (\<lambda>(ok, s1). if ok then Done (True, s1) else Done (False, PB_SET_ERROR ''callback error'' s1))
      else Done (True, s))"

definition encode_field :: "nat \<Rightarrow> pb_env \<Rightarrow> mem \<Rightarrow> msg_encoder \<Rightarrow> field_encoder" where
  "encode_field n E m enc s f pdata =
     (if PB_ATYPE (ftype f) = PB_ATYPE_STATIC \<or> PB_ATYPE (ftype f) = PB_ATYPE_POINTER
      then encode_basic_field n E m enc s f pdata
      else if PB_ATYPE (ftype f) = PB_ATYPE_CALLBACK then encode_callback_field E m s f pdata
      else Done (False, PB_SET_ERROR ''invalid field type'' s))"

definition default_extension_encoder ::
    "nat \<Rightarrow> pb_env \<Rightarrow> mem \<Rightarrow> msg_encoder \<Rightarrow> pb_ostream \<Rightarrow> addr \<Rightarrow> eres" where
  "default_extension_encoder n E m enc s ext =
     (let f = ext_arg (extension_type E m ext) in
      if PB_ATYPE (ftype f) = PB_ATYPE_POINTER
      then encode_field n E m enc s f (ext + 8)
      else encode_field n E m enc s f (extension_dest m ext))"

fun encode_extension_chain ::
    "nat \<Rightarrow> nat \<Rightarrow> pb_env \<Rightarrow> mem \<Rightarrow> msg_encoder \<Rightarrow> addr \<Rightarrow> pb_ostream \<Rightarrow> eres" where
  "encode_extension_chain 0 n E m enc ext s = Out_of_fuel"
| "encode_extension_chain (Suc k) n E m enc ext s =
     (if ext = 0 then Done (True, s)
      else
        seq (case ext_encode (extension_type E m ext) of
               Some e \<Rightarrow> e s ext m
             | None \<Rightarrow> default_extension_encoder n E m enc s ext)
          (encode_extension_chain k n E m enc (extension_next m ext)))"

definition encode_extension_field :: "nat \<Rightarrow> pb_env \<Rightarrow> mem \<Rightarrow> msg_encoder \<Rightarrow> field_encoder" where
  "encode_extension_field n E m enc s f pdata =
     encode_extension_chain (Suc n) n E m enc (rdptr m pdata) s"

subsection \<open>Messages\<close>

definition encode_message :: "nat \<Rightarrow> pb_env \<Rightarrow> mem \<Rightarrow> msg_encoder \<Rightarrow> msg_encoder" where
  "encode_message n E m enc s fs src =
     (let (nonempty, it) = pb_field_iter_begin fs src in
      if \<not> nonempty then Done (True, s)
      else
        for_fields
          (\<lambda>it s. if PB_LTYPE (ftype (cur it)) = PB_LTYPE_EXTENSION
                  then encode_extension_field n E m enc s (cur it) (pData it)
                  else encode_field n E m enc s (cur it) (pData it))
          it s)"

fun pb_encode :: "nat \<Rightarrow> pb_env \<Rightarrow> mem \<Rightarrow> msg_encoder" where
  "pb_encode 0 E m s fs src = Out_of_fuel"
| "pb_encode (Suc n) E m s fs src = encode_message n E m (pb_encode n E m) s fs src"

definition pb_encode_delimited :: "nat \<Rightarrow> pb_env \<Rightarrow> mem \<Rightarrow> msg_encoder" where
  "pb_encode_delimited n E m s fs src = pb_encode_submessage (pb_encode n E m) s fs src"

definition pb_encode_nullterminated :: "nat \<Rightarrow> pb_env \<Rightarrow> mem \<Rightarrow> msg_encoder" where
  "pb_encode_nullterminated n E m s fs src =
     seq (pb_encode n E m s fs src) (\<lambda>s1. Done (pb_write s1 [0] 1))"

definition pb_get_encoded_size :: "nat \<Rightarrow> pb_env \<Rightarrow> mem \<Rightarrow> pb_field list \<Rightarrow> addr \<Rightarrow> size_t option exec" where
  "pb_get_encoded_size n E m fs src =
     exec_bind (pb_encode n E m PB_OSTREAM_SIZING fs src)
       (\<lambda>(ok, s). Done (if ok then Some (bytes_written s) else None))"

end
