(* ===== verification/Pb_Encode_Spec.thy ===== *)
theory Pb_Encode_Spec
  imports Pb_Encode
begin

text \<open>
  What a message looks like on the wire, as a function of the memory alone: no stream, no
  sizing pass, no error codes (\<open>None\<close> where the encoder fails or where a user callback
  decides). The refinement theorem \<open>pb_encode_emits\<close> states that \<open>pb_encode\<close> emits exactly
  these bytes on every stream, so that the size computed by the sizing pass, the bytes
  stored in a buffer and the length prefix of a submessage agree.
\<close>

unbundle bit_operations_syntax

subsection \<open>The wire format\<close>

fun cat_opts :: "'a list option list \<Rightarrow> 'a list option" where
  "cat_opts [] = Some []"
| "cat_opts (None # xs) = None"
| "cat_opts (Some a # xs) = map_option ((@) a) (cat_opts xs)"

definition wire_tag :: "pb_field \<Rightarrow> u8 list option" where
  "wire_tag f = map_option (\<lambda>wt. vbytes (8 * unat (tag f) + unat wt))
     (field_wire_type (PB_LTYPE (ftype f)))"

definition length_prefixed :: "u8 list \<Rightarrow> u8 list option" where
  "length_prefixed bs = (if length bs < 2 ^ 64 then Some (vbytes (length bs) @ bs) else None)"

definition value_bytes ::
    "pb_env \<Rightarrow> mem \<Rightarrow> (pb_field list \<Rightarrow> addr \<Rightarrow> u8 list option) \<Rightarrow> pb_field \<Rightarrow> addr \<Rightarrow> u8 list option" where
  "value_bytes E m msg f a =
     (let lt = PB_LTYPE (ftype f) in
      if lt = PB_LTYPE_BYTES then
        (if a = 0 then length_prefixed []
         else if PB_ATYPE (ftype f) = PB_ATYPE_STATIC \<and>
                 unat (data_size f) < unat (rd32 m a) + 4 then None
         else length_prefixed (rd_bytes m (a + 4) (unat (rd32 m a))))
      else if lt = PB_LTYPE_STRING then
        length_prefixed
          (rd_bytes m a
            (if a = 0 then 0
             else strnlen_loop m a
                    (if PB_ATYPE (ftype f) = PB_ATYPE_POINTER then 2 ^ 64 - 1 else unat (data_size f))))
      else if a = 0 then None
      else if lt = PB_LTYPE_VARINT then
        map_option (\<lambda>v. vbytes (unat v)) (load_signed m (data_size f) a)
      else if lt = PB_LTYPE_UVARINT then
        map_option (\<lambda>v. vbytes (unat v)) (load_unsigned m (data_size f) a)
      else if lt = PB_LTYPE_SVARINT then
        map_option (\<lambda>v. vbytes (unat (zigzag v))) (load_signed m (data_size f) a)
      else if lt = PB_LTYPE_FIXED32 then Some (rd_bytes m a 4)
      else if lt = PB_LTYPE_FIXED64 then Some (rd_bytes m a 8)
      else if lt = PB_LTYPE_SUBMESSAGE then
        (case ptr f of
           Ptr_submsg i \<Rightarrow> Option.bind (msg (msg_desc E i) a) length_prefixed
         | _ \<Rightarrow> None)
      else if lt = PB_LTYPE_FIXED_LENGTH_BYTES then
        length_prefixed (rd_bytes m a (unat (data_size f)))
      else None)"

definition array_bytes ::
    "mem \<Rightarrow> (addr \<Rightarrow> u8 list option) \<Rightarrow> pb_field \<Rightarrow> addr \<Rightarrow> u32 \<Rightarrow> u8 list option" where
  "array_bytes m den f p count =
     (let lt = PB_LTYPE (ftype f); entry = (\<lambda>i. p + uint (data_size f) * int i);
          ispointer = (PB_ATYPE (ftype f) = PB_ATYPE_POINTER)
      in
      if count = 0 then Some []
      else if \<not> ispointer \<and> array_size f < count then None
      else if lt \<le> PB_LTYPE_LAST_PACKABLE then
        Option.bind (cat_opts (map (\<lambda>i. den (entry i)) [0..<unat count]))
          (\<lambda>items. map_option ((@) (vbytes (8 * unat (tag f) + 2))) (length_prefixed items))
      else
        cat_opts (map (\<lambda>i. cat_opts
          [wire_tag f,
           if ispointer \<and> (lt = PB_LTYPE_STRING \<or> lt = PB_LTYPE_BYTES)
           then (if entry i = 0 then None else den (rdptr m (entry i))) else den (entry i)])
          [0..<unat count]))"

definition basic_field_bytes ::
    "nat \<Rightarrow> pb_env \<Rightarrow> mem \<Rightarrow> (pb_field list \<Rightarrow> addr \<Rightarrow> u8 list option) \<Rightarrow> pb_field \<Rightarrow> addr \<Rightarrow> u8 list option" where
  "basic_field_bytes n E m msg f a =
     (let ht = PB_HTYPE (ftype f); explicit = (size_offset f \<noteq> 0); psize = a + sint (size_offset f);
          ispointer = (PB_ATYPE (ftype f) = PB_ATYPE_POINTER);
          p = (if ispointer then rdptr m a else a);
          one = cat_opts [wire_tag f, value_bytes E m msg f p];
          default = (if explicit \<or> ht \<noteq> PB_HTYPE_OPTIONAL then Done False
                     else pb_check_proto3_default_value n E m f a)
      in
      case default of
        Done d \<Rightarrow>
          (if ht = PB_HTYPE_REQUIRED then (if p = 0 then None else one)
           else if ht = PB_HTYPE_OPTIONAL then
             (if (if explicit then m psize \<noteq> 0 else if ispointer then p \<noteq> 0 else \<not> d)
              then one else Some [])
           else if ht = PB_HTYPE_REPEATED then
             array_bytes m (value_bytes E m msg f) f p (if explicit then rd32 m psize else array_size f)
           else
             (if \<not> explicit then None
              else if rd32 m psize = tag f then one else Some []))
      | _ \<Rightarrow> None)"

definition field_bytes ::
    "nat \<Rightarrow> pb_env \<Rightarrow> mem \<Rightarrow> (pb_field list \<Rightarrow> addr \<Rightarrow> u8 list option) \<Rightarrow> pb_field \<Rightarrow> addr \<Rightarrow> u8 list option" where
  "field_bytes n E m msg f a =
     (if PB_ATYPE (ftype f) = PB_ATYPE_STATIC \<or> PB_ATYPE (ftype f) = PB_ATYPE_POINTER
      then basic_field_bytes n E m msg f a
      else if PB_ATYPE (ftype f) = PB_ATYPE_CALLBACK then (if rdptr m a = 0 then Some [] else None)
      else None)"

fun extension_bytes ::
    "nat \<Rightarrow> nat \<Rightarrow> pb_env \<Rightarrow> mem \<Rightarrow> (pb_field list \<Rightarrow> addr \<Rightarrow> u8 list option) \<Rightarrow> addr \<Rightarrow> u8 list option" where
  "extension_bytes 0 n E m msg ext = None"
| "extension_bytes (Suc k) n E m msg ext =
     (if ext = 0 then Some []
      else
        (let t = extension_type E m ext; f = ext_arg t in
         case ext_encode t of
           Some _ \<Rightarrow> None
         | None \<Rightarrow>
             cat_opts
               [field_bytes n E m msg f
                  (if PB_ATYPE (ftype f) = PB_ATYPE_POINTER then ext + 8 else extension_dest m ext),
                extension_bytes k n E m msg (extension_next m ext)]))"

definition message_bytes_step ::
    "nat \<Rightarrow> pb_env \<Rightarrow> mem \<Rightarrow> (pb_field list \<Rightarrow> addr \<Rightarrow> u8 list option) \<Rightarrow> pb_field list \<Rightarrow> addr \<Rightarrow>
     u8 list option" where
  "message_bytes_step n E m msg fs a =
     (if \<not> wf_fields fs then None
      else cat_opts (map (\<lambda>i. let f = fs ! i; p = pData (iter_at fs a i) in
        if PB_LTYPE (ftype f) = PB_LTYPE_EXTENSION
        then extension_bytes (Suc n) n E m msg (rdptr m p)
        else field_bytes n E m msg f p) [0..<length fs]))"

fun message_bytes :: "nat \<Rightarrow> pb_env \<Rightarrow> mem \<Rightarrow> pb_field list \<Rightarrow> addr \<Rightarrow> u8 list option" where
  "message_bytes 0 E m fs a = None"
| "message_bytes (Suc n) E m fs a = message_bytes_step n E m (message_bytes n E m) fs a"

subsection \<open>Composing writers\<close>

lemma cat_opts_Some_Cons:
  "cat_opts (x # xs) = Some bs \<longleftrightarrow>
     (\<exists>a c. x = Some a \<and> cat_opts xs = Some c \<and> bs = a @ c)"
  by (cases x) auto

lemma emits_seq_upto:
  "(\<And>i b. j \<le> i \<Longrightarrow> i < j + k \<Longrightarrow> g i = Some b \<Longrightarrow> emits (body i) b) \<Longrightarrow>
     cat_opts (map g [j..<j + k]) = Some bs \<Longrightarrow> emits (seq_upto body j k) bs"
proof (induction k arbitrary: j bs)
  case 0
  then show ?case using emits_nil by (simp add: seq_upto_0)
next
  case (Suc k)
  have "[j..<j + Suc k] = j # [Suc j..<Suc j + k]" by (simp add: upt_conv_Cons del: upt_Suc)
  with Suc.prems(2) obtain a c where a: "g j = Some a"
    and c: "cat_opts (map g [Suc j..<Suc j + k]) = Some c" and bs: "bs = a @ c"
    by (auto simp: cat_opts_Some_Cons simp del: upt_Suc)
  have "emits (seq_upto body (Suc j) k) c"
    by (rule Suc.IH [OF _ c]) (use Suc.prems(1) in auto)
  with Suc.prems(1) [OF _ _ a] have "emits (\<lambda>s. seq (body j s) (seq_upto body (Suc j) k)) (a @ c)"
    by (intro emits_seq) simp_all
  then show ?case by (simp add: bs)
qed

lemma emits_array_loop:
  "(\<And>i b. i < k \<Longrightarrow> den (p + step * int i) = Some b \<Longrightarrow> emits (\<lambda>s. g s (p + step * int i)) b) \<Longrightarrow>
     cat_opts (map (\<lambda>i. den (p + step * int i)) [0..<k]) = Some bs \<Longrightarrow>
     emits (array_loop g step k p) bs"
proof (induction k arbitrary: p bs)
  case 0
  then show ?case using emits_nil by (simp add: fun_eq_iff)
next
  case (Suc k)
  have "map (\<lambda>i. den (p + step * int i)) [0..<Suc k] =
      den p # map (\<lambda>i. den (p + step + step * int i)) [0..<k]"
    by (simp add: upt_conv_Cons map_Suc_upt [symmetric] algebra_simps del: upt_Suc)
  with Suc.prems(2) obtain a c where a: "den p = Some a"
    and c: "cat_opts (map (\<lambda>i. den (p + step + step * int i)) [0..<k]) = Some c"
    and bs: "bs = a @ c"
    by (auto simp: cat_opts_Some_Cons simp del: upt_Suc)
  have "emits (array_loop g step k (p + step)) c"
  proof (rule Suc.IH [OF _ c])
    fix i b assume "i < k" "den (p + step + step * int i) = Some b"
    with Suc.prems(1) [of "Suc i" b] show "emits (\<lambda>s. g s (p + step + step * int i)) b"
      by (simp add: algebra_simps)
  qed
  with Suc.prems(1) [of 0 a] a
  have "emits (\<lambda>s. seq (g s p) (array_loop g step k (p + step))) (a @ c)"
    by (intro emits_seq) simp_all
  then show ?case by (simp add: bs)
qed

lemma emits_sized:
  assumes bs: "emits f bs" and l: "length bs < 2 ^ 64"
  shows "emits (\<lambda>s. if is_sizing s then Done (pb_write s [] (of_nat (length bs))) else f s) bs"
  unfolding emits_def
proof (intro conjI allI impI; (elim conjE)?)
  fix s :: pb_ostream assume "callback s = Sizing"
  then show "(if is_sizing s then Done (pb_write s [] (of_nat (length bs))) else f s) =
      Done (True, s\<lparr>bytes_written := bytes_written s + of_nat (length bs)\<rparr>)"
    by (simp add: is_sizing_def pb_write_def)
qed (use emitsD_fits [OF bs] emitsD_full [OF bs] in \<open>auto simp: is_sizing_def\<close>)

lemma emits_submessage:
  assumes enc: "emits (\<lambda>s. enc s fs a) bs" and l: "length bs < 2 ^ 64"
  shows "emits (\<lambda>s. pb_encode_submessage enc s fs a) (vbytes (length bs) @ bs)"
proof -
  let ?n = "of_nat (length bs) :: size_t"
  have n: "unat ?n = length bs" using l by (simp add: unat_of_nat)
  let ?body = "\<lambda>s1. if max_size s1 < bytes_written s1 + ?n
          then Done (False, PB_SET_ERROR ''stream full'' s1)
          else exec_bind
              (enc \<lparr>callback = callback s1, state = state s1, max_size = ?n, bytes_written = 0,
                    errmsg = None\<rparr> fs a)
              (\<lambda>(status, sub2).
                 let s2 = s1\<lparr>bytes_written := bytes_written s1 + bytes_written sub2,
                              state := state sub2, errmsg := errmsg sub2\<rparr>
                 in if bytes_written sub2 \<noteq> ?n
                    then Done (False, PB_SET_ERROR ''submsg size changed'' s2)
                    else Done (status, s2))"
  have inner: "enc \<lparr>callback = Buf_write, state = st, max_size = ?n, bytes_written = 0,
                    errmsg = None\<rparr> fs a =
      Done (True, \<lparr>callback = Buf_write, state = st @ bs, max_size = ?n, bytes_written = ?n,
                   errmsg = None\<rparr>)" for st
    by (subst emitsD_fits [OF enc]) (simp_all add: n)
  have sized: "emits (\<lambda>s1. if is_sizing s1 then Done (pb_write s1 [] ?n) else ?body s1) bs"
    unfolding emits_def
  proof (intro conjI allI impI; (elim conjE)?)
    fix s :: pb_ostream assume "callback s = Sizing"
    then show "(if is_sizing s then Done (pb_write s [] ?n) else ?body s) =
        Done (True, s\<lparr>bytes_written := bytes_written s + ?n\<rparr>)"
      by (simp add: is_sizing_def pb_write_def)
  next
    fix s :: pb_ostream
    assume s: "callback s = Buf_write" "errmsg s = None"
      "unat (bytes_written s) + length bs \<le> unat (max_size s)"
    then have "\<not> max_size s < bytes_written s + ?n"
      using unat_u64_less [of "max_size s"] by (simp add: word_less_nat_alt unat_add_of_nat64)
    with s show "(if is_sizing s then Done (pb_write s [] ?n) else ?body s) =
        Done (True, s\<lparr>state := state s @ bs, bytes_written := bytes_written s + ?n\<rparr>)"
      by (simp add: is_sizing_def inner)
  next
    fix s :: pb_ostream
    assume s: "callback s = Buf_write" "errmsg s = None"
      "unat (bytes_written s) \<le> unat (max_size s)"
      "unat (max_size s) < unat (bytes_written s) + length bs"
      "unat (bytes_written s) + length bs < 2 ^ 64"
    then have "max_size s < bytes_written s + ?n"
      by (simp add: word_less_nat_alt unat_add_of_nat64)
    with s show "\<exists>s' k. (if is_sizing s then Done (pb_write s [] ?n) else ?body s) = Done (False, s') \<and>
        state s' = state s @ take k bs \<and> unat (bytes_written s) + k \<le> unat (max_size s)"
      by (auto simp: is_sizing_def intro!: exI [of _ 0])
  qed
  have "(\<lambda>s. pb_encode_submessage enc s fs a) =
    (\<lambda>s. seq (Done (pb_encode_varint s ?n))
       (\<lambda>s1. if is_sizing s1 then Done (pb_write s1 [] ?n) else ?body s1))"
    using emitsD_sizing [OF enc, of PB_OSTREAM_SIZING]
    by (auto simp: fun_eq_iff pb_encode_submessage_def PB_OSTREAM_SIZING_def seq_def Let_def
        split: prod.split)
  with emits_seq [OF emits_varint [of ?n] sized] show ?thesis by (simp only: n)
qed

subsection \<open>The interface of an encoder table entry\<close>

text \<open>
  What \<open>encode_array\<close> and \<open>encode_basic_field\<close> rely on when they call the encoder of a field:
  where the wire format defines the value at an address, the encoder emits it.
\<close>

locale value_encoder =
  fixes f :: pb_field
    and func :: field_encoder
    and den :: "addr \<Rightarrow> u8 list option"
  assumes func_emits: "den a = Some bs \<Longrightarrow> emits (\<lambda>s. func s f a) bs"
    and width32: "PB_LTYPE (ftype f) = PB_LTYPE_FIXED32 \<Longrightarrow> den a = Some bs \<Longrightarrow> length bs = 4"
    and width64: "PB_LTYPE (ftype f) = PB_LTYPE_FIXED64 \<Longrightarrow> den a = Some bs \<Longrightarrow> length bs = 8"
begin

lemma tag_for_field_emits:
  "wire_tag f = Some t \<Longrightarrow> emits (\<lambda>s. Done (pb_encode_tag_for_field s f)) t"
proof -
  assume "wire_tag f = Some t"
  then obtain wt where wt: "field_wire_type (PB_LTYPE (ftype f)) = Some wt"
    and t: "t = vbytes (8 * unat (tag f) + unat wt)"
    by (auto simp: wire_tag_def)
  then have "unat wt < 8"
    by (auto simp: field_wire_type_def wt_defs split: if_splits)
  from emits_tag [OF this, of "tag f"] show ?thesis
    by (simp add: pb_encode_tag_for_field_def wt t)
qed

lemma tag_and_value_emits:
  assumes "cat_opts [wire_tag f, den a] = Some bs"
  shows "emits (\<lambda>s. seq (Done (pb_encode_tag_for_field s f)) (\<lambda>s1. func s1 f a)) bs"
proof -
  obtain t b where "wire_tag f = Some t" "den a = Some b" "bs = t @ b"
    using assms by (auto simp: cat_opts_Some_Cons)
  then show ?thesis
    by (auto intro!: emits_seq tag_for_field_emits func_emits)
qed

lemma length_items:
  assumes "\<And>a bs. den a = Some bs \<Longrightarrow> length bs = w"
  shows "cat_opts (map (\<lambda>i. den (g i)) xs) = Some items \<Longrightarrow> length items = w * length xs"
  by (induction xs arbitrary: items) (auto simp: cat_opts_Some_Cons assms)

lemma packed_emits:
  assumes items: "cat_opts (map (\<lambda>i. den (p + uint (data_size f) * int i)) [0..<unat count]) = Some items"
    and l: "length items < 2 ^ 64" and t: "unat wt < 8"
  shows "emits (\<lambda>s. seq (Done (pb_encode_tag s wt (tag f)))
          (\<lambda>s1. seq (Done (pb_encode_varint s1 (of_nat (length items))))
             (\<lambda>s2. if is_sizing s2 then Done (pb_write s2 [] (of_nat (length items)))
                   else array_loop (\<lambda>s p. func s f p) (uint (data_size f)) (unat count) p s2)))
         (vbytes (8 * unat (tag f) + unat wt) @ vbytes (length items) @ items)"
proof -
  have "emits (array_loop (\<lambda>s p. func s f p) (uint (data_size f)) (unat count) p) items"
    by (rule emits_array_loop [OF _ items]) (rule func_emits)
  from emits_sized [OF this l] emits_varint [of "of_nat (length items)"] emits_tag [OF t, of "tag f"] l
  show ?thesis by (intro emits_seq) (simp_all add: unat_of_nat)
qed

lemma encode_array_emits:
  assumes "array_bytes m den f p count = Some bs"
  shows "emits (\<lambda>s. encode_array m func s f p count) bs"
proof (cases "count = 0")
  case True
  with assms emits_nil show ?thesis by (simp add: array_bytes_def encode_array_def Let_def)
next
  case c0: False
  let ?lt = "PB_LTYPE (ftype f)"
  let ?loop = "array_loop (\<lambda>s p. func s f p) (uint (data_size f)) (unat count) p"
  from assms c0 have sz: "\<not> (PB_ATYPE (ftype f) \<noteq> PB_ATYPE_POINTER \<and> array_size f < count)"
    by (auto simp: array_bytes_def Let_def split: if_splits)
  show ?thesis
  proof (cases "?lt \<le> PB_LTYPE_LAST_PACKABLE")
    case True
    from assms c0 True obtain items where
      items: "cat_opts (map (\<lambda>i. den (p + uint (data_size f) * int i)) [0..<unat count]) = Some items"
      and l: "length items < 2 ^ 64"
      and bs: "bs = vbytes (8 * unat (tag f) + 2) @ vbytes (length items) @ items"
      by (auto simp: array_bytes_def Let_def length_prefixed_def Option.bind_eq_Some_conv split: if_splits)
    have loop: "emits ?loop items"
      by (rule emits_array_loop [OF _ items]) (rule func_emits)
    have sizing: "?loop PB_OSTREAM_SIZING =
        Done (True, PB_OSTREAM_SIZING\<lparr>bytes_written := of_nat (length items)\<rparr>)"
      by (subst emitsD_sizing [OF loop]) (simp_all add: PB_OSTREAM_SIZING_def)
    have w32: "4 * ucast count = (of_nat (length items) :: size_t)" if "?lt = PB_LTYPE_FIXED32"
      using length_items [OF width32 [OF that] items] by simp
    have w64: "8 * ucast count = (of_nat (length items) :: size_t)" if "?lt = PB_LTYPE_FIXED64"
      using length_items [OF width64 [OF that] items] by simp
    have total: "(if ?lt = PB_LTYPE_FIXED32 then Done (True, 4 * ucast count)
              else if ?lt = PB_LTYPE_FIXED64 then Done (True, 8 * ucast count)
              else exec_bind (?loop PB_OSTREAM_SIZING) (\<lambda>(ok, sz). Done (ok, bytes_written sz)))
        = Done (True, of_nat (length items) :: size_t)"
      using w32 w64 by (simp add: sizing)
    have "(\<lambda>s. encode_array m func s f p count) =
      (\<lambda>s. seq (Done (pb_encode_tag s PB_WT_STRING (tag f)))
          (\<lambda>s1. seq (Done (pb_encode_varint s1 (of_nat (length items))))
             (\<lambda>s2. if is_sizing s2 then Done (pb_write s2 [] (of_nat (length items))) else ?loop s2)))"
      unfolding encode_array_def Let_def total if_not_P [OF c0] if_not_P [OF sz] if_P [OF True]
      by simp
    moreover have "unat PB_WT_STRING = 2" by (simp add: wt_defs)
    ultimately show ?thesis
      using packed_emits [OF items l, of PB_WT_STRING] by (simp add: bs)
  next
    case False
    let ?deref = "PB_ATYPE (ftype f) = PB_ATYPE_POINTER \<and> (?lt = PB_LTYPE_STRING \<or> ?lt = PB_LTYPE_BYTES)"
    let ?entry = "\<lambda>i. p + uint (data_size f) * int i"
    let ?one = "\<lambda>q. cat_opts [wire_tag f,
          if ?deref then (if q = 0 then None else den (rdptr m q)) else den q]"
    let ?g = "\<lambda>s q. seq (Done (pb_encode_tag_for_field s f))
             (\<lambda>s1. if ?deref then (if q = 0 then Undefined else func s1 f (rdptr m q)) else func s1 f q)"
    from assms c0 False have "cat_opts (map (\<lambda>i. ?one (?entry i)) [0..<unat count]) = Some bs"
      by (auto simp: array_bytes_def Let_def split: if_splits)
    then have "emits (array_loop ?g (uint (data_size f)) (unat count) p) bs"
    proof (rule emits_array_loop [rotated])
      fix i b assume "?one (?entry i) = Some b"
      then show "emits (\<lambda>s. ?g s (?entry i)) b"
        using tag_and_value_emits [of "rdptr m (?entry i)" b] tag_and_value_emits [of "?entry i" b]
        by (auto simp: cat_opts_Some_Cons split: if_splits)
    qed
    then show ?thesis
      unfolding encode_array_def Let_def if_not_P [OF c0] if_not_P [OF sz] if_not_P [OF False] .
  qed
qed

end

subsection \<open>The interface of a message encoder\<close>

lemma emits_length_prefixed:
  assumes "length_prefixed bs = Some out" "unat n = length bs"
  shows "emits (\<lambda>s. Done (pb_encode_string s bs n)) out"
  using assms emits_string [of bs n] by (auto simp: length_prefixed_def split: if_splits)

lemma alloc_size_unat: "unat (PB_BYTES_ARRAY_T_ALLOCSIZE (ucast (n :: u32))) = unat n + 4"
proof -
  have n: "unat (ucast n :: u64) = unat n"
    by (simp add: unsigned_ucast_eq take_bit_nat_eq_self unsigned_less [THEN less_le_trans])
  have "unat n < 2 ^ 32" using unsigned_less [of n, where ?'a = nat] by simp
  then have "unat (ucast n + 4 :: u64) = unat n + 4"
    by (subst unat_word_ariths) (simp add: n)
  then show ?thesis by (simp add: PB_BYTES_ARRAY_T_ALLOCSIZE_def)
qed

lemma unat_ucast_u32_u64 [simp]: "unat (ucast (n :: u32) :: u64) = unat n"
  by (simp add: unsigned_ucast_eq take_bit_nat_eq_self unsigned_less [THEN less_le_trans])

lemma emits_enc_bytes:
  assumes "PB_LTYPE (ftype f) = PB_LTYPE_BYTES" "value_bytes E m msg f a = Some bs"
  shows "emits (\<lambda>s. Done (pb_enc_bytes m s f a)) bs"
proof (cases "a = 0")
  case True
  with assms show ?thesis
    using emits_length_prefixed [of "[]" bs 0] by (simp add: pb_enc_bytes_def value_bytes_def)
next
  case False
  have c: "ucast (data_size f) < PB_BYTES_ARRAY_T_ALLOCSIZE (ucast (rd32 m a)) \<longleftrightarrow>
      unat (data_size f) < unat (rd32 m a) + 4"
    by (simp add: word_less_nat_alt alloc_size_unat)
  from False assms show ?thesis
    by (auto simp: pb_enc_bytes_def value_bytes_def Let_def c intro!: emits_length_prefixed
        split: if_splits)
qed

lemma emits_enc_string:
  assumes "PB_LTYPE (ftype f) = PB_LTYPE_STRING" "value_bytes E m msg f a = Some bs"
  shows "emits (\<lambda>s. Done (pb_enc_string m s f a)) bs"
proof -
  let ?n = "if a = 0 then 0 else strnlen_loop m a
     (unat (if PB_ATYPE (ftype f) = PB_ATYPE_POINTER then (-1 :: size_t) else ucast (data_size f)))"
  have "unat (-1 :: size_t) = 2 ^ 64 - 1"
    by (simp add: unsigned_minus_1_eq_mask mask_eq_exp_minus_1)
  then have v: "length_prefixed (rd_bytes m a ?n) = Some bs"
    using assms by (auto simp: value_bytes_def Let_def PB_LTYPE_STRING_def PB_LTYPE_BYTES_def
        split: if_splits)
  then have "?n < 2 ^ 64" by (auto simp: length_prefixed_def split: if_splits)
  then have "unat (of_nat ?n :: size_t) = length (rd_bytes m a ?n)"
    by (simp add: unat_of_nat del: of_nat_eq_0_iff)
  with emits_length_prefixed [OF v] show ?thesis
    unfolding pb_enc_string_def Let_def by (simp only:)
qed

locale message_encoder =
  fixes E :: pb_env
    and m :: mem
    and enc :: msg_encoder
    and msg :: "pb_field list \<Rightarrow> addr \<Rightarrow> u8 list option"
  assumes msg_emits: "msg fs a = Some bs \<Longrightarrow> emits (\<lambda>s. enc s fs a) bs"
begin

lemma submessage_emits:
  assumes "Option.bind (msg fs a) length_prefixed = Some bs"
  shows "emits (\<lambda>s. pb_encode_submessage enc s fs a) bs"
proof -
  from assms obtain b where "msg fs a = Some b" "length b < 2 ^ 64" "bs = vbytes (length b) @ b"
    by (auto simp: Option.bind_eq_Some_conv length_prefixed_def split: if_splits)
  with emits_submessage [of enc fs a b, OF msg_emits] show ?thesis by simp
qed

lemma value_emits:
  assumes v: "value_bytes E m msg f a = Some bs"
  shows "emits (\<lambda>s. PB_ENCODERS E m enc (PB_LTYPE (ftype f)) s f a) bs"
proof -
  let ?lt = "PB_LTYPE (ftype f)"
  consider "?lt = PB_LTYPE_BYTES" | "?lt = PB_LTYPE_STRING"
    | "a \<noteq> 0" "?lt = PB_LTYPE_VARINT" | "a \<noteq> 0" "?lt = PB_LTYPE_UVARINT"
    | "a \<noteq> 0" "?lt = PB_LTYPE_SVARINT" | "a \<noteq> 0" "?lt = PB_LTYPE_FIXED32"
    | "a \<noteq> 0" "?lt = PB_LTYPE_FIXED64" | "a \<noteq> 0" "?lt = PB_LTYPE_SUBMESSAGE"
    | "a \<noteq> 0" "?lt = PB_LTYPE_FIXED_LENGTH_BYTES"
    using v unfolding value_bytes_def Let_def by (auto split: if_splits)
  then show ?thesis
  proof cases
    case 1
    with emits_enc_bytes [OF 1 v] show ?thesis by (simp add: PB_ENCODERS_def pb_codes)
  next
    case 2
    with emits_enc_string [OF 2 v] show ?thesis by (simp add: PB_ENCODERS_def pb_codes)
  next
    case 3
    with v emits_varint show ?thesis
      by (auto simp: PB_ENCODERS_def value_bytes_def deref_def pb_enc_varint_def pb_codes)
  next
    case 4
    with v emits_varint show ?thesis
      by (auto simp: PB_ENCODERS_def value_bytes_def deref_def pb_enc_uvarint_def pb_codes)
  next
    case 5
    with v emits_svarint show ?thesis
      by (auto simp: PB_ENCODERS_def value_bytes_def deref_def pb_enc_svarint_def pb_codes)
  next
    case 6
    with v emits_fixed32 show ?thesis
      by (auto simp: PB_ENCODERS_def value_bytes_def deref_def pb_enc_fixed32_def pb_codes)
  next
    case 7
    with v emits_fixed64 show ?thesis
      by (auto simp: PB_ENCODERS_def value_bytes_def deref_def pb_enc_fixed64_def pb_codes)
  next
    case 8
    with v obtain i where "ptr f = Ptr_submsg i"
      "Option.bind (msg (msg_desc E i) a) length_prefixed = Some bs"
      by (auto simp: value_bytes_def pb_codes split: field_ptr.splits)
    with 8 submessage_emits show ?thesis
      by (simp add: PB_ENCODERS_def deref_def pb_enc_submessage_def pb_codes)
  next
    case 9
    with v have "length_prefixed (rd_bytes m a (unat (data_size f))) = Some bs"
      by (simp add: value_bytes_def pb_codes)
    from emits_length_prefixed [OF this, of "ucast (data_size f)"] 9 show ?thesis
      by (simp add: PB_ENCODERS_def deref_def pb_enc_fixed_length_bytes_def pb_codes)
  qed
qed

end

sublocale message_encoder \<subseteq> val: value_encoder f
  "PB_ENCODERS E m enc (PB_LTYPE (ftype f))" "value_bytes E m msg f" for f
proof unfold_locales
  fix a bs
  show "value_bytes E m msg f a = Some bs \<Longrightarrow>
      emits (\<lambda>s. PB_ENCODERS E m enc (PB_LTYPE (ftype f)) s f a) bs"
    by (rule value_emits)
  show "PB_LTYPE (ftype f) = PB_LTYPE_FIXED32 \<Longrightarrow> value_bytes E m msg f a = Some bs \<Longrightarrow> length bs = 4"
    by (auto simp: value_bytes_def pb_codes split: if_splits)
  show "PB_LTYPE (ftype f) = PB_LTYPE_FIXED64 \<Longrightarrow> value_bytes E m msg f a = Some bs \<Longrightarrow> length bs = 8"
    by (auto simp: value_bytes_def pb_codes split: if_splits)
qed

context message_encoder
begin

lemma basic_field_emits:
  assumes "basic_field_bytes n E m msg f a = Some bs"
  shows "emits (\<lambda>s. encode_basic_field n E m enc s f a) bs"
proof -
  let ?ht = "PB_HTYPE (ftype f)" and ?ex = "size_offset f \<noteq> 0"
  let ?p = "if PB_ATYPE (ftype f) = PB_ATYPE_POINTER then rdptr m a else a"
  let ?check = "pb_check_proto3_default_value n E m f a"
  have ht: "?ht = PB_HTYPE_REQUIRED \<or> ?ht = PB_HTYPE_OPTIONAL \<or> ?ht = PB_HTYPE_REPEATED \<or>
      ?ht = PB_HTYPE_ONEOF"
    by (rule htype_cases)
  obtain d where d: "(if ?ex \<or> ?ht \<noteq> PB_HTYPE_OPTIONAL then Done False else ?check) = Done d"
    using assms unfolding basic_field_bytes_def Let_def by (auto split: exec.splits)
  then have d': "?check = Done d" if "\<not> ?ex" "?ht = PB_HTYPE_OPTIONAL"
    using that by simp
  note spec = assms [unfolded basic_field_bytes_def Let_def d exec.case]
  note tv = val.tag_and_value_emits and arr = val.encode_array_emits
  show ?thesis
    using ht
  proof (elim disjE)
    assume h: "?ht = PB_HTYPE_REQUIRED"
    with spec tv [of f ?p bs] show ?thesis
      by (simp add: encode_basic_field_def split: if_splits)
  next
    assume h: "?ht = PB_HTYPE_OPTIONAL"
    with spec tv [of f ?p bs] d' emits_nil show ?thesis
      by (simp add: encode_basic_field_def split: if_splits)
  next
    assume h: "?ht = PB_HTYPE_REPEATED"
    with spec arr [of m f ?p _ bs] show ?thesis
      by (simp add: encode_basic_field_def split: if_splits)
  next
    assume h: "?ht = PB_HTYPE_ONEOF"
    with spec tv [of f ?p bs] emits_nil show ?thesis
      by (simp add: encode_basic_field_def split: if_splits)
  qed
qed

lemma field_emits:
  assumes "field_bytes n E m msg f a = Some bs"
  shows "emits (\<lambda>s. encode_field n E m enc s f a) bs"
  using assms basic_field_emits emits_nil
  by (auto simp: field_bytes_def encode_field_def encode_callback_field_def split: if_splits)

lemma extension_emits:
  "extension_bytes k n E m msg ext = Some bs \<Longrightarrow> emits (encode_extension_chain k n E m enc ext) bs"
proof (induction k arbitrary: ext bs)
  case 0
  then show ?case by simp
next
  case (Suc k)
  show ?case
  proof (cases "ext = 0")
    case True
    with Suc.prems emits_nil show ?thesis by (simp add: fun_eq_iff)
  next
    case False
    let ?f = "ext_arg (extension_type E m ext)"
    from False Suc.prems obtain a b where
      none: "ext_encode (extension_type E m ext) = None"
      and a: "field_bytes n E m msg ?f
         (if PB_ATYPE (ftype ?f) = PB_ATYPE_POINTER then ext + 8 else extension_dest m ext) = Some a"
      and b: "extension_bytes k n E m msg (extension_next m ext) = Some b" and bs: "bs = a @ b"
      by (auto simp: Let_def cat_opts_Some_Cons split: option.splits)
    have "emits (\<lambda>s. default_extension_encoder n E m enc s ext) a"
      using field_emits [OF a] by (auto simp: default_extension_encoder_def Let_def split: if_splits)
    from emits_seq [OF this Suc.IH [OF b]] False none show ?thesis
      by (simp add: bs)
  qed
qed

lemma message_step_emits:
  assumes "message_bytes_step n E m msg fs a = Some bs"
  shows "emits (\<lambda>s. encode_message n E m enc s fs a) bs"
proof (cases "fs = []")
  case True
  then have "tag (fld fs 0) = 0" using fld_end [of fs] by simp
  with True assms emits_nil show ?thesis
    by (simp add: message_bytes_step_def encode_message_def pb_field_iter_begin_def Let_def
        split: if_splits)
next
  case False
  from assms have wf: "wf_fields fs" by (simp add: message_bytes_step_def split: if_splits)
  let ?body = "\<lambda>i s. if PB_LTYPE (ftype (cur (iter_at fs a i))) = PB_LTYPE_EXTENSION
      then encode_extension_field n E m enc s (cur (iter_at fs a i)) (pData (iter_at fs a i))
      else encode_field n E m enc s (cur (iter_at fs a i)) (pData (iter_at fs a i))"
  let ?g = "\<lambda>i. let f = fs ! i; p = pData (iter_at fs a i) in
        if PB_LTYPE (ftype f) = PB_LTYPE_EXTENSION
        then extension_bytes (Suc n) n E m msg (rdptr m p)
        else field_bytes n E m msg f p"
  have "fst (pb_field_iter_begin fs a)"
    using False wf wf_fields_tag [of fs 0] by (simp add: pb_field_iter_begin_def Let_def)
  then obtain it where it: "pb_field_iter_begin fs a = (True, it)"
    by (cases "pb_field_iter_begin fs a") auto
  have "(\<lambda>s. encode_message n E m enc s fs a) = seq_upto ?body 0 (length fs)"
  proof
    fix s
    show "encode_message n E m enc s fs a = seq_upto ?body 0 (length fs) s"
      using for_fields_seq_upto [OF wf False, of _ a s]
      unfolding encode_message_def it by simp
  qed
  moreover have "emits (seq_upto ?body 0 (length fs)) bs"
  proof (rule emits_seq_upto)
    show "cat_opts (map ?g [0..<0 + length fs]) = Some bs"
      using assms wf by (simp add: message_bytes_step_def)
    fix i b assume "i < 0 + length fs" and g: "?g i = Some b"
    then have c: "cur (iter_at fs a i) = fs ! i" using wf by (simp add: cur_iter_at)
    show "emits (?body i) b"
      using g extension_emits [of "Suc n" n "rdptr m (pData (iter_at fs a i))" b]
        field_emits [of n "fs ! i" "pData (iter_at fs a i)" b]
      unfolding c encode_extension_field_def Let_def
      by (simp split: if_splits del: extension_bytes.simps encode_extension_chain.simps)
  qed
  ultimately show ?thesis by simp
qed

end

lemma message_encoder_pb_encode: "message_encoder (pb_encode n E m) (message_bytes n E m)"
proof (induction n)
  case 0
  show ?case by unfold_locales simp
next
  case (Suc n)
  show ?case
    by unfold_locales (simp add: message_encoder.message_step_emits [OF Suc.IH])
qed

interpretation pb: message_encoder E m "pb_encode n E m" "message_bytes n E m" for E m n
  by (rule message_encoder_pb_encode)

end
