(* ===== verification/Pb_Istream.thy ===== *)
theory Pb_Istream
  imports Pb_Ostream
begin

text \<open>
  The input streams of \<open>pb_decode.c\<close> and the scalar readers on top of them: bytes, varints,
  tags, skipping, length-limited substreams, zig-zag and fixed-width values. Every loop
  ends because \<open>bytes_left\<close> falls with each byte read.
\<close>

unbundle bit_operations_syntax

subsection \<open>Reading bytes\<close>

text \<open>
  The callback: the contents it leaves in the destination, or \<open>None\<close> for \<open>false\<close>. A buffer
  is at least \<open>bytes_left\<close> long (the promise of the caller of \<open>pb_istream_from_buffer\<close>); the
  value 0 for bytes behind its end is never delivered then, as \<open>pb_read_in_buffer\<close> and
  \<open>pb_readbyte_in_buffer\<close> show for the two functions that call \<open>buf_read\<close>.
\<close>

definition istream_callback :: "pb_istream \<Rightarrow> size_t \<Rightarrow> (nat \<Rightarrow> u8) option \<times> pb_istream" where
  "istream_callback s count =
     (case icallback s of
        Buf_read \<Rightarrow>
          (Some (\<lambda>i. if i < length (istate s) then istate s ! i else 0),
           s\<lparr>istate := drop (unat count) (istate s)\<rparr>)
      | User_read rd \<Rightarrow>
          (case rd count (istate s) of
             Read_ok f st \<Rightarrow> (Some f, s\<lparr>istate := st\<rparr>)
           | Read_error st \<Rightarrow> (None, s\<lparr>istate := st\<rparr>)
           | Read_eof st \<Rightarrow> (None, s\<lparr>istate := st, bytes_left := 0\<rparr>)))"

definition pb_istream_from_buffer :: "u8 list \<Rightarrow> size_t \<Rightarrow> pb_istream" where
  "pb_istream_from_buffer buf bufsize =
     \<lparr>icallback = Buf_read, istate = buf, bytes_left = bufsize, ierrmsg = None\<rparr>"

text \<open>\<open>pb_read\<close> with a destination; the bytes read are the result.\<close>

definition pb_read :: "pb_istream \<Rightarrow> size_t \<Rightarrow> u8 list option \<times> pb_istream" where
  "pb_read s count =
     (if bytes_left s < count then (None, PB_SET_ERROR_in ''end-of-stream'' s)
      else
        (case istream_callback s count of
           (None, s1) \<Rightarrow> (None, PB_SET_ERROR_in ''io error'' s1)
         | (Some f, s1) \<Rightarrow>
             (Some (map f [0..<unat count]), s1\<lparr>bytes_left := bytes_left s1 - count\<rparr>)))"

text \<open>\<open>pb_read\<close> with a null destination: a user stream is read in pieces of 16 bytes.\<close>

function skip_loop :: "pb_istream \<Rightarrow> size_t \<Rightarrow> bool \<times> pb_istream" where
  "skip_loop s count =
     (if 16 < count then
        (case pb_read s 16 of (None, s1) \<Rightarrow> (False, s1) | (Some _, s1) \<Rightarrow> skip_loop s1 (count - 16))
      else (case pb_read s count of (r, s1) \<Rightarrow> (r \<noteq> None, s1)))"
  by auto
termination
  by (relation "measure (\<lambda>(s, count). unat count)")
     (auto simp: word_less_nat_alt unat_sub_if')

declare skip_loop.simps [simp del]

definition pb_read_null :: "pb_istream \<Rightarrow> size_t \<Rightarrow> bool \<times> pb_istream" where
  "pb_read_null s count =
     (case icallback s of
        User_read _ \<Rightarrow> skip_loop s count
      | Buf_read \<Rightarrow> (case pb_read s count of (r, s1) \<Rightarrow> (r \<noteq> None, s1)))"

definition pb_readbyte :: "pb_istream \<Rightarrow> u8 option \<times> pb_istream" where
  "pb_readbyte s =
     (if bytes_left s = 0 then (None, PB_SET_ERROR_in ''end-of-stream'' s)
      else
        (case istream_callback s 1 of
           (None, s1) \<Rightarrow> (None, PB_SET_ERROR_in ''io error'' s1)
         | (Some f, s1) \<Rightarrow> (Some (f 0), s1\<lparr>bytes_left := bytes_left s1 - 1\<rparr>)))"

lemma istream_callback_bytes_left:
  "istream_callback s count = (Some f, s1) \<Longrightarrow> bytes_left s1 = bytes_left s"
  by (auto simp: istream_callback_def split: icallback.splits read_result.splits)

lemma readbyte_buffer:
  "n \<noteq> 0 \<Longrightarrow> pb_readbyte \<lparr>icallback = Buf_read, istate = b # bs, bytes_left = n, ierrmsg = e\<rparr> =
     (Some b, \<lparr>icallback = Buf_read, istate = bs, bytes_left = n - 1, ierrmsg = e\<rparr>)"
  by (simp add: pb_readbyte_def istream_callback_def)

lemma pb_readbyte_decreases:
  assumes "pb_readbyte s = (Some b, s1)"
  shows "unat (bytes_left s1) < unat (bytes_left s)"
proof -
  obtain f s2 where nz: "bytes_left s \<noteq> 0" and cb: "istream_callback s 1 = (Some f, s2)"
    and s1: "s1 = s2\<lparr>bytes_left := bytes_left s2 - 1\<rparr>"
    using assms by (auto simp: pb_readbyte_def split: if_splits prod.splits option.splits)
  from nz have "1 \<le> unat (bytes_left s)" by (simp add: unat_gt_0 Suc_le_eq)
  then show ?thesis
    by (simp add: s1 istream_callback_bytes_left [OF cb] unat_sub_if')
qed

lemma pb_read1_decreases:
  assumes "pb_read s 1 = (Some bs, s1)"
  shows "unat (bytes_left s1) < unat (bytes_left s)"
proof -
  obtain f s2 where le: "\<not> bytes_left s < 1" and cb: "istream_callback s 1 = (Some f, s2)"
    and s1: "s1 = s2\<lparr>bytes_left := bytes_left s2 - 1\<rparr>"
    using assms by (auto simp: pb_read_def split: if_splits prod.splits option.splits)
  from le have "1 \<le> unat (bytes_left s)" by (simp add: word_less_nat_alt)
  then show ?thesis
    by (simp add: s1 istream_callback_bytes_left [OF cb] unat_sub_if')
qed

text \<open>A buffer that holds at least \<open>bytes_left\<close> bytes is never read behind its end: what is read are
  its next bytes, and it still holds \<open>bytes_left\<close> bytes afterwards.\<close>

definition holds_bytes_left :: "pb_istream \<Rightarrow> bool" where
  "holds_bytes_left s \<longleftrightarrow> icallback s = Buf_read \<and> unat (bytes_left s) \<le> length (istate s)"

lemma pb_read_in_buffer:
  assumes "holds_bytes_left s" "pb_read s count = (Some bs, s1)"
  shows "unat count \<le> length (istate s)" "bs = take (unat count) (istate s)"
    "istate s1 = drop (unat count) (istate s)" "holds_bytes_left s1"
proof -
  have n: "\<not> bytes_left s < count" and b: "icallback s = Buf_read" "unat (bytes_left s) \<le> length (istate s)"
    using assms by (auto simp: holds_bytes_left_def pb_read_def split: if_splits)
  from n have c: "count \<le> bytes_left s" by simp
  with b(2) show l: "unat count \<le> length (istate s)" by (simp add: word_le_nat_alt)
  have "bs = map (\<lambda>i. if i < length (istate s) then istate s ! i else 0) [0..<unat count]"
    and s1: "s1 = s\<lparr>istate := drop (unat count) (istate s), bytes_left := bytes_left s - count\<rparr>"
    using assms(2) n b(1) by (auto simp: pb_read_def istream_callback_def)
  with l show "bs = take (unat count) (istate s)" by (intro nth_equalityI) auto
  show "istate s1 = drop (unat count) (istate s)" "holds_bytes_left s1"
    using b c by (auto simp: s1 holds_bytes_left_def word_le_nat_alt unat_sub_if')
qed

lemma pb_readbyte_in_buffer:
  assumes "holds_bytes_left s" "pb_readbyte s = (Some b, s1)"
  shows "istate s = b # istate s1" "holds_bytes_left s1"
proof -
  have n: "bytes_left s \<noteq> 0" and b: "icallback s = Buf_read" "unat (bytes_left s) \<le> length (istate s)"
    using assms by (auto simp: holds_bytes_left_def pb_readbyte_def split: if_splits)
  then have u: "1 \<le> unat (bytes_left s)" by (simp add: unat_gt_0 Suc_le_eq)
  with b obtain c cs where i: "istate s = c # cs" by (cases "istate s") auto
  then have "b = c" "s1 = s\<lparr>istate := cs, bytes_left := bytes_left s - 1\<rparr>"
    using assms(2) n b(1) by (auto simp: pb_readbyte_def istream_callback_def)
  with i b u show "istate s = b # istate s1" "holds_bytes_left s1"
    by (auto simp: holds_bytes_left_def unat_sub_if' word_le_nat_alt)
qed

subsection \<open>Varints\<close>

text \<open>
  The loop of \<open>pb_decode_varint32_eof\<close>; it ends with the value, the position after the
  last byte and the last byte. \<open>bitpos\<close> is an 8-bit counter, as \<open>uint_fast8_t\<close> is.
\<close>

function varint32_loop :: "pb_istream \<Rightarrow> u8 \<Rightarrow> u32 \<Rightarrow> (u32 \<times> u8 \<times> u8) option \<times> pb_istream" where
  "varint32_loop s bitpos result =
     (case pb_readbyte s of
        (None, s1) \<Rightarrow> (None, s1)
      | (Some b, s1) \<Rightarrow>
          (let sign_extension = (if bitpos < 63 then 0xFF else 0x01);
               overflow = (32 \<le> bitpos \<and> b AND 0x7F \<noteq> 0 \<and>
                           (drop_bit 31 result = 0 \<or> b \<noteq> sign_extension));
               result' = (if 32 \<le> bitpos then result
                          else result OR push_bit (unat bitpos) (ucast (b AND 0x7F)))
           in
           if overflow then (None, PB_SET_ERROR_in ''varint overflow'' s1)
           else if b AND 0x80 \<noteq> 0 then varint32_loop s1 (bitpos + 7) result'
           else (Some (result', bitpos + 7, b), s1)))"
  by auto
termination
  by (relation "measure (\<lambda>(s, _, _). unat (bytes_left s))")
     (auto dest: pb_readbyte_decreases [OF sym] pb_readbyte_decreases)

declare varint32_loop.simps [simp del]

text \<open>The result, whether \<open>*eof\<close> was set, and the stream.\<close>

definition pb_decode_varint32_eof :: "pb_istream \<Rightarrow> u32 option \<times> bool \<times> pb_istream" where
  "pb_decode_varint32_eof s =
     (case pb_readbyte s of
        (None, s1) \<Rightarrow> (None, bytes_left s1 = 0, s1)
      | (Some b, s1) \<Rightarrow>
          if b AND 0x80 = 0 then (Some (ucast b), False, s1)
          else
            (case varint32_loop s1 7 (ucast (b AND 0x7F)) of
               (None, s2) \<Rightarrow> (None, False, s2)
             | (Some (result, bitpos, lastb), s2) \<Rightarrow>
                 if bitpos = 35 \<and> lastb AND 0x70 \<noteq> 0
                 then (None, False, PB_SET_ERROR_in ''varint overflow'' s2)
                 else (Some result, False, s2)))"

definition pb_decode_varint32 :: "pb_istream \<Rightarrow> u32 option \<times> pb_istream" where
  "pb_decode_varint32 s = (case pb_decode_varint32_eof s of (r, _, s1) \<Rightarrow> (r, s1))"

function varint_dec_loop :: "pb_istream \<Rightarrow> u8 \<Rightarrow> u64 \<Rightarrow> u64 option \<times> pb_istream" where
  "varint_dec_loop s bitpos result =
     (if 64 \<le> bitpos then (None, PB_SET_ERROR_in ''varint overflow'' s)
      else
        (case pb_readbyte s of
           (None, s1) \<Rightarrow> (None, s1)
         | (Some b, s1) \<Rightarrow>
             (let result' = result OR push_bit (unat bitpos) (ucast (b AND 0x7F))
              in if b AND 0x80 \<noteq> 0 then varint_dec_loop s1 (bitpos + 7) result'
                 else (Some result', s1))))"
  by auto
termination
  by (relation "measure (\<lambda>(s, _, _). unat (bytes_left s))")
     (auto dest: pb_readbyte_decreases [OF sym] pb_readbyte_decreases)

declare varint_dec_loop.simps [simp del]

definition pb_decode_varint :: "pb_istream \<Rightarrow> u64 option \<times> pb_istream" where
  "pb_decode_varint s = varint_dec_loop s 0 0"

subsection \<open>Skipping\<close>

function pb_skip_varint :: "pb_istream \<Rightarrow> bool \<times> pb_istream" where
  "pb_skip_varint s =
     (case pb_read s 1 of
        (None, s1) \<Rightarrow> (False, s1)
      | (Some bs, s1) \<Rightarrow> if hd bs AND 0x80 \<noteq> 0 then pb_skip_varint s1 else (True, s1))"
  by auto
termination
  by (relation "measure (\<lambda>s. unat (bytes_left s))")
     (auto dest: pb_read1_decreases [OF sym] pb_read1_decreases)

declare pb_skip_varint.simps [simp del]

definition pb_skip_string :: "pb_istream \<Rightarrow> bool \<times> pb_istream" where
  "pb_skip_string s =
     (case pb_decode_varint32 s of
        (None, s1) \<Rightarrow> (False, s1)
      | (Some n, s1) \<Rightarrow> pb_read_null s1 (ucast n))"

text \<open>Success, wire type, tag, \<open>*eof\<close> and the stream.\<close>

definition pb_decode_tag :: "pb_istream \<Rightarrow> bool \<times> pb_wire_type_t \<times> u32 \<times> bool \<times> pb_istream" where
  "pb_decode_tag s =
     (case pb_decode_varint32_eof s of
        (None, eof, s1) \<Rightarrow> (False, 0, 0, eof, s1)
      | (Some temp, eof, s1) \<Rightarrow>
          if temp = 0 then (False, 0, 0, True, s1)
          else (True, temp AND 7, drop_bit 3 temp, eof, s1))"

definition pb_skip_field :: "pb_istream \<Rightarrow> pb_wire_type_t \<Rightarrow> bool \<times> pb_istream" where
  "pb_skip_field s wt =
     (if wt = PB_WT_VARINT then pb_skip_varint s
      else if wt = PB_WT_64BIT then pb_read_null s 8
      else if wt = PB_WT_STRING then pb_skip_string s
      else if wt = PB_WT_32BIT then pb_read_null s 4
      else (False, PB_SET_ERROR_in ''invalid wire_type'' s))"

text \<open>
  \<open>read_raw_value\<close>: the raw bytes of a value. A varint is read byte by byte into a buffer
  of \<open>max\<close> bytes; a longer one fails without a message.
\<close>

fun raw_varint :: "pb_istream \<Rightarrow> nat \<Rightarrow> u8 list option \<times> pb_istream" where
  "raw_varint s 0 = (None, s)"
| "raw_varint s (Suc k) =
     (case pb_read s 1 of
        (None, s1) \<Rightarrow> (None, s1)
      | (Some bs, s1) \<Rightarrow>
          if hd bs AND 0x80 \<noteq> 0 then
            (case raw_varint s1 k of (r, s2) \<Rightarrow> (map_option ((#) (hd bs)) r, s2))
          else (Some [hd bs], s1))"

definition read_raw_value :: "pb_istream \<Rightarrow> pb_wire_type_t \<Rightarrow> nat \<Rightarrow> u8 list option \<times> pb_istream" where
  "read_raw_value s wt maximum =
     (if wt = PB_WT_VARINT then raw_varint s maximum
      else if wt = PB_WT_64BIT then pb_read s 8
      else if wt = PB_WT_32BIT then pb_read s 4
      else (None, PB_SET_ERROR_in ''invalid wire_type'' s))"

subsection \<open>Substreams\<close>

text \<open>The substream, if the length could be read and fits, and the parent stream.\<close>

definition pb_make_string_substream :: "pb_istream \<Rightarrow> pb_istream option \<times> pb_istream" where
  "pb_make_string_substream s =
     (case pb_decode_varint32 s of
        (None, s1) \<Rightarrow> (None, s1)
      | (Some n, s1) \<Rightarrow>
          if bytes_left s1 < ucast n then (None, PB_SET_ERROR_in ''parent stream too short'' s1)
          else (Some (s1\<lparr>bytes_left := ucast n\<rparr>), s1\<lparr>bytes_left := bytes_left s1 - ucast n\<rparr>))"

definition pb_close_string_substream :: "pb_istream \<Rightarrow> pb_istream \<Rightarrow> bool \<times> pb_istream" where
  "pb_close_string_substream s sub =
     (let (ok, sub1) = (if bytes_left sub \<noteq> 0 then pb_read_null sub (bytes_left sub) else (True, sub))
      in if \<not> ok then (False, s)
         else (True, s\<lparr>istate := istate sub1, ierrmsg := ierrmsg sub1\<rparr>))"

subsection \<open>Scalars\<close>

definition pb_decode_svarint :: "pb_istream \<Rightarrow> u64 option \<times> pb_istream" where
  "pb_decode_svarint s =
     (case pb_decode_varint s of
        (None, s1) \<Rightarrow> (None, s1)
      | (Some v, s1) \<Rightarrow>
          (Some (if v AND 1 \<noteq> 0 then NOT (drop_bit 1 v) else drop_bit 1 v), s1))"

definition pb_decode_fixed32 :: "pb_istream \<Rightarrow> u32 option \<times> pb_istream" where
  "pb_decode_fixed32 s =
     (case pb_read s 4 of
        (None, s1) \<Rightarrow> (None, s1)
      | (Some b, s1) \<Rightarrow>
          (Some (push_bit 0 (ucast (b ! 0)) OR push_bit 8 (ucast (b ! 1)) OR
                 push_bit 16 (ucast (b ! 2)) OR push_bit 24 (ucast (b ! 3))), s1))"

definition pb_decode_fixed64 :: "pb_istream \<Rightarrow> u64 option \<times> pb_istream" where
  "pb_decode_fixed64 s =
     (case pb_read s 8 of
        (None, s1) \<Rightarrow> (None, s1)
      | (Some b, s1) \<Rightarrow>
          (Some (push_bit 0 (ucast (b ! 0)) OR push_bit 8 (ucast (b ! 1)) OR
                 push_bit 16 (ucast (b ! 2)) OR push_bit 24 (ucast (b ! 3)) OR
                 push_bit 32 (ucast (b ! 4)) OR push_bit 40 (ucast (b ! 5)) OR
                 push_bit 48 (ucast (b ! 6)) OR push_bit 56 (ucast (b ! 7))), s1))"

end
