(* ===== verification/Pb_Decode.thy ===== *)
theory Pb_Decode
  imports Pb_Common Pb_Istream
begin

text \<open>
  The message decoder of \<open>pb_decode.c\<close>: default values, release of allocated data, the
  field decoders, arrays, pointer fields with their allocations, oneof, callback and
  extension fields, submessages and the entry points. The message lives in the heap's
  memory. The fuel bounds the nesting of submessages and the length of extension chains;
  loops over the input carry one step more than the bytes left, since every turn consumes.
\<close>

unbundle bit_operations_syntax

type_synonym dres = "(bool \<times> pb_istream \<times> heap) exec"
type_synonym field_decoder = "pb_istream \<Rightarrow> pb_field \<Rightarrow> addr \<Rightarrow> heap \<Rightarrow> dres"
type_synonym msg_decoder = "pb_istream \<Rightarrow> pb_field list \<Rightarrow> addr \<Rightarrow> heap \<Rightarrow> dres"
type_synonym msg_action = "pb_field list \<Rightarrow> addr \<Rightarrow> heap \<Rightarrow> heap exec"

definition upd :: "heap \<Rightarrow> (mem \<Rightarrow> mem) \<Rightarrow> heap" where
  "upd h g = h\<lparr>hmem := g (hmem h)\<rparr>"

definition memset0 :: "addr \<Rightarrow> nat \<Rightarrow> heap \<Rightarrow> heap" where
  "memset0 a n h = upd h (\<lambda>m. wr_bytes m a (replicate n 0))"

text \<open>\<open>PB_RETURN_ERROR\<close> of a function that works on a stream and the heap.\<close>

definition fail :: "string \<Rightarrow> pb_istream \<Rightarrow> heap \<Rightarrow> dres" where
  "fail msg s h = Done (False, PB_SET_ERROR_in msg s, h)"

subsection \<open>Iterators for extensions, loops over fields and extensions\<close>

definition iter_from_extension :: "pb_env \<Rightarrow> mem \<Rightarrow> addr \<Rightarrow> pb_field_iter" where
  "iter_from_extension E m ext =
     (let f = ext_arg (extension_type E m ext); dest = extension_dest m ext
      in (snd (pb_field_iter_begin [f] dest))
           \<lparr>pData := (if PB_ATYPE (ftype f) = PB_ATYPE_POINTER then ext + 8 else dest),
            pSize := ext + 24\<rparr>)"

fun walk_extensions :: "nat \<Rightarrow> (addr \<Rightarrow> heap \<Rightarrow> heap exec) \<Rightarrow> addr \<Rightarrow> heap \<Rightarrow> heap exec" where
  "walk_extensions 0 g ext h = Out_of_fuel"
| "walk_extensions (Suc k) g ext h =
     (if ext = 0 then Done h
      else exec_bind (g ext h)
             (\<lambda>h1. walk_extensions k g (extension_next (hmem h1) ext) h1))"

definition each_field :: "(pb_field_iter \<Rightarrow> heap \<Rightarrow> heap exec) \<Rightarrow> msg_action" where
  "each_field g fs dest h =
     (let (nonempty, it) = pb_field_iter_begin fs dest in
      if \<not> nonempty then Done h
      else exec_bind (for_fields (\<lambda>it h. exec_bind (g it h) (\<lambda>h1. Done (True, h1))) it h)
             (\<lambda>(_, h1). Done h1))"

subsection \<open>Default values\<close>

definition set_static_default ::
    "(pb_field list \<Rightarrow> addr \<Rightarrow> heap \<Rightarrow> heap exec) \<Rightarrow> pb_env \<Rightarrow> pb_field_iter \<Rightarrow> heap \<Rightarrow> heap exec" where
  "set_static_default msg E it h =
     (let f = cur it; n = unat (data_size f) in
      if PB_LTYPE (ftype f) = PB_LTYPE_SUBMESSAGE then
        (case ptr f of Ptr_submsg i \<Rightarrow> msg (msg_desc E i) (pData it) h | _ \<Rightarrow> Undefined)
      else
        (case ptr f of
           Ptr_null \<Rightarrow> Done (memset0 (pData it) n h)
         | Ptr_default bs \<Rightarrow>
             if length bs < n then Undefined
             else Done (upd h (\<lambda>m. wr_bytes m (pData it) (take n bs)))
         | Ptr_submsg _ \<Rightarrow> Undefined))"

fun pb_field_set_to_default :: "nat \<Rightarrow> pb_env \<Rightarrow> pb_field_iter \<Rightarrow> heap \<Rightarrow> heap exec" where
  "pb_field_set_to_default 0 E it h = Out_of_fuel"
| "pb_field_set_to_default (Suc n) E it h =
     (let f = cur it; ty = ftype f in
      if PB_LTYPE ty = PB_LTYPE_EXTENSION then
        walk_extensions (Suc n)
          (\<lambda>ext h. let h1 = upd h (\<lambda>m. m(ext + 24 := 0))
                   in pb_field_set_to_default n E (iter_from_extension E (hmem h1) ext) h1)
          (rdptr (hmem h) (pData it)) h
      else if PB_ATYPE ty = PB_ATYPE_STATIC then
        (if PB_HTYPE ty = PB_HTYPE_OPTIONAL \<and> pSize it \<noteq> pData it then
           set_static_default (each_field (pb_field_set_to_default n E)) E it
             (upd h (\<lambda>m. m(pSize it := 0)))
         else if PB_HTYPE ty = PB_HTYPE_REPEATED \<or> PB_HTYPE ty = PB_HTYPE_ONEOF then
           Done (upd h (\<lambda>m. wr32 m (pSize it) 0))
         else set_static_default (each_field (pb_field_set_to_default n E)) E it h)
      else if PB_ATYPE ty = PB_ATYPE_POINTER then
        (let h1 = upd h (\<lambda>m. wrptr m (pData it) 0)
         in Done (if PB_HTYPE ty = PB_HTYPE_REPEATED \<or> PB_HTYPE ty = PB_HTYPE_ONEOF
                  then upd h1 (\<lambda>m. wr32 m (pSize it) 0) else h1))
      else Done h)"

definition pb_message_set_to_defaults :: "nat \<Rightarrow> pb_env \<Rightarrow> msg_action" where
  "pb_message_set_to_defaults n E = each_field (pb_field_set_to_default n E)"

subsection \<open>Releasing allocated data\<close>

text \<open>The \<open>while (count--)\<close> loops over submessages and over the pointers of an array.\<close>

fun release_items :: "(addr \<Rightarrow> heap \<Rightarrow> heap exec) \<Rightarrow> int \<Rightarrow> nat \<Rightarrow> addr \<Rightarrow> heap \<Rightarrow> heap exec" where
  "release_items g step 0 p h = Done h"
| "release_items g step (Suc k) p h = exec_bind (g p h) (release_items g step k (p + step))"

definition release_pointer :: "addr \<Rightarrow> heap \<Rightarrow> heap exec" where
  "release_pointer p h =
     (if p = 0 then Undefined
      else exec_bind (pb_free h (rdptr (hmem h) p)) (\<lambda>h1. Done (upd h1 (\<lambda>m. wrptr m p 0))))"

definition submsg_count :: "pb_field_iter \<Rightarrow> mem \<Rightarrow> u32" where
  "submsg_count it m =
     (let f = cur it; static = (PB_ATYPE (ftype f) = PB_ATYPE_STATIC);
          count = (if static \<and> pSize it = pData it then array_size f else rd32 m (pSize it))
      in if PB_HTYPE (ftype f) \<noteq> PB_HTYPE_REPEATED then 1
         else if static \<and> array_size f < count then array_size f
         else count)"

text \<open>The tail of \<open>pb_release_single_field\<close>: the field's own allocation.\<close>

definition release_allocation :: "pb_field_iter \<Rightarrow> heap \<Rightarrow> heap exec" where
  "release_allocation it h =
     (let ty = ftype (cur it); repeated = (PB_HTYPE ty = PB_HTYPE_REPEATED) in
      if PB_ATYPE ty \<noteq> PB_ATYPE_POINTER then Done h
      else
        exec_bind
          (if repeated \<and> (PB_LTYPE ty = PB_LTYPE_STRING \<or> PB_LTYPE ty = PB_LTYPE_BYTES)
           then release_items release_pointer 8 (unat (rd32 (hmem h) (pSize it)))
                  (rdptr (hmem h) (pData it)) h
           else Done h)
          (\<lambda>h1. release_pointer (pData it)
                  (if repeated then upd h1 (\<lambda>m. wr32 m (pSize it) 0) else h1)))"

fun pb_release_single_field :: "nat \<Rightarrow> pb_env \<Rightarrow> pb_field_iter \<Rightarrow> heap \<Rightarrow> heap exec" where
  "pb_release_single_field 0 E it h = Out_of_fuel"
| "pb_release_single_field (Suc n) E it h =
     (let f = cur it; ty = ftype f in
      if PB_HTYPE ty = PB_HTYPE_ONEOF \<and> rd32 (hmem h) (pSize it) \<noteq> tag f then Done h
      else
        exec_bind
          (if PB_LTYPE ty = PB_LTYPE_EXTENSION then
             walk_extensions (Suc n)
               (\<lambda>ext h. pb_release_single_field n E (iter_from_extension E (hmem h) ext) h)
               (rdptr (hmem h) (pData it)) h
           else if PB_LTYPE ty = PB_LTYPE_SUBMESSAGE then
             (let item = (if PB_ATYPE ty = PB_ATYPE_POINTER then rdptr (hmem h) (pData it)
                          else pData it)
              in if item = 0 then Done h
                 else release_items
                   (\<lambda>p h. if p = 0 then Done h
                          else (case ptr f of
                                  Ptr_submsg i \<Rightarrow>
                                    each_field (pb_release_single_field n E) (msg_desc E i) p h
                                | _ \<Rightarrow> Undefined))
                   (uint (data_size f)) (unat (submsg_count it (hmem h))) item h)
           else Done h)
          (release_allocation it))"

definition pb_release :: "nat \<Rightarrow> pb_env \<Rightarrow> msg_action" where
  "pb_release n E fs dest h =
     (if dest = 0 then Done h else each_field (pb_release_single_field n E) fs dest h)"

definition pb_release_union_field ::
    "nat \<Rightarrow> pb_env \<Rightarrow> pb_istream \<Rightarrow> pb_field_iter \<Rightarrow> heap \<Rightarrow>
     (bool \<times> pb_field_iter \<times> pb_istream \<times> heap) exec" where
  "pb_release_union_field n E s it h =
     (let old_tag = rd32 (hmem h) (pSize it); new_tag = tag (cur it) in
      if old_tag = 0 \<or> old_tag = new_tag then Done (True, it, s, h)
      else
        exec_bind (pb_field_iter_find it old_tag) (\<lambda>(found, it1).
          if \<not> found then Done (False, it1, PB_SET_ERROR_in ''invalid union tag'' s, h)
          else
            exec_bind (pb_release_single_field n E it1 h) (\<lambda>h1.
              exec_bind (pb_field_iter_find it1 new_tag) (\<lambda>(found, it2).
                if \<not> found then Done (False, it2, PB_SET_ERROR_in ''iterator error'' s, h1)
                else Done (True, it2, s, h1)))))"

subsection \<open>Allocation\<close>

definition allocate_field :: "pb_istream \<Rightarrow> addr \<Rightarrow> size_t \<Rightarrow> size_t \<Rightarrow> heap \<Rightarrow> dres" where
  "allocate_field s pdata dsize asize h =
     (let check_limit = push_bit 32 1 in
      if dsize = 0 \<or> asize = 0 then fail ''invalid size'' s h
      else if (check_limit \<le> dsize \<or> check_limit \<le> asize) \<and> -1 div asize < dsize
      then fail ''size too large'' s h
      else
        exec_bind (pb_realloc h (rdptr (hmem h) pdata) (unat (asize * dsize))) (\<lambda>(p, h1).
          if p = 0 then fail ''realloc failed'' s h1
          else Done (True, s, upd h1 (\<lambda>m. wrptr m pdata p))))"

definition initialize_pointer_field ::
    "nat \<Rightarrow> pb_env \<Rightarrow> addr \<Rightarrow> pb_field \<Rightarrow> heap \<Rightarrow> heap exec" where
  "initialize_pointer_field n E item f h =
     (let lt = PB_LTYPE (ftype f) in
      if lt = PB_LTYPE_STRING \<or> lt = PB_LTYPE_BYTES then Done (upd h (\<lambda>m. wrptr m item 0))
      else if lt = PB_LTYPE_SUBMESSAGE then
        (case ptr f of
           Ptr_submsg i \<Rightarrow>
             pb_message_set_to_defaults n E (msg_desc E i) item
               (memset0 item (unat (data_size f)) h)
         | _ \<Rightarrow> Undefined)
      else Done h)"

subsection \<open>Field decoders\<close>

text \<open>
  The store and the value it clamps to (extended back to 64 bits), or \<open>None\<close> for an
  invalid size.
\<close>

definition store_signed :: "u32 \<Rightarrow> addr \<Rightarrow> u64 \<Rightarrow> mem \<Rightarrow> (mem \<times> u64) option" where
  "store_signed sz a v m =
     (if sz = 8 then Some (wr64 m a v, v)
      else if sz = 4 then Some (wr32 m a (ucast v), scast (ucast v :: u32))
      else if sz = 2 then Some (wr16 m a (ucast v), scast (ucast v :: u16))
      else if sz = 1 then Some (m(a := ucast v), scast (ucast v :: u8))
      else None)"

definition store_unsigned :: "u32 \<Rightarrow> addr \<Rightarrow> u64 \<Rightarrow> mem \<Rightarrow> (mem \<times> u64) option" where
  "store_unsigned sz a v m =
     (if sz = 8 then Some (wr64 m a v, v)
      else if sz = 4 then Some (wr32 m a (ucast v), ucast (ucast v :: u32))
      else if sz = 2 then Some (wr16 m a (ucast v), ucast (ucast v :: u16))
      else if sz = 1 then Some (m(a := ucast v), ucast (ucast v :: u8))
      else None)"

definition store_clamped ::
    "(mem \<Rightarrow> (mem \<times> u64) option) \<Rightarrow> u64 \<Rightarrow> pb_istream \<Rightarrow> heap \<Rightarrow> dres" where
  "store_clamped st v s h =
     (case st (hmem h) of
        None \<Rightarrow> fail ''invalid data_size'' s h
      | Some (m, clamped) \<Rightarrow>
          if clamped \<noteq> v then fail ''integer too large'' s (h\<lparr>hmem := m\<rparr>)
          else Done (True, s, h\<lparr>hmem := m\<rparr>))"

definition pb_dec_varint :: field_decoder where
  "pb_dec_varint s f dest h =
     (case pb_decode_varint s of
        (None, s1) \<Rightarrow> Done (False, s1, h)
      | (Some v, s1) \<Rightarrow>
          (let svalue = (if data_size f = 8 then v else scast (ucast v :: u32))
           in store_clamped (store_signed (data_size f) dest svalue) svalue s1 h))"

definition pb_dec_uvarint :: field_decoder where
  "pb_dec_uvarint s f dest h =
     (case pb_decode_varint s of
        (None, s1) \<Rightarrow> Done (False, s1, h)
      | (Some v, s1) \<Rightarrow> store_clamped (store_unsigned (data_size f) dest v) v s1 h)"

definition pb_dec_svarint :: field_decoder where
  "pb_dec_svarint s f dest h =
     (case pb_decode_svarint s of
        (None, s1) \<Rightarrow> Done (False, s1, h)
      | (Some v, s1) \<Rightarrow> store_clamped (store_signed (data_size f) dest v) v s1 h)"

definition pb_dec_fixed32 :: field_decoder where
  "pb_dec_fixed32 s f dest h =
     (case pb_decode_fixed32 s of
        (None, s1) \<Rightarrow> Done (False, s1, h)
      | (Some v, s1) \<Rightarrow> Done (True, s1, upd h (\<lambda>m. wr32 m dest v)))"

definition pb_dec_fixed64 :: field_decoder where
  "pb_dec_fixed64 s f dest h =
     (case pb_decode_fixed64 s of
        (None, s1) \<Rightarrow> Done (False, s1, h)
      | (Some v, s1) \<Rightarrow> Done (True, s1, upd h (\<lambda>m. wr64 m dest v)))"

text \<open>\<open>pb_read\<close> into memory; a failed read leaves the destination as it was.\<close>

definition read_into :: "pb_istream \<Rightarrow> addr \<Rightarrow> size_t \<Rightarrow> heap \<Rightarrow> bool \<times> pb_istream \<times> heap" where
  "read_into s dest n h =
     (case pb_read s n of
        (None, s1) \<Rightarrow> (False, s1, h)
      | (Some bs, s1) \<Rightarrow> (True, s1, upd h (\<lambda>m. wr_bytes m dest bs)))"

definition pb_dec_bytes :: field_decoder where
  "pb_dec_bytes s f dest h =
     (case pb_decode_varint32 s of
        (None, s1) \<Rightarrow> Done (False, s1, h)
      | (Some n, s1) \<Rightarrow>
          (let alloc_size = PB_BYTES_ARRAY_T_ALLOCSIZE (ucast n) in
           if PB_SIZE_MAX < n then fail ''bytes overflow'' s1 h
           else if alloc_size < ucast n then fail ''size too large'' s1 h
           else
             seq (if PB_ATYPE (ftype f) = PB_ATYPE_POINTER then allocate_field s1 dest alloc_size 1 h
                  else if ucast (data_size f) < alloc_size then fail ''bytes overflow'' s1 h
                  else Done (True, s1, h))
               (\<lambda>(s2, h2).
                  let bdest = (if PB_ATYPE (ftype f) = PB_ATYPE_POINTER then rdptr (hmem h2) dest
                               else dest)
                  in Done (read_into s2 (bdest + 4) (ucast n) (upd h2 (\<lambda>m. wr32 m bdest n))))))"

definition pb_dec_string :: field_decoder where
  "pb_dec_string s f dest h =
     (case pb_decode_varint32 s of
        (None, s1) \<Rightarrow> Done (False, s1, h)
      | (Some n, s1) \<Rightarrow>
          (let alloc_size = ucast (n + 1) :: size_t in
           if alloc_size < ucast n then fail ''size too large'' s1 h
           else
             seq (if PB_ATYPE (ftype f) = PB_ATYPE_POINTER then allocate_field s1 dest alloc_size 1 h
                  else if ucast (data_size f) < alloc_size then fail ''string overflow'' s1 h
                  else Done (True, s1, h))
               (\<lambda>(s2, h2).
                  let d = (if PB_ATYPE (ftype f) = PB_ATYPE_POINTER then rdptr (hmem h2) dest
                           else dest);
                      (status, s3, h3) = read_into s2 d (ucast n) h2
                  in Done (status, s3, upd h3 (\<lambda>m. m(d + uint n := 0))))))"

text \<open>
  The submessage decoder; \<open>noinit\<close> and \<open>init\<close> stand for \<open>pb_decode_noinit\<close> and \<open>pb_decode\<close>
  at the next nesting depth.
\<close>

definition pb_dec_submessage :: "pb_env \<Rightarrow> msg_decoder \<Rightarrow> msg_decoder \<Rightarrow> field_decoder" where
  "pb_dec_submessage E noinit init s f dest h =
     (case pb_make_string_substream s of
        (None, s1) \<Rightarrow> Done (False, s1, h)
      | (Some sub, s1) \<Rightarrow>
          (case ptr f of
             Ptr_null \<Rightarrow> fail ''invalid field descriptor'' s1 h
           | Ptr_default _ \<Rightarrow> Undefined
           | Ptr_submsg i \<Rightarrow>
               exec_bind
                 ((if PB_HTYPE (ftype f) = PB_HTYPE_REPEATED then init else noinit)
                    sub (msg_desc E i) dest h)
                 (\<lambda>(status, sub1, h1).
                    let (closed, s2) = pb_close_string_substream s1 sub1
                    in Done (closed \<and> status, s2, h1))))"

definition pb_dec_fixed_length_bytes :: field_decoder where
  "pb_dec_fixed_length_bytes s f dest h =
     (case pb_decode_varint32 s of
        (None, s1) \<Rightarrow> Done (False, s1, h)
      | (Some n, s1) \<Rightarrow>
          if PB_SIZE_MAX < n then fail ''bytes overflow'' s1 h
          else if n = 0 then Done (True, s1, memset0 dest (unat (data_size f)) h)
          else if n \<noteq> data_size f then fail ''incorrect fixed length bytes size'' s1 h
          else Done (read_into s1 dest (ucast (data_size f)) h))"

definition PB_DECODERS :: "pb_env \<Rightarrow> msg_decoder \<Rightarrow> msg_decoder \<Rightarrow> u8 \<Rightarrow> field_decoder" where
  "PB_DECODERS E noinit init lt s f dest h =
     (if dest = 0 then Undefined
      else if lt = PB_LTYPE_VARINT then pb_dec_varint s f dest h
      else if lt = PB_LTYPE_UVARINT then pb_dec_uvarint s f dest h
      else if lt = PB_LTYPE_SVARINT then pb_dec_svarint s f dest h
      else if lt = PB_LTYPE_FIXED32 then pb_dec_fixed32 s f dest h
      else if lt = PB_LTYPE_FIXED64 then pb_dec_fixed64 s f dest h
      else if lt = PB_LTYPE_BYTES then pb_dec_bytes s f dest h
      else if lt = PB_LTYPE_STRING then pb_dec_string s f dest h
      else if lt = PB_LTYPE_SUBMESSAGE then pb_dec_submessage E noinit init s f dest h
      else if lt = PB_LTYPE_FIXED_LENGTH_BYTES then pb_dec_fixed_length_bytes s f dest h
      else Undefined)"

subsection \<open>A single field\<close>

text \<open>
  The loop over a packed array of fixed capacity. It ends when the substream is empty, the
  array is full, or an element fails.
\<close>

fun packed_static ::
    "nat \<Rightarrow> field_decoder \<Rightarrow> pb_field_iter \<Rightarrow> pb_istream \<Rightarrow> heap \<Rightarrow> dres" where
  "packed_static 0 func it sub h = Out_of_fuel"
| "packed_static (Suc k) func it sub h =
     (let f = cur it; count = rd32 (hmem h) (pSize it) in
      if 0 < bytes_left sub \<and> count < array_size f then
        seq (func sub f (pData it + uint (data_size f * count)) h)
          (\<lambda>(sub1, h1).
             packed_static k func it sub1
               (upd h1 (\<lambda>m. wr32 m (pSize it) (rd32 m (pSize it) + 1))))
      else Done (True, sub, h))"

definition decode_static_field ::
    "nat \<Rightarrow> pb_env \<Rightarrow> (u8 \<Rightarrow> field_decoder) \<Rightarrow> pb_istream \<Rightarrow> pb_wire_type_t \<Rightarrow> pb_field_iter \<Rightarrow>
     heap \<Rightarrow> dres" where
  "decode_static_field n E decoders s wt it h =
     (let f = cur it; ty = ftype f; lt = PB_LTYPE ty; func = decoders lt in
      if PB_HTYPE ty = PB_HTYPE_REQUIRED then func s f (pData it) h
      else if PB_HTYPE ty = PB_HTYPE_OPTIONAL then
        func s f (pData it) (if pSize it \<noteq> pData it then upd h (\<lambda>m. m(pSize it := 1)) else h)
      else if PB_HTYPE ty = PB_HTYPE_REPEATED then
        (if wt = PB_WT_STRING \<and> lt \<le> PB_LTYPE_LAST_PACKABLE then
           (case pb_make_string_substream s of
              (None, s1) \<Rightarrow> Done (False, s1, h)
            | (Some sub, s1) \<Rightarrow>
                exec_bind (packed_static (Suc (unat (bytes_left sub))) func it sub h)
                  (\<lambda>(status, sub1, h1).
                     if bytes_left sub1 \<noteq> 0 then fail ''array overflow'' s1 h1
                     else
                       (let (closed, s2) = pb_close_string_substream s1 sub1
                        in Done (closed \<and> status, s2, h1))))
         else
           (let count = rd32 (hmem h) (pSize it);
                h1 = upd h (\<lambda>m. wr32 m (pSize it) (count + 1))
            in if array_size f \<le> count then fail ''array overflow'' s h1
               else func s f (pData it + uint (data_size f * count)) h1))
      else if PB_HTYPE ty = PB_HTYPE_ONEOF then
        (let h1 = upd h (\<lambda>m. wr32 m (pSize it) (tag f)) in
         exec_bind
           (if lt = PB_LTYPE_SUBMESSAGE then
              (case ptr f of
                 Ptr_submsg i \<Rightarrow>
                   pb_message_set_to_defaults n E (msg_desc E i) (pData it)
                     (memset0 (pData it) (unat (data_size f)) h1)
               | _ \<Rightarrow> Undefined)
            else Done h1)
           (func s f (pData it)))
      else fail ''invalid field type'' s h)"

text \<open>
  The loop over a packed array on the heap; \<open>allocated\<close> is the capacity guessed so far.
  The second component tells whether \<open>stream->errmsg\<close> is set by the loop itself.
\<close>

fun packed_pointer ::
    "nat \<Rightarrow> nat \<Rightarrow> pb_env \<Rightarrow> field_decoder \<Rightarrow> pb_field_iter \<Rightarrow> size_t \<Rightarrow> pb_istream \<Rightarrow> heap \<Rightarrow>
     (bool \<times> bool \<times> pb_istream \<times> heap) exec" where
  "packed_pointer 0 n E func it allocated sub h = Out_of_fuel"
| "packed_pointer (Suc k) n E func it allocated sub h =
     (let f = cur it; dsize = ucast (data_size f) :: size_t; count = rd32 (hmem h) (pSize it) in
      if bytes_left sub = 0 then Done (True, False, sub, h)
      else if allocated < ucast count + 1 \<and> dsize = 0 then Undefined
      else
        (let grow = (allocated < ucast count + 1);
             allocated' = (if grow then allocated + ((bytes_left sub - 1) div dsize + 1)
                           else allocated)
         in
         exec_bind (if grow then allocate_field sub (pData it) dsize allocated' h
                    else Done (True, sub, h))
           (\<lambda>(ok, sub1, h1).
              if \<not> ok then Done (False, False, sub1, h1)
              else
                (let item = rdptr (hmem h1) (pData it)
                              + uint (data_size f * rd32 (hmem h1) (pSize it)) in
                 exec_bind (initialize_pointer_field n E item f h1) (\<lambda>h2.
                   exec_bind (func sub1 f item h2) (\<lambda>(ok, sub2, h3).
                     if \<not> ok then Done (False, False, sub2, h3)
                     else
                       (let count' = rd32 (hmem h3) (pSize it) in
                        if count' = PB_SIZE_MAX then Done (False, True, sub2, h3)
                        else packed_pointer k n E func it allocated' sub2
                               (upd h3 (\<lambda>m. wr32 m (pSize it) (count' + 1))))))))))"

definition decode_pointer_field ::
    "nat \<Rightarrow> pb_env \<Rightarrow> (u8 \<Rightarrow> field_decoder) \<Rightarrow> pb_istream \<Rightarrow> pb_wire_type_t \<Rightarrow> pb_field_iter \<Rightarrow>
     heap \<Rightarrow> dres" where
  "decode_pointer_field n E decoders s wt it h =
     (let f = cur it; ty = ftype f; lt = PB_LTYPE ty; func = decoders lt;
          dsize = ucast (data_size f) :: size_t
      in
      if PB_HTYPE ty = PB_HTYPE_REQUIRED \<or> PB_HTYPE ty = PB_HTYPE_OPTIONAL
         \<or> PB_HTYPE ty = PB_HTYPE_ONEOF then
        exec_bind
          (if lt = PB_LTYPE_SUBMESSAGE \<and> rdptr (hmem h) (pData it) \<noteq> 0
           then pb_release_single_field n E it h else Done h)
          (\<lambda>h0.
             let h1 = (if PB_HTYPE ty = PB_HTYPE_ONEOF
                       then upd h0 (\<lambda>m. wr32 m (pSize it) (tag f)) else h0)
             in
             if lt = PB_LTYPE_STRING \<or> lt = PB_LTYPE_BYTES then func s f (pData it) h1
             else
               seq (allocate_field s (pData it) dsize 1 h1) (\<lambda>(s2, h2).
                 exec_bind (initialize_pointer_field n E (rdptr (hmem h2) (pData it)) f h2)
                   (\<lambda>h3. func s2 f (rdptr (hmem h3) (pData it)) h3)))
      else if PB_HTYPE ty = PB_HTYPE_REPEATED then
        (if wt = PB_WT_STRING \<and> lt \<le> PB_LTYPE_LAST_PACKABLE then
           (case pb_make_string_substream s of
              (None, s1) \<Rightarrow> Done (False, s1, h)
            | (Some sub, s1) \<Rightarrow>
                exec_bind
                  (packed_pointer (Suc (unat (bytes_left sub))) n E func it
                     (ucast (rd32 (hmem h) (pSize it))) sub h)
                  (\<lambda>(status, toomany, sub1, h1).
                     let s2 = (if toomany then s1\<lparr>ierrmsg := Some ''too many array entries''\<rparr>
                               else s1);
                         (closed, s3) = pb_close_string_substream s2 sub1
                     in Done (closed \<and> status, s3, h1)))
         else
           (let count = rd32 (hmem h) (pSize it) in
            if count = PB_SIZE_MAX then fail ''too many array entries'' s h
            else
              seq (allocate_field s (pData it) dsize (ucast (count + 1))
                     (upd h (\<lambda>m. wr32 m (pSize it) (count + 1))))
                (\<lambda>(s2, h2).
                   let item = rdptr (hmem h2) (pData it)
                              + uint (data_size f * (rd32 (hmem h2) (pSize it) - 1))
                   in exec_bind (initialize_pointer_field n E item f h2) (func s2 f item))))
      else fail ''invalid field type'' s h)"

text \<open>
  The \<open>do .. while\<close> around a callback: it is called until it has read the whole substream.
  A callback that never reads would be called for ever.
\<close>

fun callback_loop ::
    "nat \<Rightarrow> (pb_istream \<Rightarrow> heap \<Rightarrow> dres) \<Rightarrow> pb_istream \<Rightarrow> heap \<Rightarrow> dres" where
  "callback_loop 0 cb sub h = Out_of_fuel"
| "callback_loop (Suc k) cb sub h =
     seq (cb sub h)
       (\<lambda>(sub1, h1). if bytes_left sub1 \<noteq> 0 then callback_loop k cb sub1 h1
                     else Done (True, sub1, h1))"

definition decode_callback_field ::
    "pb_env \<Rightarrow> pb_istream \<Rightarrow> pb_wire_type_t \<Rightarrow> pb_field_iter \<Rightarrow> heap \<Rightarrow> dres" where
  "decode_callback_field E s wt it h =
     (let fn = rdptr (hmem h) (pData it);
          cb = (\<lambda>sub h. decode_cb E fn sub (cur it) (pData it + 8) h)
      in
      if pData it = 0 \<or> fn = 0 then
        (case pb_skip_field s wt of (ok, s1) \<Rightarrow> Done (ok, s1, h))
      else if wt = PB_WT_STRING then
        (case pb_make_string_substream s of
           (None, s1) \<Rightarrow> Done (False, s1, h)
         | (Some sub, s1) \<Rightarrow>
             exec_bind (callback_loop (Suc (unat (bytes_left sub))) cb sub h)
               (\<lambda>(ok, sub1, h1).
                  if \<not> ok then fail ''callback failed'' s1 h1
                  else
                    (let (closed, s2) = pb_close_string_substream s1 sub1
                     in Done (closed, s2, h1))))
      else
        (case read_raw_value s wt 10 of
           (None, s1) \<Rightarrow> Done (False, s1, h)
         | (Some bs, s1) \<Rightarrow>
             exec_bind (cb (pb_istream_from_buffer bs (of_nat (length bs))) h)
               (\<lambda>(ok, _, h1). Done (ok, s1, h1))))"

definition decode_field ::
    "nat \<Rightarrow> pb_env \<Rightarrow> (u8 \<Rightarrow> field_decoder) \<Rightarrow> pb_istream \<Rightarrow> pb_wire_type_t \<Rightarrow> pb_field_iter \<Rightarrow>
     heap \<Rightarrow> (bool \<times> pb_field_iter \<times> pb_istream \<times> heap) exec" where
  "decode_field n E decoders s wt it h =
     seq (if PB_HTYPE (ftype (cur it)) = PB_HTYPE_ONEOF then pb_release_union_field n E s it h
          else Done (True, it, s, h))
       (\<lambda>(it1, s1, h1).
          exec_bind
            (let at = PB_ATYPE (ftype (cur it1)) in
             if at = PB_ATYPE_STATIC then decode_static_field n E decoders s1 wt it1 h1
             else if at = PB_ATYPE_POINTER then decode_pointer_field n E decoders s1 wt it1 h1
             else if at = PB_ATYPE_CALLBACK then decode_callback_field E s1 wt it1 h1
             else fail ''invalid field type'' s1 h1)
            (\<lambda>(ok, s2, h2). Done (ok, it1, s2, h2)))"

subsection \<open>Extensions\<close>

definition default_extension_decoder ::
    "nat \<Rightarrow> pb_env \<Rightarrow> (u8 \<Rightarrow> field_decoder) \<Rightarrow> pb_istream \<Rightarrow> addr \<Rightarrow> u32 \<Rightarrow> pb_wire_type_t \<Rightarrow> heap \<Rightarrow>
     dres" where
  "default_extension_decoder n E decoders s ext t wt h =
     (let f = ext_arg (extension_type E (hmem h) ext) in
      if tag f \<noteq> t then Done (True, s, h)
      else
        (let it = iter_from_extension E (hmem h) ext in
         exec_bind (decode_field n E decoders s wt it (upd h (\<lambda>m. m(ext + 24 := 1))))
           (\<lambda>(ok, _, s1, h1). Done (ok, s1, h1))))"

text \<open>\<open>k\<close> bounds the length of the chain; \<open>left\<close> is the position before the first handler.\<close>

fun decode_extension_loop ::
    "nat \<Rightarrow> nat \<Rightarrow> pb_env \<Rightarrow> (u8 \<Rightarrow> field_decoder) \<Rightarrow> size_t \<Rightarrow> u32 \<Rightarrow> pb_wire_type_t \<Rightarrow> addr \<Rightarrow>
     pb_istream \<Rightarrow> heap \<Rightarrow> dres" where
  "decode_extension_loop 0 n E decoders left t wt ext s h = Out_of_fuel"
| "decode_extension_loop (Suc k) n E decoders left t wt ext s h =
     (if ext = 0 \<or> left \<noteq> bytes_left s then Done (True, s, h)
      else
        seq (case ext_decode (extension_type E (hmem h) ext) of
               Some d \<Rightarrow> d s ext t wt h
             | None \<Rightarrow> default_extension_decoder n E decoders s ext t wt h)
          (\<lambda>(s1, h1).
             decode_extension_loop k n E decoders left t wt (extension_next (hmem h1) ext) s1 h1))"

definition decode_extension ::
    "nat \<Rightarrow> pb_env \<Rightarrow> (u8 \<Rightarrow> field_decoder) \<Rightarrow> pb_istream \<Rightarrow> u32 \<Rightarrow> pb_wire_type_t \<Rightarrow>
     pb_field_iter \<Rightarrow> heap \<Rightarrow> dres" where
  "decode_extension n E decoders s t wt it h =
     decode_extension_loop (Suc n) n E decoders (bytes_left s) t wt (rdptr (hmem h) (pData it)) s h"

definition find_extension_field :: "pb_field_iter \<Rightarrow> (bool \<times> pb_field_iter) exec" where
  "find_extension_field it =
     find_loop (Suc (length (start it))) (\<lambda>f. PB_LTYPE (ftype f) = PB_LTYPE_EXTENSION) (pos it) it"

subsection \<open>Messages\<close>

definition PB_MAX_REQUIRED_FIELDS :: nat where "PB_MAX_REQUIRED_FIELDS = 64"

text \<open>
  The local variables of \<open>pb_decode_noinit\<close> that live across fields.
  \<open>fixed_count_size\<close> is in memory, at the frame's slot; it is only read after it has been
  set for a new field, so its initial value is not stored.
\<close>

record dec_locals =
  d_iter :: pb_field_iter
  fields_seen :: "u32 list"
  extension_range_start :: u32
  fixed_count_field :: "nat option"

text \<open>How a turn of the loop ends: \<open>continue\<close>, \<open>break\<close> or \<open>return false\<close>.\<close>

datatype turn = Continue | Break | Return_false

type_synonym turn_result = "(turn \<times> pb_istream \<times> heap \<times> dec_locals) exec"

definition skip_turn :: "pb_istream \<Rightarrow> pb_wire_type_t \<Rightarrow> heap \<Rightarrow> dec_locals \<Rightarrow> turn_result" where
  "skip_turn s wt h l =
     (case pb_skip_field s wt of
        (ok, s1) \<Rightarrow> Done (if ok then Continue else Return_false, s1, h, l))"

definition unknown_field ::
    "nat \<Rightarrow> pb_env \<Rightarrow> (u8 \<Rightarrow> field_decoder) \<Rightarrow> pb_istream \<Rightarrow> u32 \<Rightarrow> pb_wire_type_t \<Rightarrow> heap \<Rightarrow>
     dec_locals \<Rightarrow> turn_result" where
  "unknown_field n E decoders s t wt h l =
     (if t < extension_range_start l then skip_turn s wt h l
      else
        exec_bind (find_extension_field (d_iter l)) (\<lambda>(found, it).
          let start = (if found then tag (cur it) else -1);
              l1 = l\<lparr>d_iter := it, extension_range_start := start\<rparr>
          in
          if t < start then skip_turn s wt h l1
          else
            exec_bind (decode_extension n E decoders s t wt it h) (\<lambda>(ok, s1, h1).
              if \<not> ok then Done (Return_false, s1, h1, l1)
              else if bytes_left s \<noteq> bytes_left s1 then Done (Continue, s1, h1, l1)
              else skip_turn s1 wt h1 l1)))"

definition fixed_count_incomplete :: "addr \<Rightarrow> dec_locals \<Rightarrow> mem \<Rightarrow> bool" where
  "fixed_count_incomplete slot l m =
     (case fixed_count_field l of
        None \<Rightarrow> False
      | Some i \<Rightarrow> rd32 m slot \<noteq> array_size (fld (start (d_iter l)) i))"

definition mark_seen :: "dec_locals \<Rightarrow> dec_locals" where
  "mark_seen l =
     (let i = unat (required_field_index (d_iter l)) in
      if PB_HTYPE (ftype (cur (d_iter l))) = PB_HTYPE_REQUIRED \<and> i < PB_MAX_REQUIRED_FIELDS
      then l\<lparr>fields_seen := (fields_seen l)
              [i div 32 := fields_seen l ! (i div 32) OR push_bit (i mod 32) 1]\<rparr>
      else l)"

definition known_field ::
    "nat \<Rightarrow> pb_env \<Rightarrow> (u8 \<Rightarrow> field_decoder) \<Rightarrow> addr \<Rightarrow> pb_istream \<Rightarrow> pb_wire_type_t \<Rightarrow> heap \<Rightarrow>
     dec_locals \<Rightarrow> turn_result" where
  "known_field n E decoders slot s wt h l =
     (let it = d_iter l; f = cur it;
          fixed = (PB_HTYPE (ftype f) = PB_HTYPE_REPEATED \<and> pSize it = pData it);
          new = (fixed \<and> fixed_count_field l \<noteq> Some (pos it))
      in
      if new \<and> fixed_count_incomplete slot l (hmem h)
      then Done (Return_false, PB_SET_ERROR_in ''wrong size for fixed count field'' s, h, l)
      else
        (let l1 = (if new then l\<lparr>fixed_count_field := Some (pos it)\<rparr> else l);
             h1 = (if new then upd h (\<lambda>m. wr32 m slot 0) else h);
             l2 = mark_seen (if fixed then l1\<lparr>d_iter := it\<lparr>pSize := slot\<rparr>\<rparr> else l1)
         in exec_bind (decode_field n E decoders s wt (d_iter l2) h1)
              (\<lambda>(ok, it1, s1, h2).
                 Done (if ok then Continue else Return_false, s1, h2, l2\<lparr>d_iter := it1\<rparr>))))"

definition decode_turn ::
    "nat \<Rightarrow> pb_env \<Rightarrow> (u8 \<Rightarrow> field_decoder) \<Rightarrow> addr \<Rightarrow> pb_istream \<Rightarrow> heap \<Rightarrow> dec_locals \<Rightarrow>
     turn_result" where
  "decode_turn n E decoders slot s h l =
     (case pb_decode_tag s of
        (ok, wt, t, eof, s1) \<Rightarrow>
          if \<not> ok then Done (if eof then Break else Return_false, s1, h, l)
          else
            exec_bind (pb_field_iter_find (d_iter l) t) (\<lambda>(found, it).
              if found then known_field n E decoders slot s1 wt h (l\<lparr>d_iter := it\<rparr>)
              else unknown_field n E decoders s1 t wt h (l\<lparr>d_iter := it\<rparr>)))"

text \<open>The loop over the input; the first component is false after \<open>return false\<close>.\<close>

fun decode_loop ::
    "nat \<Rightarrow> nat \<Rightarrow> pb_env \<Rightarrow> (u8 \<Rightarrow> field_decoder) \<Rightarrow> addr \<Rightarrow> pb_istream \<Rightarrow> heap \<Rightarrow> dec_locals \<Rightarrow>
     (bool \<times> pb_istream \<times> heap \<times> dec_locals) exec" where
  "decode_loop 0 n E decoders slot s h l = Out_of_fuel"
| "decode_loop (Suc k) n E decoders slot s h l =
     (if bytes_left s = 0 then Done (True, s, h, l)
      else
        exec_bind (decode_turn n E decoders slot s h l)
          (\<lambda>(t, s1, h1, l1).
             case t of
               Continue \<Rightarrow> decode_loop k n E decoders slot s1 h1 l1
             | Break \<Rightarrow> Done (True, s1, h1, l1)
             | Return_false \<Rightarrow> Done (False, s1, h1, l1)))"

text \<open>
  Seeking to the end of the descriptors: the index and the type of the last one, and the
  iterator, which is back at the beginning.
\<close>

fun seek_end :: "nat \<Rightarrow> pb_field_iter \<Rightarrow> (u32 \<times> u8 \<times> pb_field_iter) exec" where
  "seek_end 0 it = Out_of_fuel"
| "seek_end (Suc k) it =
     (case pb_field_iter_next it of
        (again, it1) \<Rightarrow>
          if again then seek_end k it1
          else Done (required_field_index it, ftype (cur it), it1))"

definition all_required_seen :: "u32 list \<Rightarrow> nat \<Rightarrow> bool" where
  "all_required_seen seen count =
     (list_all (\<lambda>i. seen ! i = -1) [0..<count div 32] \<and>
      (count mod 32 \<noteq> 0 \<longrightarrow> seen ! (count div 32) = drop_bit (32 - count mod 32) (-1)))"

definition check_required :: "pb_field_iter \<Rightarrow> u32 list \<Rightarrow> bool exec" where
  "check_required it seen =
     exec_bind (seek_end (Suc (length (start it))) it) (\<lambda>(req, last_type, it1).
       let count = unat (if PB_HTYPE last_type = PB_HTYPE_REQUIRED \<and> tag (cur it1) \<noteq> 0
                         then req + 1 else req)
       in Done (all_required_seen seen (min count PB_MAX_REQUIRED_FIELDS)))"

definition decode_message ::
    "nat \<Rightarrow> pb_env \<Rightarrow> (u8 \<Rightarrow> field_decoder) \<Rightarrow> addr \<Rightarrow> msg_decoder" where
  "decode_message n E decoders slot s fs dest h =
     exec_bind
       (decode_loop (Suc (unat (bytes_left s))) n E decoders slot s h
          \<lparr>d_iter = snd (pb_field_iter_begin fs dest), fields_seen = [0, 0],
           extension_range_start = 0, fixed_count_field = None\<rparr>)
       (\<lambda>(ok, s1, h1, l).
          if \<not> ok then Done (False, s1, h1)
          else if fixed_count_incomplete slot l (hmem h1)
          then fail ''wrong size for fixed count field'' s1 h1
          else
            exec_bind (check_required (d_iter l) (fields_seen l)) (\<lambda>ok.
              if ok then Done (True, s1, h1) else fail ''missing required field'' s1 h1))"

text \<open>\<open>pb_decode\<close> on top of a given \<open>pb_decode_noinit\<close>.\<close>

definition init_decode :: "nat \<Rightarrow> pb_env \<Rightarrow> msg_decoder \<Rightarrow> msg_decoder" where
  "init_decode n E noinit s fs dest h =
     exec_bind (pb_message_set_to_defaults n E fs dest h) (\<lambda>h1.
       exec_bind (noinit s fs dest h1) (\<lambda>(status, s2, h2).
         if status then Done (True, s2, h2)
         else exec_bind (pb_release n E fs dest h2) (\<lambda>h3. Done (False, s2, h3))))"

fun pb_decode_noinit :: "nat \<Rightarrow> pb_env \<Rightarrow> msg_decoder" where
  "pb_decode_noinit 0 E s fs dest h = Out_of_fuel"
| "pb_decode_noinit (Suc n) E s fs dest h =
     decode_message (Suc n) E
       (PB_DECODERS E (pb_decode_noinit n E) (init_decode n E (pb_decode_noinit n E)))
       (frame_slot E n) s fs dest h"

definition pb_decode :: "nat \<Rightarrow> pb_env \<Rightarrow> msg_decoder" where
  "pb_decode n E = init_decode n E (pb_decode_noinit n E)"

definition decode_delimited :: "msg_decoder \<Rightarrow> msg_decoder" where
  "decode_delimited dec s fs dest h =
     (case pb_make_string_substream s of
        (None, s1) \<Rightarrow> Done (False, s1, h)
      | (Some sub, s1) \<Rightarrow>
          exec_bind (dec sub fs dest h) (\<lambda>(status, sub1, h1).
            let (closed, s2) = pb_close_string_substream s1 sub1
            in Done (closed \<and> status, s2, h1)))"

definition pb_decode_delimited_noinit :: "nat \<Rightarrow> pb_env \<Rightarrow> msg_decoder" where
  "pb_decode_delimited_noinit n E = decode_delimited (pb_decode_noinit n E)"

definition pb_decode_delimited :: "nat \<Rightarrow> pb_env \<Rightarrow> msg_decoder" where
  "pb_decode_delimited n E = decode_delimited (pb_decode n E)"

definition pb_decode_nullterminated :: "nat \<Rightarrow> pb_env \<Rightarrow> msg_decoder" where
  "pb_decode_nullterminated n E = pb_decode n E"

end
