(* ===== verification/Pb_Istream_Lemmas.thy ===== *)
theory Pb_Istream_Lemmas
  imports Pb_Istream
begin

text \<open>
  What the readers do. Two contracts are shared by the proofs: \<open>parses f bs x\<close> (on a buffer
  that starts with \<open>bs\<close> the reader returns \<open>x\<close> and consumes exactly \<open>bs\<close>; the readers
  satisfy it on the bytes their writers emit) and \<open>shrinks f\<close> (on every stream a reader
  gives no bytes back, and takes at least one when it succeeds).
\<close>

unbundle bit_operations_syntax

subsection \<open>Consuming a buffer\<close>

definition advance :: "nat \<Rightarrow> pb_istream \<Rightarrow> pb_istream" where
  "advance n s = s\<lparr>istate := drop n (istate s), bytes_left := bytes_left s - of_nat n\<rparr>"

definition at_buffer :: "u8 list \<Rightarrow> pb_istream \<Rightarrow> bool" where
  "at_buffer bs s \<longleftrightarrow>
     icallback s = Buf_read \<and> take (length bs) (istate s) = bs \<and> length bs \<le> unat (bytes_left s)"

definition parses :: "(pb_istream \<Rightarrow> 'a option \<times> pb_istream) \<Rightarrow> u8 list \<Rightarrow> 'a \<Rightarrow> bool" where
  "parses f bs x \<longleftrightarrow> (\<forall>s. at_buffer bs s \<longrightarrow> f s = (Some x, advance (length bs) s))"

definition consumes :: "(pb_istream \<Rightarrow> bool \<times> pb_istream) \<Rightarrow> u8 list \<Rightarrow> bool" where
  "consumes f bs \<longleftrightarrow> (\<forall>s. at_buffer bs s \<longrightarrow> f s = (True, advance (length bs) s))"

lemma parsesD: "parses f bs x \<Longrightarrow> at_buffer bs s \<Longrightarrow> f s = (Some x, advance (length bs) s)"
  by (simp add: parses_def)

lemma consumesD: "consumes f bs \<Longrightarrow> at_buffer bs s \<Longrightarrow> f s = (True, advance (length bs) s)"
  by (simp add: consumes_def)

named_theorems stream_simps \<open>the fields of an advanced stream\<close>

lemma advance_fields [stream_simps]:
  "icallback (advance n s) = icallback s" "istate (advance n s) = drop n (istate s)"
  "bytes_left (advance n s) = bytes_left s - of_nat n" "ierrmsg (advance n s) = ierrmsg s"
  by (simp_all add: advance_def)

lemma advance_0 [simp]: "advance 0 s = s"
  by (simp add: advance_def)

lemma advance_advance [simp]: "advance n (advance m s) = advance (m + n) s"
  by (simp add: advance_def add.commute)

lemma take_append_iff:
  "take (length bs + n) xs = bs @ cs \<longleftrightarrow> take (length bs) xs = bs \<and> take n (drop (length bs) xs) = cs"
proof
  assume l: "take (length bs + n) xs = bs @ cs"
  then have "length bs \<le> length (take (length bs + n) xs)" by simp
  then have "length (take (length bs) xs) = length bs" by simp
  with l show "take (length bs) xs = bs \<and> take n (drop (length bs) xs) = cs"
    by (simp add: take_add append_eq_append_conv)
next
  assume "take (length bs) xs = bs \<and> take n (drop (length bs) xs) = cs"
  then show "take (length bs + n) xs = bs @ cs" by (simp add: take_add)
qed

lemma at_buffer_append:
  "at_buffer (bs @ cs) s \<longleftrightarrow> at_buffer bs s \<and> at_buffer cs (advance (length bs) s)"
  by (auto simp: at_buffer_def stream_simps unat_minus_of_nat take_append_iff)

lemma at_buffer_Cons:
  "at_buffer (b # bs) s \<longleftrightarrow> at_buffer [b] s \<and> at_buffer bs (advance 1 s)"
  using at_buffer_append [of "[b]" bs s] by simp

lemma length_single: "length [x] = 1"
  by simp

lemma parses_readbyte: "parses pb_readbyte [b] b"
proof (unfold parses_def, intro allI impI)
  fix s assume a: "at_buffer [b] s"
  then have ne: "bytes_left s \<noteq> 0" and cb: "icallback s = Buf_read" "istate s \<noteq> []" "istate s ! 0 = b"
    by (cases "istate s"; force simp: at_buffer_def unat_gt_0 Suc_le_eq)+
  then show "pb_readbyte s = (Some b, advance (length [b]) s)"
    by (simp add: pb_readbyte_def istream_callback_def advance_def)
qed

lemma parses_read:
  assumes "length bs < 2 ^ 64"
  shows "parses (\<lambda>s. pb_read s (of_nat (length bs))) bs bs"
proof (unfold parses_def, intro allI impI)
  fix s assume a: "at_buffer bs s"
  then have u: "unat (of_nat (length bs) :: u64) = length bs"
    by (auto simp: at_buffer_def intro: unat_of_nat_le64)
  have "map (\<lambda>i. if i < length (istate s) then istate s ! i else 0) [0..<length bs] = bs"
  proof (rule nth_equalityI)
    fix i assume "i < length (map (\<lambda>i. if i < length (istate s) then istate s ! i else 0) [0..<length bs])"
    then have i: "i < length bs" by simp
    have t: "take (length bs) (istate s) = bs" using a by (simp add: at_buffer_def)
    then have "length bs \<le> length (istate s)" by (metis length_take min.cobounded1)
    with i t show "map (\<lambda>i. if i < length (istate s) then istate s ! i else 0) [0..<length bs] ! i = bs ! i"
      by (simp, metis nth_take)
  qed simp
  with a u show "pb_read s (of_nat (length bs)) = (Some bs, advance (length bs) s)"
    by (simp add: pb_read_def istream_callback_def advance_def at_buffer_def word_less_nat_alt)
qed

lemma consumes_read_null:
  assumes "length bs < 2 ^ 64"
  shows "consumes (\<lambda>s. pb_read_null s (of_nat (length bs))) bs"
  using parsesD [OF parses_read [OF assms]]
  by (auto simp: consumes_def pb_read_null_def at_buffer_def)

lemma varint_dec_loop_vbytes:
  assumes "k + 7 * length (vbytes n) < 71"
  shows "parses (\<lambda>s. varint_dec_loop s (of_nat k) r) (vbytes n) (r OR push_bit k (of_nat n))"
  using assms
proof (induction n arbitrary: k r rule: vbytes.induct)
  case (1 n)
  have k: "\<not> 64 \<le> (of_nat k :: u8)" "unat (of_nat k :: u8) = k"
  proof -
    have "0 < length (vbytes n)" by simp
    with "1.prems" have "k < 64" by linarith
    then show "unat (of_nat k :: u8) = k" by (simp add: unat_u8_of_nat)
    with \<open>k < 64\<close> show "\<not> 64 \<le> (of_nat k :: u8)" by (simp add: word_le_nat_alt)
  qed
  show ?case
  proof (cases "n < 128")
    case True
    then have v: "vbytes n = [of_nat n]" by (subst vbytes.simps) simp
    show ?thesis
      unfolding parses_def v
    proof (intro allI impI)
      fix s assume a: "at_buffer [of_nat n] s"
      show "varint_dec_loop s (of_nat k) r =
          (Some (r OR push_bit k (of_nat n)), advance (length [of_nat n :: u8]) s)"
        unfolding varint_dec_loop.simps [of s] parsesD [OF parses_readbyte a] Let_def
          prod.case option.case if_not_P [OF k(1)] vbyte_last [OF True] k(2)
        by simp
    qed
  next
    case False
    let ?b = "of_nat (n mod 128 + 128) :: u8"
    have v: "vbytes n = ?b # vbytes (n div 128)" using False by (subst vbytes.simps) simp
    have m: "n mod 128 < 128" by simp
    have "k + 7 + 7 * length (vbytes (n div 128)) < 71" using "1.prems" by (simp add: v)
    note IH = parsesD [OF "1.IH" [OF False this]]
    have kk: "of_nat k + 7 = (of_nat (k + 7) :: u8)" by simp
    show ?thesis
      unfolding parses_def v
    proof (intro allI impI)
      fix s assume "at_buffer (?b # vbytes (n div 128)) s"
      then have a: "at_buffer [?b] s" "at_buffer (vbytes (n div 128)) (advance 1 s)"
        by (simp_all only: at_buffer_Cons [of ?b "vbytes (n div 128)"])
      show "varint_dec_loop s (of_nat k) r =
          (Some (r OR push_bit k (of_nat n)), advance (length (?b # vbytes (n div 128))) s)"
        unfolding varint_dec_loop.simps [of s] parsesD [OF parses_readbyte a(1)] length_single Let_def
          prod.case option.case if_not_P [OF k(1)] if_P [OF vbyte_cont(1) [OF m]]
          vbyte_cont(2) [OF m] k(2) kk
        using IH [of _ "r OR push_bit k (of_nat (n mod 128))", OF a(2)]
        by (simp add: or.assoc push_of_nat_mod_div7)
    qed
  qed
qed

lemma parses_varint:
  "parses pb_decode_varint (vbytes (unat v)) v"
proof -
  have "parses (\<lambda>s. varint_dec_loop s (of_nat 0) 0) (vbytes (unat v)) (0 OR push_bit 0 (of_nat (unat v)))"
    by (rule varint_dec_loop_vbytes) (use length_vbytes_u64 [of v] in simp)
  then show ?thesis by (simp add: pb_decode_varint_def parses_def)
qed

subsection \<open>32-bit varints\<close>

lemma varint32_step:
  assumes n: "128 \<le> n" and k: "k < 32"
    and rest: "parses (\<lambda>s. varint32_loop s (of_nat (k + 7)) (r OR push_bit k (of_nat (n mod 128))))
                 (vbytes (n div 128)) x"
  shows "parses (\<lambda>s. varint32_loop s (of_nat k) r) (vbytes n) x"
  unfolding parses_def
proof (intro allI impI)
  let ?b = "of_nat (n mod 128 + 128) :: u8"
  have v: "vbytes n = ?b # vbytes (n div 128)" using n by (subst vbytes.simps) simp
  have m: "n mod 128 < 128" by simp
  have ku: "unat (of_nat k :: u8) = k" using k by (simp add: unat_u8_of_nat)
  then have kk: "\<not> 32 \<le> (of_nat k :: u8)" using k by (simp add: word_le_nat_alt)
  have k7: "of_nat k + 7 = (of_nat (k + 7) :: u8)" by simp
  fix s assume "at_buffer (vbytes n) s"
  then have a: "at_buffer [?b] s" "at_buffer (vbytes (n div 128)) (advance 1 s)"
    by (simp_all only: v at_buffer_Cons [of ?b "vbytes (n div 128)"])
  show "varint32_loop s (of_nat k) r = (Some x, advance (length (vbytes n)) s)"
    unfolding varint32_loop.simps [of s] parsesD [OF parses_readbyte a(1)] length_single Let_def
      prod.case option.case if_not_P [OF kk] if_P [OF vbyte_cont(1) [OF m]]
      vbyte_cont(2) [OF m] ku k7 v
    using parsesD [OF rest a(2)] kk by simp
qed

lemma varint32_last:
  assumes n: "n < 128" and k: "k < 32"
  shows "parses (\<lambda>s. varint32_loop s (of_nat k) r) (vbytes n)
           (r OR push_bit k (of_nat n), of_nat (k + 7), of_nat n)"
  unfolding parses_def
proof (intro allI impI)
  have v: "vbytes n = [of_nat n]" using n by (subst vbytes.simps) simp
  have ku: "unat (of_nat k :: u8) = k" using k by (simp add: unat_u8_of_nat)
  then have kk: "\<not> 32 \<le> (of_nat k :: u8)" using k by (simp add: word_le_nat_alt)
  have k7: "of_nat k + 7 = (of_nat (k + 7) :: u8)" by simp
  fix s assume "at_buffer (vbytes n) s"
  then have a: "at_buffer [of_nat n] s" by (simp only: v)
  show "varint32_loop s (of_nat k) r =
      (Some (r OR push_bit k (of_nat n), of_nat (k + 7), of_nat n), advance (length (vbytes n)) s)"
    unfolding varint32_loop.simps [of s] parsesD [OF parses_readbyte a] length_single Let_def
      prod.case option.case if_not_P [OF kk] vbyte_last [OF n] ku k7 v
    using kk by simp
qed

lemma and_0x70: "n < 16 \<Longrightarrow> (of_nat n :: u8) AND 0x70 = 0"
proof -
  assume n: "n < 16"
  have "of_nat n = take_bit 4 (of_nat n :: u8)"
    using n by (simp add: take_bit_of_nat take_bit_nat_eq_self)
  moreover have "take_bit 4 w AND 0x70 = 0" for w :: u8
    by (simp add: take_bit_eq_mask and.assoc mask_eq_exp_minus_1)
  ultimately show ?thesis by metis
qed

lemma varint32_loop_vbytes:
  assumes "n * 2 ^ k < 2 ^ 32" "k < 32"
  shows "\<exists>bp lb. parses (\<lambda>s. varint32_loop s (of_nat k) r) (vbytes n) (r OR push_bit k (of_nat n), bp, lb)
           \<and> \<not> (bp = 35 \<and> lb AND 0x70 \<noteq> 0)"
  using assms
proof (induction n arbitrary: k r rule: vbytes.induct)
  case (1 n)
  show ?case
  proof (cases "n < 128")
    case True
    have "lb AND 0x70 = 0" if "of_nat (k + 7) = (35 :: u8)" "lb = of_nat n" for lb :: u8
    proof -
      have "unat (of_nat (k + 7) :: u8) = k + 7"
        using "1.prems"(2) by (intro unat_u8_of_nat) simp
      with that(1) have "k = 28" by simp
      with "1.prems"(1) that(2) show ?thesis by (simp add: and_0x70)
    qed
    with varint32_last [OF True "1.prems"(2), of r] show ?thesis by blast
  next
    case False
    then have "128 * 2 ^ k \<le> n * 2 ^ k" by (intro mult_right_mono) simp_all
    moreover have "2 ^ (k + 7) = 128 * (2 ^ k :: nat)" by (simp add: power_add)
    ultimately have "2 ^ (k + 7) < (2 ^ 32 :: nat)" using "1.prems"(1) by linarith
    then have k: "k + 7 < 32" by (rule power_less_imp_less_exp [rotated]) simp
    have "n div 128 * 2 ^ (k + 7) \<le> n * 2 ^ k" by (simp add: power_add)
    with "1.prems"(1) have "n div 128 * 2 ^ (k + 7) < 2 ^ 32" by linarith
    from "1.IH" [OF False this k, of "r OR push_bit k (of_nat (n mod 128))"] obtain bp lb where
      *: "parses (\<lambda>s. varint32_loop s (of_nat (k + 7)) (r OR push_bit k (of_nat (n mod 128))))
           (vbytes (n div 128)) (r OR push_bit k (of_nat n), bp, lb)"
        "\<not> (bp = 35 \<and> lb AND 0x70 \<noteq> 0)"
      unfolding or.assoc push_of_nat_mod_div7 by blast
    have "128 \<le> n" using False by simp
    from varint32_step [OF this "1.prems"(2) *(1)] *(2) show ?thesis by blast
  qed
qed

lemma eof_of_vbytes:
  assumes "n < 128 \<Longrightarrow> v = of_nat n"
    and "128 \<le> n \<Longrightarrow> parses (\<lambda>s. varint32_loop s 7 (of_nat (n mod 128))) (vbytes (n div 128)) (v, bp, lb)"
    and "128 \<le> n \<Longrightarrow> \<not> (bp = 35 \<and> lb AND 0x70 \<noteq> 0)"
    and "at_buffer (vbytes n) s"
  shows "pb_decode_varint32_eof s = (Some v, False, advance (length (vbytes n)) s)"
proof (cases "n < 128")
  case True
  have v: "vbytes n = [of_nat n]" using True by (subst vbytes.simps) simp
  with assms(4) have a: "at_buffer [of_nat n] s" by simp
  have "ucast (of_nat n :: u8) = (of_nat n :: u32)"
    using True by (subst ucast_eq_of_nat) (simp add: unat_u8_of_nat)
  then show ?thesis
    unfolding pb_decode_varint32_eof_def parsesD [OF parses_readbyte a] prod.case option.case v
      if_P [OF vbyte_last(1) [OF True]]
    using assms(1) [OF True] by simp
next
  case False
  let ?b = "of_nat (n mod 128 + 128) :: u8"
  have n: "128 \<le> n" using False by simp
  have v: "vbytes n = ?b # vbytes (n div 128)" using n by (subst vbytes.simps) simp
  have m: "n mod 128 < 128" by simp
  have a: "at_buffer [?b] s" "at_buffer (vbytes (n div 128)) (advance 1 s)"
    using assms(4) by (simp_all only: v at_buffer_Cons [of ?b "vbytes (n div 128)"])
  show ?thesis
    unfolding pb_decode_varint32_eof_def parsesD [OF parses_readbyte a(1)] length_single prod.case
      option.case v if_not_P [OF vbyte_cont(1) [OF m]] vbyte_cont(2) [OF m]
      parsesD [OF assms(2) [OF n] a(2)] if_not_P [OF assms(3) [OF n]]
    by simp
qed

lemma varint32_eof_vbytes:
  assumes "at_buffer (vbytes (unat (v :: u32))) s"
  shows "pb_decode_varint32_eof s = (Some v, False, advance (length (vbytes (unat v))) s)"
proof -
  let ?n = "unat v"
  have "?n < 2 ^ 32" using unsigned_less [of v, where ?'a = nat] by simp
  then have "?n div 128 * 2 ^ 7 < 2 ^ 32" by simp
  from varint32_loop_vbytes [OF this, of "of_nat (?n mod 128)"] obtain bp lb where
    *: "parses (\<lambda>s. varint32_loop s 7 (of_nat (?n mod 128))) (vbytes (?n div 128))
          (of_nat (?n mod 128) OR push_bit 7 (of_nat (?n div 128)), bp, lb)"
      "\<not> (bp = 35 \<and> lb AND 0x70 \<noteq> 0)" by auto
  have v: "of_nat (?n mod 128) OR push_bit 7 (of_nat (?n div 128)) = v"
    by (subst of_nat_mod_div7 [symmetric]) simp
  show ?thesis
    by (rule eof_of_vbytes [OF _ *(1) [unfolded v] *(2) assms]) simp
qed

lemma parses_varint32: "parses pb_decode_varint32 (vbytes (unat v)) v"
  by (simp add: parses_def pb_decode_varint32_def varint32_eof_vbytes)

text \<open>
  A negative \<open>int32\<close> arrives as the ten bytes of its 64-bit sign extension; the reader checks
  the five excess bytes against the sign and drops them.
\<close>

lemma varint32_sign_step:
  assumes "at_buffer [0xFF] s" "32 \<le> k" "k < 63" "drop_bit 31 r \<noteq> 0"
  shows "varint32_loop s k r = varint32_loop (advance 1 s) (k + 7) r"
  unfolding varint32_loop.simps [of s] parsesD [OF parses_readbyte assms(1)] length_single Let_def
    prod.case option.case
  using assms(2-4) by simp

lemma varint32_sign_last:
  assumes "at_buffer [1] s" "drop_bit 31 r \<noteq> 0"
  shows "varint32_loop s 63 r = (Some (r, 70, 1), advance 1 s)"
  unfolding varint32_loop.simps [of s] parsesD [OF parses_readbyte assms(1)] length_single Let_def
    prod.case option.case
  using assms(2) by simp

lemma vbytes_sign: "vbytes (2 ^ 29 - 1) = [0xFF, 0xFF, 0xFF, 0xFF, 1]"
  by (simp add: vbytes.simps)

lemma varint32_sign_tail:
  assumes "drop_bit 31 r \<noteq> 0"
  shows "parses (\<lambda>s. varint32_loop s (of_nat 35) r) (vbytes (2 ^ 29 - 1)) (r, 70, 1)"
  unfolding parses_def vbytes_sign
proof (intro allI impI)
  fix s assume "at_buffer [0xFF, 0xFF, 0xFF, 0xFF, 1] s"
  then have a: "at_buffer [0xFF] s" "at_buffer [0xFF] (advance 1 s)" "at_buffer [0xFF] (advance 2 s)"
      "at_buffer [0xFF] (advance 3 s)" "at_buffer [1] (advance 4 s)"
    using at_buffer_Cons [of "0xFF" "[0xFF, 0xFF, 0xFF, 1]" s]
      at_buffer_Cons [of "0xFF" "[0xFF, 0xFF, 1]" "advance 1 s"]
      at_buffer_Cons [of "0xFF" "[0xFF, 1]" "advance 2 s"]
      at_buffer_Cons [of "0xFF" "[1]" "advance 3 s"]
    by (simp_all flip: numeral_2_eq_2)
  have l: "length [0xFF :: u8, 0xFF, 0xFF, 0xFF, 1] = 5" by simp
  show "varint32_loop s (of_nat 35) r =
      (Some (r, 70, 1), advance (length [0xFF :: u8, 0xFF, 0xFF, 0xFF, 1]) s)"
    unfolding l
    by (simp add: varint32_sign_step [OF a(1)] varint32_sign_step [OF a(2)]
        varint32_sign_step [OF a(3)] varint32_sign_step [OF a(4)] varint32_sign_last [OF a(5)] assms
        del: One_nat_def)
qed

lemma parses_varint32_negative:
  assumes "drop_bit 31 v \<noteq> (0 :: u32)"
  shows "parses pb_decode_varint32 (vbytes (2 ^ 64 - 2 ^ 32 + unat v)) v"
proof -
  define n where "n = 2 ^ 64 - 2 ^ 32 + unat v"
  define q where "q i = n div 128 ^ i" for i
  define a where "a i = (of_nat (q i mod 128) :: u32)" for i
  let ?r = "a 0 OR push_bit 7 (a 1) OR push_bit 14 (a 2) OR push_bit 21 (a 3) OR push_bit 28 (a 4)"
  have lo: "2 ^ 31 \<le> unat v"
  proof (rule ccontr)
    assume "\<not> 2 ^ 31 \<le> unat v"
    then have "unat (drop_bit 31 v) = 0"
      by (simp only: unat_drop_bit_eq drop_bit_eq_div) (simp add: unat_div)
    with assms show False by (simp only: unsigned_eq_0_iff)
  qed
  have hi: "unat v < 2 ^ 32" using unsigned_less [of v, where ?'a = nat] by simp
  have qs: "q i div 128 = q (Suc i)" for i
    by (simp only: q_def power_Suc2 div_mult2_eq)
  have q0: "q 0 = n" and q5: "q 5 = 2 ^ 29 - 1"
    using lo hi unfolding q_def n_def by (simp, intro div_nat_eqI) simp_all
  have big: "128 \<le> q i" if "i \<le> 5" for i
    using that q5 
  proof (induction "5 - i" arbitrary: i)
    case (Suc k)
    then have "128 \<le> q (Suc i)" by auto
    then show ?case using qs [of i] by linarith
  qed simp
  have "(of_nat n :: u32) = ?r OR push_bit 35 (of_nat (q 5))"
  proof -
    have e: "push_bit k (of_nat (q i)) = push_bit k (a i) OR push_bit (k + 7) (of_nat (q (Suc i)) :: u32)"
      for k i by (simp only: a_def push_of_nat_mod_div7 flip: qs)
    have "(of_nat n :: u32) = push_bit 0 (of_nat (q 0))" by (simp only: q0 push_bit_0_id id_apply)
    also note e [of 0 0]
    also note e [of "0 + 7" "Suc 0"]
    also note e [of "0 + 7 + 7" "Suc (Suc 0)"]
    also note e [of "0 + 7 + 7 + 7" "Suc (Suc (Suc 0))"]
    also note e [of "0 + 7 + 7 + 7 + 7" "Suc (Suc (Suc (Suc 0)))"]
    finally show ?thesis by (simp add: numeral_eq_Suc or.assoc)
  qed
  moreover have "(of_nat n :: u32) = v" by (simp add: n_def)
  moreover have "push_bit 35 x = 0" for x :: u32 by (rule bit_word_eqI) (simp add: bit_simps)
  ultimately have r: "?r = v" by simp
  have "parses (\<lambda>s. varint32_loop s (of_nat (28 + 7)) v) (vbytes (q 4 div 128)) (v, 70, 1)"
    using varint32_sign_tail [OF assms] qs [of 4] q5 by simp
  then have "parses (\<lambda>s. varint32_loop s (of_nat (28 + 7))
      ((((a 0 OR push_bit 7 (a 1)) OR push_bit 14 (a 2)) OR push_bit 21 (a 3)) OR push_bit 28 (a 4)))
      (vbytes (q 4 div 128)) (v, 70, 1)"
    unfolding or.assoc r .
  from varint32_step [OF big _ this [unfolded a_def [of 4]]]
  have "parses (\<lambda>s. varint32_loop s (of_nat (21 + 7))
      (((a 0 OR push_bit 7 (a 1)) OR push_bit 14 (a 2)) OR push_bit 21 (a 3)))
      (vbytes (q 3 div 128)) (v, 70, 1)"
    by (simp add: qs)
  from varint32_step [OF big _ this [unfolded a_def [of 3]]]
  have "parses (\<lambda>s. varint32_loop s (of_nat (14 + 7)) ((a 0 OR push_bit 7 (a 1)) OR push_bit 14 (a 2)))
      (vbytes (q 2 div 128)) (v, 70, 1)"
    by (simp add: qs)
  from varint32_step [OF big _ this [unfolded a_def [of 2]]]
  have "parses (\<lambda>s. varint32_loop s (of_nat (7 + 7)) (a 0 OR push_bit 7 (a 1)))
      (vbytes (q 1 div 128)) (v, 70, 1)"
    by (simp add: qs flip: numeral_2_eq_2)
  from varint32_step [OF big _ this [unfolded a_def [of 1]]]
  have "parses (\<lambda>s. varint32_loop s 7 (of_nat (n mod 128))) (vbytes (n div 128)) (v, 70, 1)"
    using qs [of 0] by (simp add: a_def q0)
  then show ?thesis
    unfolding n_def [symmetric]
    using big [of 0] eof_of_vbytes [of n v 70 1]
    by (auto simp: parses_def pb_decode_varint32_def q0)
qed

subsection \<open>Zig-zag and fixed-width values\<close>

lemma drop_push_bit:
  "(\<And>n. LENGTH('a) - k \<le> n \<Longrightarrow> n < LENGTH('a) \<Longrightarrow> \<not> bit v n) \<Longrightarrow>
     drop_bit k (push_bit k v) = (v :: 'a::len word)"
  by (intro bit_word_eqI, rename_tac n, case_tac "k + n < LENGTH('a)") (auto simp: bit_simps)

lemma drop_not_push_bit:
  "(\<And>n. LENGTH('a) - k \<le> n \<Longrightarrow> n < LENGTH('a) \<Longrightarrow> bit v n) \<Longrightarrow>
     NOT (drop_bit k (NOT (push_bit k v))) = (v :: 'a::len word)"
  by (intro bit_word_eqI, rename_tac n, case_tac "k + n < LENGTH('a)") (auto simp: bit_simps)

lemma unzigzag_zigzag:
  "(if zigzag v AND 1 \<noteq> 0 then NOT (drop_bit 1 (zigzag v)) else drop_bit 1 (zigzag v)) = v"
proof -
  have s: "sint v < 0 \<longleftrightarrow> bit v 63" using bit_last_iff [of v] by simp
  have o: "w AND 1 \<noteq> 0 \<longleftrightarrow> bit w 0" for w :: u64
    by (simp add: and_one_eq odd_iff_mod_2_eq_one bit_0)
  show ?thesis
  proof (cases "bit v 63")
    case True
    then have z: "zigzag v = NOT (push_bit 1 v)" by (simp add: zigzag_def s)
    have "bit (zigzag v) 0" unfolding z by (simp only: bit_simps) simp
    moreover have "NOT (drop_bit 1 (zigzag v)) = v"
      unfolding z
    proof (rule drop_not_push_bit)
      fix n assume "LENGTH(64) - 1 \<le> n" "n < LENGTH(64)"
      then have "n = 63" by simp
      then show "bit v n" using True by simp
    qed
    ultimately show ?thesis by (simp only: o if_True)
  next
    case False
    then have z: "zigzag v = push_bit 1 v" by (simp add: zigzag_def s)
    have "\<not> bit (zigzag v) 0" unfolding z by (simp only: bit_simps) simp
    moreover have "drop_bit 1 (zigzag v) = v"
      unfolding z
    proof (rule drop_push_bit)
      fix n assume "LENGTH(64) - 1 \<le> n" "n < LENGTH(64)"
      then have "n = 63" by simp
      then show "\<not> bit v n" using False by simp
    qed
    ultimately show ?thesis by (simp only: o if_False)
  qed
qed

lemma parses_map:
  assumes "parses f bs x" "\<And>s s1. f s = (Some x, s1) \<Longrightarrow> g s = (Some y, s1)"
  shows "parses g bs y"
  using assms by (simp add: parses_def)

lemma parses_svarint: "parses pb_decode_svarint (vbytes (unat (zigzag v))) v"
  by (rule parses_map [OF parses_varint [of "zigzag v"]])
     (simp only: pb_decode_svarint_def prod.case option.case unzigzag_zigzag)

lemma length_4_conv: "length bs = 4 \<longleftrightarrow> (\<exists>a b c d. bs = [a, b, c, d])"
  by (auto simp: numeral_eq_Suc length_Suc_conv)

lemma length_8_conv: "length bs = 8 \<longleftrightarrow> (\<exists>a b c d e f g h. bs = [a, b, c, d, e, f, g, h])"
  by (auto simp: numeral_eq_Suc length_Suc_conv)

lemma parses_fixed32:
  assumes "length bs = 4"
  shows "parses pb_decode_fixed32 bs (le_val bs)"
proof (rule parses_map [of "\<lambda>s. pb_read s 4" bs bs])
  show "parses (\<lambda>s. pb_read s 4) bs bs" using parses_read [of bs] assms by simp
next
  fix s s1 assume "pb_read s 4 = (Some bs, s1)"
  moreover obtain a b c d where "bs = [a, b, c, d]" using assms by (auto simp: length_4_conv)
  moreover have "ucast a OR (push_bit 8 (ucast b OR push_bit 8 (ucast c OR push_bit 8 (ucast d)))) =
      (push_bit 0 (ucast a) OR push_bit 8 (ucast b) OR push_bit 16 (ucast c) OR push_bit 24 (ucast d) :: u32)"
    by (simp only: push_bit_or push_bit_push_bit push_bit_0_id id_apply) simp
  ultimately show "pb_decode_fixed32 s = (Some (le_val bs), s1)"
    by (simp add: pb_decode_fixed32_def)
qed

lemma parses_fixed64:
  assumes "length bs = 8"
  shows "parses pb_decode_fixed64 bs (le_val bs)"
proof (rule parses_map [of "\<lambda>s. pb_read s 8" bs bs])
  show "parses (\<lambda>s. pb_read s 8) bs bs" using parses_read [of bs] assms by simp
next
  fix s s1 assume "pb_read s 8 = (Some bs, s1)"
  moreover obtain a b c d e f g h where "bs = [a, b, c, d, e, f, g, h]"
    using assms by (auto simp: length_8_conv)
  moreover have "ucast a OR push_bit 8 (ucast b OR push_bit 8 (ucast c OR push_bit 8 (ucast d OR
      push_bit 8 (ucast e OR push_bit 8 (ucast f OR push_bit 8 (ucast g OR push_bit 8 (ucast h))))))) =
      (push_bit 0 (ucast a) OR push_bit 8 (ucast b) OR push_bit 16 (ucast c) OR push_bit 24 (ucast d) OR
       push_bit 32 (ucast e) OR push_bit 40 (ucast f) OR push_bit 48 (ucast g) OR push_bit 56 (ucast h) :: u64)"
    by (simp only: push_bit_or push_bit_push_bit push_bit_0_id id_apply) simp
  ultimately show "pb_decode_fixed64 s = (Some (le_val bs), s1)"
    by (simp add: pb_decode_fixed64_def)
qed

subsection \<open>Tags and skipping\<close>

lemma decode_tag_wire:
  assumes wt: "unat wt < 8" and t: "unat t < 2 ^ 29" and nz: "8 * unat t + unat wt \<noteq> 0"
    and at: "at_buffer (vbytes (8 * unat t + unat wt)) s"
  shows "pb_decode_tag s = (True, wt, t, False, advance (length (vbytes (8 * unat t + unat wt))) s)"
proof -
  define n where "n = 8 * unat t + unat wt"
  have "n < 2 ^ 32" using wt t by (simp add: n_def)
  then have u: "unat (of_nat n :: u32) = n" by (simp add: unat_of_nat)
  have a: "at_buffer (vbytes (unat (of_nat n :: u32))) s" by (subst u) (rule at [folded n_def])
  have "(of_nat n :: u32) \<noteq> 0" using nz u by (metis n_def unat_0)
  moreover have "(of_nat n :: u32) AND 7 = wt"
  proof -
    have "(of_nat n :: u32) AND 7 = take_bit 3 (of_nat n)"
      by (simp add: take_bit_eq_mask mask_eq_exp_minus_1)
    moreover have "unat (take_bit 3 (of_nat n :: u32)) = take_bit 3 (unat (of_nat n :: u32))"
      by (rule unsigned_take_bit_eq)
    moreover have "take_bit 3 (unat (of_nat n :: u32)) = unat wt"
      unfolding u take_bit_eq_mod using wt by (simp add: n_def)
    ultimately show ?thesis by (simp only: word_unat_eq_iff)
  qed
  moreover have "drop_bit 3 (of_nat n :: u32) = t"
  proof -
    have "unat (drop_bit 3 (of_nat n :: u32)) = drop_bit 3 (unat (of_nat n :: u32))"
      by (rule unat_drop_bit_eq)
    also have "\<dots> = unat t"
      unfolding u drop_bit_eq_div using wt by (simp add: n_def)
    finally show ?thesis by (simp only: word_unat_eq_iff)
  qed
  ultimately show ?thesis
    unfolding pb_decode_tag_def varint32_eof_vbytes [OF a] prod.case option.case u
    unfolding n_def [symmetric] by simp
qed

lemma consumes_skip_varint: "consumes pb_skip_varint (vbytes n)"
proof (induction n rule: vbytes.induct)
  case (1 n)
  have rd: "pb_read s 1 = (Some [b], advance 1 s)" if "at_buffer [b] s" for b s
    using parsesD [OF parses_read [of "[b]"] that] by simp
  show ?case
  proof (cases "n < 128")
    case True
    then have v: "vbytes n = [of_nat n]" by (subst vbytes.simps) simp
    show ?thesis
      unfolding consumes_def v
      by (subst pb_skip_varint.simps) (simp add: rd vbyte_last(1) [OF True])
  next
    case False
    let ?b = "of_nat (n mod 128 + 128) :: u8"
    have v: "vbytes n = ?b # vbytes (n div 128)" using False by (subst vbytes.simps) simp
    have m: "n mod 128 < 128" by simp
    show ?thesis
      unfolding consumes_def v
    proof (intro allI impI)
      fix s assume "at_buffer (?b # vbytes (n div 128)) s"
      then have a: "at_buffer [?b] s" "at_buffer (vbytes (n div 128)) (advance 1 s)"
        by (simp_all only: at_buffer_Cons [of ?b "vbytes (n div 128)"])
      show "pb_skip_varint s = (True, advance (length (?b # vbytes (n div 128))) s)"
        unfolding pb_skip_varint.simps [of s] rd [OF a(1)] prod.case option.case list.sel
          if_P [OF vbyte_cont(1) [OF m]]
        using consumesD [OF "1.IH" [OF False] a(2)] by simp
    qed
  qed
qed

lemma consumes_skip_string:
  assumes "length bs < 2 ^ 32"
  shows "consumes pb_skip_string (vbytes (length bs) @ bs)"
  unfolding consumes_def at_buffer_append
proof (intro allI impI; elim conjE)
  fix s assume a: "at_buffer (vbytes (length bs)) s"
    "at_buffer bs (advance (length (vbytes (length bs))) s)"
  have u: "unat (of_nat (length bs) :: u32) = length bs" using assms by (simp add: unat_of_nat)
  have c: "ucast (of_nat (length bs) :: u32) = (of_nat (length bs) :: u64)"
    by (subst ucast_eq_of_nat) (simp only: u)
  have l: "length bs < 2 ^ 64" using assms by simp
  show "pb_skip_string s = (True, advance (length (vbytes (length bs) @ bs)) s)"
    using parsesD [OF parses_varint32 [of "of_nat (length bs)"]] a(1)
      consumesD [OF consumes_read_null [OF l] a(2)]
    by (simp add: pb_skip_string_def u c)
qed

lemma consumes_skip_fixed:
  "length bs = 8 \<Longrightarrow> consumes (\<lambda>s. pb_skip_field s PB_WT_64BIT) bs"
  "length bs = 4 \<Longrightarrow> consumes (\<lambda>s. pb_skip_field s PB_WT_32BIT) bs"
  using consumes_read_null [of bs] by (simp_all add: pb_skip_field_def wt_defs)

lemma consumes_skip_field_varint: "consumes (\<lambda>s. pb_skip_field s PB_WT_VARINT) (vbytes n)"
  using consumes_skip_varint [of n] by (simp add: pb_skip_field_def wt_defs)

lemma consumes_skip_field_string:
  "length bs < 2 ^ 32 \<Longrightarrow> consumes (\<lambda>s. pb_skip_field s PB_WT_STRING) (vbytes (length bs) @ bs)"
  using consumes_skip_string [of bs] by (simp add: pb_skip_field_def wt_defs)

subsection \<open>Readers never give bytes back\<close>

text \<open>
  \<open>shrinks f\<close>: whatever the stream, \<open>bytes_left\<close> does not grow, and it falls when \<open>f\<close>
  succeeds. This is what makes the loops over the input end.
\<close>

definition shrinks :: "(pb_istream \<Rightarrow> 'a option \<times> pb_istream) \<Rightarrow> bool" where
  "shrinks f \<longleftrightarrow>
     (\<forall>s r s1. f s = (r, s1) \<longrightarrow>
        bytes_left s1 \<le> bytes_left s \<and> (r \<noteq> None \<longrightarrow> bytes_left s1 < bytes_left s))"

lemma shrinksD:
  "shrinks f \<Longrightarrow> f s = (r, s1) \<Longrightarrow> bytes_left s1 \<le> bytes_left s"
  "shrinks f \<Longrightarrow> f s = (Some x, s1) \<Longrightarrow> bytes_left s1 < bytes_left s"
  by (force simp: shrinks_def)+

lemma callback_le: "istream_callback s count = (r, s1) \<Longrightarrow> bytes_left s1 \<le> bytes_left s"
  by (auto simp: istream_callback_def split: icallback.splits read_result.splits)

lemma read_le:
  assumes "pb_read s n = (r, s1)"
  shows "bytes_left s1 \<le> bytes_left s"
proof (cases "bytes_left s < n")
  case True
  then show ?thesis using assms by (auto simp: pb_read_def)
next
  case False
  then have n: "n \<le> bytes_left s" by simp
  show ?thesis
  proof (cases "istream_callback s n")
    case (Pair q s2)
    then show ?thesis
      using assms False callback_le [OF Pair]
        istream_callback_bytes_left [of s n _ s2] word_sub_le [OF n]
      by (cases q) (auto simp: pb_read_def)
  qed
qed

lemma read_less:
  assumes "pb_read s n = (Some bs, s1)" "0 < n"
  shows "bytes_left s1 < bytes_left s"
proof -
  obtain f s2 where le: "n \<le> bytes_left s" and cb: "istream_callback s n = (Some f, s2)"
    and s1: "s1 = s2\<lparr>bytes_left := bytes_left s2 - n\<rparr>"
    using assms(1) by (auto simp: pb_read_def split: if_splits prod.splits option.splits)
  from istream_callback_bytes_left [OF cb] have "bytes_left s1 = bytes_left s - n"
    by (simp add: s1)
  moreover have "unat (bytes_left s - n) = unat (bytes_left s) - unat n"
    using le by (simp add: unat_sub)
  ultimately show ?thesis
    using assms(2) le by (simp add: word_less_nat_alt word_le_nat_alt)
qed

lemma shrinks_readbyte: "shrinks pb_readbyte"
  unfolding shrinks_def
proof (intro allI impI)
  fix s r s1 assume r: "pb_readbyte s = (r, s1)"
  show "bytes_left s1 \<le> bytes_left s \<and> (r \<noteq> None \<longrightarrow> bytes_left s1 < bytes_left s)"
  proof (cases r)
    case None
    with r show ?thesis
      using callback_le [of s 1] by (auto simp: pb_readbyte_def split: if_splits prod.splits option.splits)
  next
    case (Some b)
    with r pb_readbyte_decreases [of s b s1] show ?thesis
      by (simp add: word_less_nat_alt order.strict_implies_order)
  qed
qed

lemma varint32_loop_le:
  "varint32_loop s k v = (r, s1) \<Longrightarrow> bytes_left s1 \<le> bytes_left s"
proof (induction s k v arbitrary: r s1 rule: varint32_loop.induct)
  case (1 s k v)
  show ?case
  proof (cases "pb_readbyte s")
    case (Pair q s2)
    note le = shrinksD(1) [OF shrinks_readbyte Pair]
    show ?thesis
    proof (cases q)
      case None
      with "1.prems" Pair le show ?thesis by (subst (asm) varint32_loop.simps) simp
    next
      case (Some b)
      with "1.prems" Pair "1.IH" [OF Pair [symmetric] Some refl refl] le show ?thesis
        by (subst (asm) varint32_loop.simps)
           (fastforce simp: Let_def split: if_splits intro: order_trans)
    qed
  qed
qed

lemma varint_dec_loop_le:
  "varint_dec_loop s k v = (r, s1) \<Longrightarrow>
     bytes_left s1 \<le> bytes_left s \<and> (r \<noteq> None \<longrightarrow> bytes_left s1 < bytes_left s)"
proof (induction s k v arbitrary: r s1 rule: varint_dec_loop.induct)
  case (1 s k v)
  show ?case
  proof (cases "64 \<le> k")
    case True
    with "1.prems" show ?thesis by (subst (asm) varint_dec_loop.simps) auto
  next
    case False
    show ?thesis
    proof (cases "pb_readbyte s")
      case (Pair q s2)
      show ?thesis
      proof (cases q)
        case None
        with "1.prems" Pair False shrinksD(1) [OF shrinks_readbyte Pair] show ?thesis
          by (subst (asm) varint_dec_loop.simps) auto
      next
        case (Some b)
        then have less: "bytes_left s2 < bytes_left s"
          using shrinksD(2) [OF shrinks_readbyte] Pair by blast
        with "1.prems" Pair False Some "1.IH" [OF False Pair [symmetric] Some refl] show ?thesis
          by (subst (asm) varint_dec_loop.simps) (fastforce simp: Let_def split: if_splits)
      qed
    qed
  qed
qed

lemma shrinks_varint: "shrinks pb_decode_varint"
  using varint_dec_loop_le by (simp add: shrinks_def pb_decode_varint_def)

lemma varint32_eof_shrinks:
  assumes "pb_decode_varint32_eof s = (r, eof, s1)"
  shows "bytes_left s1 \<le> bytes_left s \<and> (r \<noteq> None \<longrightarrow> bytes_left s1 < bytes_left s)"
proof (cases "pb_readbyte s")
  case (Pair q s2)
  show ?thesis
  proof (cases q)
    case None
    with assms Pair shrinksD(1) [OF shrinks_readbyte Pair] show ?thesis
      by (simp add: pb_decode_varint32_eof_def)
  next
    case (Some b)
    then have less: "bytes_left s2 < bytes_left s"
      using shrinksD(2) [OF shrinks_readbyte] Pair by blast
    obtain l s3 where l: "varint32_loop s2 7 (ucast (b AND 0x7F)) = (l, s3)" by fastforce
    have "bytes_left s3 < bytes_left s" using varint32_loop_le [OF l] less by simp
    with assms Pair Some less l show ?thesis
      by (auto simp: pb_decode_varint32_eof_def split: if_splits option.splits)
  qed
qed

lemma shrinks_varint32: "shrinks pb_decode_varint32"
  using varint32_eof_shrinks
  by (fastforce simp: shrinks_def pb_decode_varint32_def split: prod.splits)

lemma decode_tag_shrinks:
  "pb_decode_tag s = (ok, wt, t, eof, s1) \<Longrightarrow>
     bytes_left s1 \<le> bytes_left s \<and> (ok \<longrightarrow> bytes_left s1 < bytes_left s)"
  using varint32_eof_shrinks [of s]
  by (auto simp: pb_decode_tag_def split: prod.splits option.splits if_splits)

lemma shrinks_svarint: "shrinks pb_decode_svarint"
  using shrinks_varint by (auto simp: shrinks_def pb_decode_svarint_def split: prod.splits option.splits)

lemma shrinks_fixed32: "shrinks pb_decode_fixed32"
  using read_le [of _ 4] read_less [of _ 4]
  by (auto simp: shrinks_def pb_decode_fixed32_def split: prod.splits option.splits)

lemma shrinks_fixed64: "shrinks pb_decode_fixed64"
  using read_le [of _ 8] read_less [of _ 8]
  by (auto simp: shrinks_def pb_decode_fixed64_def split: prod.splits option.splits)

lemma skip_loop_le: "skip_loop s n = (ok, s1) \<Longrightarrow> bytes_left s1 \<le> bytes_left s"
proof (induction s n arbitrary: ok s1 rule: skip_loop.induct)
  case (1 s n)
  show ?case
  proof (cases "16 < n")
    case True
    show ?thesis
    proof (cases "pb_read s 16")
      case (Pair q s2)
      with "1.prems" True "1.IH" [OF True Pair [symmetric]] read_le [OF Pair] show ?thesis
        by (subst (asm) skip_loop.simps) (fastforce split: option.splits intro: order_trans)
    qed
  next
    case False
    with "1.prems" read_le show ?thesis
      by (subst (asm) skip_loop.simps) (auto split: prod.splits)
  qed
qed

lemma read_null_le: "pb_read_null s n = (ok, s1) \<Longrightarrow> bytes_left s1 \<le> bytes_left s"
  using skip_loop_le read_le
  by (fastforce simp: pb_read_null_def split: icallback.splits prod.splits)

lemma skip_varint_le: "pb_skip_varint s = (ok, s1) \<Longrightarrow> bytes_left s1 \<le> bytes_left s"
proof (induction s arbitrary: ok s1 rule: pb_skip_varint.induct)
  case (1 s)
  show ?case
  proof (cases "pb_read s 1")
    case (Pair q s2)
    show ?thesis
    proof (cases q)
      case None
      with "1.prems" Pair read_le [OF Pair] show ?thesis by (subst (asm) pb_skip_varint.simps) simp
    next
      case (Some b)
      with "1.prems" Pair "1.IH" [OF Pair [symmetric] Some] read_le [OF Pair] show ?thesis
        by (subst (asm) pb_skip_varint.simps) (fastforce split: if_splits intro: order_trans)
    qed
  qed
qed

lemma skip_field_le: "pb_skip_field s wt = (ok, s1) \<Longrightarrow> bytes_left s1 \<le> bytes_left s"
proof -
  have "pb_skip_string s = (ok, s1) \<Longrightarrow> bytes_left s1 \<le> bytes_left s"
    using shrinksD [OF shrinks_varint32] read_null_le
    by (fastforce simp: pb_skip_string_def split: prod.splits option.splits intro: order_trans)
  then show "pb_skip_field s wt = (ok, s1) \<Longrightarrow> bytes_left s1 \<le> bytes_left s"
    using skip_varint_le read_null_le by (auto simp: pb_skip_field_def split: if_splits)
qed

text \<open>
  A length-limited substream never exceeds what is left of its parent, and the parent is
  charged for all of it at once, so closing the substream leaves the parent's count alone.
\<close>

lemma make_substream:
  assumes "pb_make_string_substream s = (r, s1)"
  shows "bytes_left s1 \<le> bytes_left s"
    and "r = Some sub \<Longrightarrow> bytes_left s1 < bytes_left s"
    and "r = Some sub \<Longrightarrow> bytes_left sub < bytes_left s"
    and "r = Some sub \<Longrightarrow> icallback sub = icallback s1 \<and> istate sub = istate s1"
proof -
  obtain q s2 where q: "pb_decode_varint32 s = (q, s2)" by fastforce
  note le = shrinksD(1) [OF shrinks_varint32 q]
  have sub_le: "\<not> bytes_left s2 < w \<Longrightarrow> bytes_left s2 - w \<le> bytes_left s" for w
    using order_trans [OF word_sub_le [of w "bytes_left s2"] le] by simp
  show "bytes_left s1 \<le> bytes_left s"
    using assms q le sub_le
    by (auto simp: pb_make_string_substream_def split: option.splits if_splits)
  assume r: "r = Some sub"
  then obtain n where n: "q = Some n" "\<not> bytes_left s2 < ucast n"
    and sub: "sub = s2\<lparr>bytes_left := ucast n\<rparr>" and s1: "s1 = s2\<lparr>bytes_left := bytes_left s2 - ucast n\<rparr>"
    using assms q by (auto simp: pb_make_string_substream_def split: option.splits if_splits)
  have less: "bytes_left s2 < bytes_left s" using shrinksD(2) [OF shrinks_varint32] q n(1) by blast
  have "bytes_left s2 - ucast n \<le> bytes_left s2" using n(2) by (intro word_sub_le) simp
  with less show "bytes_left s1 < bytes_left s" by (simp add: s1)
  show "bytes_left sub < bytes_left s" using n(2) less by (simp add: sub)
  show "icallback sub = icallback s1 \<and> istate sub = istate s1" by (simp add: sub s1)
qed

lemma close_substream_left:
  "pb_close_string_substream s sub = (ok, s1) \<Longrightarrow> bytes_left s1 = bytes_left s"
  by (auto simp: pb_close_string_substream_def Let_def split: prod.splits if_splits)

lemma parses_make_substream:
  assumes "at_buffer (vbytes (length bs)) s" "at_buffer bs (advance (length (vbytes (length bs))) s)"
    and "length bs < 2 ^ 32"
  defines "s1 \<equiv> advance (length (vbytes (length bs))) s"
  shows "pb_make_string_substream s =
           (Some (s1\<lparr>bytes_left := of_nat (length bs)\<rparr>),
            s1\<lparr>bytes_left := bytes_left s1 - of_nat (length bs)\<rparr>)"
proof -
  have u: "unat (of_nat (length bs) :: u32) = length bs" using assms(3) by (simp add: unat_of_nat)
  have c: "ucast (of_nat (length bs) :: u32) = (of_nat (length bs) :: u64)"
    by (subst ucast_eq_of_nat) (simp only: u)
  have "\<not> bytes_left s1 < of_nat (length bs)"
    using assms(2,3) by (simp add: at_buffer_def s1_def word_less_nat_alt unat_of_nat)
  then show ?thesis
    using parsesD [OF parses_varint32 [of "of_nat (length bs)"]] assms(1)
    by (simp add: pb_make_string_substream_def u c s1_def)
qed

subsection \<open>A whole buffer\<close>

lemma at_buffer_istream:
  "length bs < 2 ^ 64 \<Longrightarrow> at_buffer bs (pb_istream_from_buffer bs (of_nat (length bs)))"
  by (simp add: at_buffer_def pb_istream_from_buffer_def unat_of_nat)

lemma advance_istream:
  "bytes_left (advance (length bs) (pb_istream_from_buffer bs (of_nat (length bs)))) = 0"
  by (simp add: advance_def pb_istream_from_buffer_def)

lemma reads_back:
  "parses f bs x \<Longrightarrow> length bs < 2 ^ 64 \<Longrightarrow>
     \<exists>t. f (pb_istream_from_buffer bs (of_nat (length bs))) = (Some x, t) \<and> bytes_left t = 0"
  by (intro exI conjI, erule parsesD, erule at_buffer_istream, rule advance_istream)

subsection \<open>Sign extension\<close>

lemma negative_top_bit: "sint (v :: u32) < 0 \<Longrightarrow> drop_bit 31 v \<noteq> 0"
proof
  assume "sint v < 0" "drop_bit 31 v = 0"
  moreover from \<open>sint v < 0\<close> have "bit v 31" using bit_last_iff [of v] by simp
  then have "bit (drop_bit 31 v) 0" by (simp only: bit_simps) simp
  ultimately show False by simp
qed

lemma int_wrap_once:
  fixes a :: int
  assumes "0 \<le> a" "a < 2 ^ 32"
  shows "(a - 2 ^ 32) mod 2 ^ 64 = a + (2 ^ 64 - 2 ^ 32)"
proof -
  have p: "(2::int) ^ 32 = 4294967296" "(2::int) ^ 64 = 18446744073709551616" by simp_all
  show ?thesis using assms unfolding p by (intro int_mod_pos_eq [where q = "-1"]) linarith+
qed
lemma unat_scast_negative:
  assumes "sint (v :: u32) < 0"
  shows "unat (scast v :: u64) = 2 ^ 64 - 2 ^ 32 + unat v"
proof -
  have "- (2 ^ 31) \<le> sint v" using sint_ge [of v] by simp
  then have "uint v = sint v + 2 ^ 32"
    using assms mod_add_self2 [of "sint v" "2 ^ 32"] mod_pos_pos_trivial [of "sint v + 2 ^ 32" "2 ^ 32"]
    by (simp add: uint_sint take_bit_eq_mod)
  then have s: "sint v = uint v - 2 ^ 32" by simp
  have u: "uint (scast v :: u64) = (uint v - 2 ^ 32) mod 2 ^ 64"
    unfolding scast_eq uint_word_of_int s by simp
  have "0 \<le> uint v" "uint v < 2 ^ 32" using uint_bounded [of v] by simp_all
  from u [unfolded int_wrap_once [OF this]]
  have "int (unat (scast v :: u64)) = int (2 ^ 64 - 2 ^ 32 + unat v)"
    by (simp add: uint_nat del: of_nat_unat)
  then show ?thesis by (simp only: of_nat_eq_iff)
qed
end
