(* ===== verification/Pb_Decode_Safety.thy ===== *)
theory Pb_Decode_Safety
  imports Pb_Decode Pb_Istream_Lemmas
begin

text \<open>
  Decoding into a message without pointers, callbacks or extensions: for every input,
  stream callback and previous contents of the message, the decoder returns, does not leave
  the defined behaviour of C, writes nothing outside the structure and allocates nothing.
  \<open>static_ok\<close> states what the descriptors have to promise; its first argument bounds the
  nesting, which is then also enough fuel.
\<close>

unbundle bit_operations_syntax

subsection \<open>Writing inside a region\<close>

definition keeps :: "addr set \<Rightarrow> heap \<Rightarrow> heap \<Rightarrow> bool" where
  "keeps A h h' \<longleftrightarrow>
     (\<forall>p. p \<notin> A \<longrightarrow> hmem h' p = hmem h p) \<and> brk h' = brk h \<and> limit h' = limit h \<and>
     blocks h' = blocks h"

definition area :: "addr \<Rightarrow> int \<Rightarrow> addr set" where
  "area a n = {a..<a + n}"

named_theorems keeps_intro \<open>heap changes that stay inside a region\<close>

lemma keeps_refl [simp, keeps_intro]: "keeps A h h"
  by (simp add: keeps_def)

lemma keeps_trans: "keeps A h h1 \<Longrightarrow> keeps A h1 h2 \<Longrightarrow> keeps A h h2"
  by (simp add: keeps_def)

lemma keeps_mono: "keeps A h h' \<Longrightarrow> A \<subseteq> B \<Longrightarrow> keeps B h h'"
  by (auto simp: keeps_def)

lemma area_mono: "c \<le> a \<Longrightarrow> a + n \<le> c + k \<Longrightarrow> area a n \<subseteq> area c k"
  by (auto simp: area_def)

lemma keeps_wr_bytes [keeps_intro]:
  "area a (int (length bs)) \<subseteq> A \<Longrightarrow> keeps A h (upd h (\<lambda>m. wr_bytes m a bs))"
  unfolding keeps_def upd_def by (auto simp: area_def) (metis atLeastLessThan_iff not_le subsetD wr_bytes_other)

lemma keeps_wr16: "area a 2 \<subseteq> A \<Longrightarrow> keeps A h (upd h (\<lambda>m. wr16 m a w))"
  using keeps_wr_bytes [of a "le_bytes 2 w" A h] by (simp add: wr16_def)

lemma keeps_wr32 [keeps_intro]: "area a 4 \<subseteq> A \<Longrightarrow> keeps A h (upd h (\<lambda>m. wr32 m a w))"
  using keeps_wr_bytes [of a "le_bytes 4 w" A h] by (simp add: wr32_def)

lemma keeps_wr64 [keeps_intro]: "area a 8 \<subseteq> A \<Longrightarrow> keeps A h (upd h (\<lambda>m. wr64 m a w))"
  using keeps_wr_bytes [of a "le_bytes 8 w" A h] by (simp add: wr64_def)

lemma keeps_byte [keeps_intro]: "a \<in> A \<Longrightarrow> keeps A h (upd h (\<lambda>m. m(a := b)))"
  by (auto simp: keeps_def upd_def)

lemma keeps_memset0 [keeps_intro]: "area a (int n) \<subseteq> A \<Longrightarrow> keeps A h (memset0 a n h)"
  unfolding memset0_def using keeps_wr_bytes [of a "replicate n 0" A h] by simp

definition action_ok :: "addr set \<Rightarrow> heap \<Rightarrow> heap exec \<Rightarrow> bool" where
  "action_ok A h r \<longleftrightarrow> (\<exists>h'. r = Done h' \<and> keeps A h h')"

text \<open>A decoder step that returns, and one that also consumed something if it succeeded.\<close>

definition safe :: "addr set \<Rightarrow> pb_istream \<Rightarrow> heap \<Rightarrow> dres \<Rightarrow> bool" where
  "safe A s h r \<longleftrightarrow>
     (\<exists>ok s' h'. r = Done (ok, s', h') \<and> bytes_left s' \<le> bytes_left s \<and> keeps A h h')"

definition safe1 :: "addr set \<Rightarrow> pb_istream \<Rightarrow> heap \<Rightarrow> dres \<Rightarrow> bool" where
  "safe1 A s h r \<longleftrightarrow>
     (\<exists>ok s' h'. r = Done (ok, s', h') \<and> bytes_left s' \<le> bytes_left s \<and> keeps A h h' \<and>
        (ok \<longrightarrow> bytes_left s' < bytes_left s))"

lemma safe1_safe: "safe1 A s h r \<Longrightarrow> safe A s h r"
  by (auto simp: safe1_def safe_def)

lemma safe1I [intro?]:
  "bytes_left s' \<le> bytes_left s \<Longrightarrow> keeps A h h' \<Longrightarrow> (ok \<Longrightarrow> bytes_left s' < bytes_left s) \<Longrightarrow>
     safe1 A s h (Done (ok, s', h'))"
  by (simp add: safe1_def)

lemma safe1_less:
  "bytes_left s' < bytes_left s \<Longrightarrow> keeps A h h' \<Longrightarrow> safe1 A s h (Done (ok, s', h'))"
  by (simp add: safe1_def order.strict_implies_order)

lemma safe1_fail: "bytes_left s' \<le> bytes_left s \<Longrightarrow> keeps A h h' \<Longrightarrow> safe1 A s h (fail msg s' h')"
  by (auto simp: safe1_def fail_def)

lemma safe_mono: "safe A s h r \<Longrightarrow> A \<subseteq> B \<Longrightarrow> safe B s h r"
  by (fastforce simp: safe_def intro: keeps_mono)

lemma safe1_mono: "safe1 A s h r \<Longrightarrow> A \<subseteq> B \<Longrightarrow> safe1 B s h r"
  by (fastforce simp: safe1_def intro: keeps_mono)

lemma safe1_step:
  "safe1 A s1 h1 r \<Longrightarrow> bytes_left s1 \<le> bytes_left s \<Longrightarrow> keeps A h h1 \<Longrightarrow> safe1 A s h r"
  by (fastforce simp: safe1_def intro: keeps_trans order_trans)

lemma safe_step:
  "safe A s1 h1 r \<Longrightarrow> bytes_left s1 \<le> bytes_left s \<Longrightarrow> keeps A h h1 \<Longrightarrow> safe A s h r"
  by (fastforce simp: safe_def intro: keeps_trans order_trans)

subsection \<open>Descriptors of static messages\<close>

lemma iter_at_shift:
  "pData (iter_at fs d i) = d + pData (iter_at fs 0 i) \<and>
   pSize (iter_at fs d i) = d + pSize (iter_at fs 0 i)" if "wf_fields fs" "i < length fs"
  using that(2)
proof (induction i)
  case 0
  then show ?case by (simp add: pb_field_iter_begin_def Let_def)
next
  case (Suc i)
  then show ?case by (simp add: iter_at_Suc [OF that(1)] del: iter_at.simps)
qed

definition static_value :: "pb_field \<Rightarrow> bool" where
  "static_value f =
     (let lt = PB_LTYPE (ftype f) in
      (lt = PB_LTYPE_VARINT \<or> lt = PB_LTYPE_UVARINT \<or> lt = PB_LTYPE_SVARINT \<or>
       lt = PB_LTYPE_FIXED32 \<and> 4 \<le> data_size f \<or> lt = PB_LTYPE_FIXED64 \<and> 8 \<le> data_size f \<or>
       lt = PB_LTYPE_BYTES \<or> lt = PB_LTYPE_STRING \<or> lt = PB_LTYPE_FIXED_LENGTH_BYTES) \<and>
      (case ptr f of Ptr_null \<Rightarrow> True | Ptr_default bs \<Rightarrow> unat (data_size f) \<le> length bs
       | Ptr_submsg _ \<Rightarrow> False))"

definition static_place :: "pb_field \<Rightarrow> pb_field_iter \<Rightarrow> int \<Rightarrow> bool" where
  "static_place f it sz =
     (let ht = PB_HTYPE (ftype f) in
      PB_ATYPE (ftype f) = PB_ATYPE_STATIC \<and> 0 \<le> pData it \<and> pData it + prev_field_size f \<le> sz \<and>
      (if ht = PB_HTYPE_REQUIRED then True
       else if ht = PB_HTYPE_OPTIONAL
       then pSize it = pData it \<or> 0 \<le> pSize it \<and> pSize it + 1 \<le> sz
       else pSize it \<noteq> pData it \<and> 0 \<le> pSize it \<and> pSize it + 4 \<le> sz) \<and>
      (ht = PB_HTYPE_REPEATED \<longrightarrow> uint (data_size f) * uint (array_size f) < 2 ^ 32))"

fun static_ok :: "nat \<Rightarrow> pb_env \<Rightarrow> pb_field list \<Rightarrow> int \<Rightarrow> bool" where
  "static_ok 0 E fs sz = False"
| "static_ok (Suc n) E fs sz =
     (wf_fields fs \<and> fs \<noteq> [] \<and>
      (\<forall>i < length fs. static_place (fs ! i) (iter_at fs 0 i) sz \<and>
         (static_value (fs ! i) \<or>
          PB_LTYPE (ftype (fs ! i)) = PB_LTYPE_SUBMESSAGE \<and>
          (case ptr (fs ! i) of
             Ptr_submsg j \<Rightarrow> static_ok n E (msg_desc E j) (uint (data_size (fs ! i)))
           | _ \<Rightarrow> False))))"

lemma static_ok_mono: "static_ok n E fs sz \<Longrightarrow> static_ok (Suc n) E fs sz"
proof (induction n arbitrary: fs sz)
  case 0
  then show ?case by simp
next
  case (Suc n)
  show ?case
    unfolding static_ok.simps(2) [of "Suc n"]
  proof (intro conjI allI impI)
    fix i assume i: "i < length fs"
    with Suc.prems have *: "static_value (fs ! i) \<or>
          PB_LTYPE (ftype (fs ! i)) = PB_LTYPE_SUBMESSAGE \<and>
          (case ptr (fs ! i) of
             Ptr_submsg j \<Rightarrow> static_ok n E (msg_desc E j) (uint (data_size (fs ! i)))
           | _ \<Rightarrow> False)" by simp
    then show "static_value (fs ! i) \<or>
          PB_LTYPE (ftype (fs ! i)) = PB_LTYPE_SUBMESSAGE \<and>
          (case ptr (fs ! i) of
             Ptr_submsg j \<Rightarrow> static_ok (Suc n) E (msg_desc E j) (uint (data_size (fs ! i)))
           | _ \<Rightarrow> False)"
      using Suc.IH by (auto split: field_ptr.splits simp del: static_ok.simps)
  qed (use Suc.prems in simp_all)
qed

subsection \<open>Defaults and release\<close>

lemma action_ok_bind:
  "action_ok A h r \<Longrightarrow> (\<And>h1. r = Done h1 \<Longrightarrow> action_ok A h1 (k h1)) \<Longrightarrow> action_ok A h (exec_bind r k)"
  by (force simp: action_ok_def intro: keeps_trans)

lemma action_ok_Done: "keeps A h h' \<Longrightarrow> action_ok A h (Done h')"
  by (simp add: action_ok_def)

lemma action_ok_upd: "keeps A h h1 \<Longrightarrow> action_ok A h1 r \<Longrightarrow> action_ok A h r"
  by (auto simp: action_ok_def intro: keeps_trans)

lemma seq_upto_action:
  assumes "\<And>i h. i < j + k \<Longrightarrow> action_ok A h (g i h)"
  shows "\<exists>h'. seq_upto (\<lambda>i h. exec_bind (g i h) (\<lambda>h1. Done (True, h1))) j k h = Done (True, h') \<and>
              keeps A h h'"
  using assms
proof (induction k arbitrary: j h)
  case 0
  then show ?case by simp
next
  case (Suc k)
  from Suc.prems [of j h] obtain h1 where h1: "g j h = Done h1" "keeps A h h1"
    by (auto simp: action_ok_def)
  from Suc.IH [of "Suc j" h1] Suc.prems h1 show ?case by (auto intro: keeps_trans)
qed

lemma each_field_Nil [simp]: "each_field g [] d h = Done h"
  by (simp add: each_field_def pb_field_iter_begin_def Let_def fld_def PB_LAST_FIELD_def)

lemma each_field_eq:
  assumes wf: "wf_fields fs" and ne: "fs \<noteq> []"
  shows "each_field g fs d h =
    exec_bind (seq_upto (\<lambda>i h. exec_bind (g (iter_at fs d i) h) (\<lambda>h1. Done (True, h1))) 0 (length fs) h)
      (\<lambda>(_, h1). Done h1)"
proof -
  have "fst (pb_field_iter_begin fs d)"
    using wf ne by (simp add: pb_field_iter_begin_def Let_def wf_fields_def)
  then have b: "pb_field_iter_begin fs d = (True, snd (pb_field_iter_begin fs d))"
    by (simp add: prod_eq_iff)
  show ?thesis
    unfolding each_field_def by (subst b) (simp add: for_fields_seq_upto [OF wf ne])
qed

lemma each_field_action:
  assumes wf: "wf_fields fs" and g: "\<And>i h. i < length fs \<Longrightarrow> action_ok A h (g (iter_at fs d i) h)"
  shows "action_ok A h (each_field g fs d h)"
proof (cases "fs = []")
  case True
  then show ?thesis by (simp add: action_ok_Done)
next
  case False
  from seq_upto_action [of 0 "length fs" A "\<lambda>j. g (iter_at fs d j)" h] g
  obtain h' where "seq_upto (\<lambda>i h. exec_bind (g (iter_at fs d i) h) (\<lambda>h1. Done (True, h1))) 0
      (length fs) h = Done (True, h')" "keeps A h h'"
    by auto
  then show ?thesis
    by (simp add: each_field_eq [OF wf False] action_ok_Done)
qed

text \<open>What a field of an admissible message guarantees about the iterator that stands on it.\<close>

lemma static_okD:
  fixes d :: addr
  assumes "static_ok (Suc n) E fs sz" "i < length fs"
  defines "it \<equiv> iter_at fs d i" and "f \<equiv> fs ! i"
  shows "cur it = f" "PB_ATYPE (ftype f) = PB_ATYPE_STATIC"
    "area (pData it) (prev_field_size f) \<subseteq> area d sz"
    "PB_HTYPE (ftype f) = PB_HTYPE_OPTIONAL \<Longrightarrow> pSize it \<noteq> pData it \<Longrightarrow> pSize it \<in> area d sz"
    "PB_HTYPE (ftype f) = PB_HTYPE_REPEATED \<or> PB_HTYPE (ftype f) = PB_HTYPE_ONEOF \<Longrightarrow>
       area (pSize it) 4 \<subseteq> area d sz \<and> pSize it \<noteq> pData it"
    "PB_HTYPE (ftype f) = PB_HTYPE_REPEATED \<Longrightarrow> uint (data_size f) * uint (array_size f) < 2 ^ 32"
    "0 < d \<Longrightarrow> 0 < pData it"
proof -
  have wf: "wf_fields fs" and pl: "static_place f (iter_at fs 0 i) sz"
    using assms(1,2) by (simp_all add: f_def)
  note shift = iter_at_shift [OF wf assms(2), of d]
  show "cur it = f" by (simp add: it_def f_def cur_iter_at [OF wf assms(2)])
  show "PB_ATYPE (ftype f) = PB_ATYPE_STATIC"
    "PB_HTYPE (ftype f) = PB_HTYPE_REPEATED \<Longrightarrow> uint (data_size f) * uint (array_size f) < 2 ^ 32"
    using pl by (simp_all add: static_place_def Let_def)
  show "area (pData it) (prev_field_size f) \<subseteq> area d sz"
    "PB_HTYPE (ftype f) = PB_HTYPE_OPTIONAL \<Longrightarrow> pSize it \<noteq> pData it \<Longrightarrow> pSize it \<in> area d sz"
    "PB_HTYPE (ftype f) = PB_HTYPE_REPEATED \<or> PB_HTYPE (ftype f) = PB_HTYPE_ONEOF \<Longrightarrow>
       area (pSize it) 4 \<subseteq> area d sz \<and> pSize it \<noteq> pData it"
    "0 < d \<Longrightarrow> 0 < pData it"
    using pl shift by (auto simp: static_place_def Let_def area_def it_def)
qed

lemma prev_field_size_static:
  "PB_ATYPE (ftype f) = PB_ATYPE_STATIC \<Longrightarrow>
     prev_field_size f = (if PB_HTYPE (ftype f) = PB_HTYPE_REPEATED
                          then uint (data_size f) * uint (array_size f) else uint (data_size f))"
  by (simp add: prev_field_size_def)

lemma ltype_codes_distinct [simp]:
  "PB_LTYPE_SUBMESSAGE \<noteq> PB_LTYPE_EXTENSION" "PB_LTYPE_VARINT \<noteq> PB_LTYPE_EXTENSION"
  "PB_LTYPE_UVARINT \<noteq> PB_LTYPE_EXTENSION" "PB_LTYPE_SVARINT \<noteq> PB_LTYPE_EXTENSION"
  "PB_LTYPE_FIXED32 \<noteq> PB_LTYPE_EXTENSION" "PB_LTYPE_FIXED64 \<noteq> PB_LTYPE_EXTENSION"
  "PB_LTYPE_BYTES \<noteq> PB_LTYPE_EXTENSION" "PB_LTYPE_STRING \<noteq> PB_LTYPE_EXTENSION"
  "PB_LTYPE_FIXED_LENGTH_BYTES \<noteq> PB_LTYPE_EXTENSION"
  "PB_LTYPE_VARINT \<noteq> PB_LTYPE_SUBMESSAGE" "PB_LTYPE_UVARINT \<noteq> PB_LTYPE_SUBMESSAGE"
  "PB_LTYPE_SVARINT \<noteq> PB_LTYPE_SUBMESSAGE" "PB_LTYPE_FIXED32 \<noteq> PB_LTYPE_SUBMESSAGE"
  "PB_LTYPE_FIXED64 \<noteq> PB_LTYPE_SUBMESSAGE" "PB_LTYPE_BYTES \<noteq> PB_LTYPE_SUBMESSAGE"
  "PB_LTYPE_STRING \<noteq> PB_LTYPE_SUBMESSAGE" "PB_LTYPE_FIXED_LENGTH_BYTES \<noteq> PB_LTYPE_SUBMESSAGE"
  by (simp_all add: pb_codes)

declare ltype_codes_distinct [symmetric, simp]

lemma static_value_ltype:
  "static_value f \<Longrightarrow> PB_LTYPE (ftype f) \<noteq> PB_LTYPE_SUBMESSAGE \<and> PB_LTYPE (ftype f) \<noteq> PB_LTYPE_EXTENSION"
  by (auto simp: static_value_def Let_def)

lemma static_ok_wf: "static_ok n E fs sz \<Longrightarrow> wf_fields fs" "static_ok n E fs sz \<Longrightarrow> fs \<noteq> []"
  by (cases n; simp)+

lemma static_ok_kind:
  assumes "static_ok (Suc n) E fs sz" "i < length fs"
  shows "PB_LTYPE (ftype (fs ! i)) \<noteq> PB_LTYPE_EXTENSION"
    and "static_value (fs ! i) \<and> PB_LTYPE (ftype (fs ! i)) \<noteq> PB_LTYPE_SUBMESSAGE \<or>
         PB_LTYPE (ftype (fs ! i)) = PB_LTYPE_SUBMESSAGE \<and>
           (\<exists>j. ptr (fs ! i) = Ptr_submsg j \<and>
                static_ok n E (msg_desc E j) (uint (data_size (fs ! i))))"
proof -
  have *: "static_value (fs ! i) \<or> PB_LTYPE (ftype (fs ! i)) = PB_LTYPE_SUBMESSAGE \<and>
      (case ptr (fs ! i) of
         Ptr_submsg j \<Rightarrow> static_ok n E (msg_desc E j) (uint (data_size (fs ! i))) | _ \<Rightarrow> False)"
    using assms unfolding static_ok.simps(2) by blast
  then show "PB_LTYPE (ftype (fs ! i)) \<noteq> PB_LTYPE_EXTENSION"
    using static_value_ltype by fastforce
  from * show "static_value (fs ! i) \<and> PB_LTYPE (ftype (fs ! i)) \<noteq> PB_LTYPE_SUBMESSAGE \<or>
         PB_LTYPE (ftype (fs ! i)) = PB_LTYPE_SUBMESSAGE \<and>
           (\<exists>j. ptr (fs ! i) = Ptr_submsg j \<and>
                static_ok n E (msg_desc E j) (uint (data_size (fs ! i))))"
    using static_value_ltype by (cases "ptr (fs ! i)") auto
qed

lemma static_default_ok:
  assumes at: "cur it = f" "area (pData it) (uint (data_size f)) \<subseteq> A"
    and v: "static_value f \<or> PB_LTYPE (ftype f) = PB_LTYPE_SUBMESSAGE \<and>
              (\<exists>j. ptr f = Ptr_submsg j \<and> (\<forall>h. action_ok A h (msg (msg_desc E j) (pData it) h)))"
  shows "action_ok A h (set_static_default msg E it h)"
proof (cases "PB_LTYPE (ftype f) = PB_LTYPE_SUBMESSAGE")
  case True
  with v static_value_ltype at(1) show ?thesis by (auto simp: set_static_default_def Let_def)
next
  case False
  with v have sv: "static_value f" by simp
  have n: "int (unat (data_size f)) = uint (data_size f)" by simp
  show ?thesis
  proof (cases "ptr f")
    case Ptr_null
    with False at show ?thesis
      by (simp add: set_static_default_def Let_def action_ok_Done keeps_memset0)
  next
    case (Ptr_default bs)
    with sv have "unat (data_size f) \<le> length bs" by (simp add: static_value_def Let_def)
    with Ptr_default False at show ?thesis
      by (auto simp: set_static_default_def Let_def min_absorb2 intro!: action_ok_Done keeps_wr_bytes)
  next
    case (Ptr_submsg j)
    with sv show ?thesis by (simp add: static_value_def Let_def)
  qed
qed

lemma set_to_defaults_ok:
  "static_ok n E fs sz \<Longrightarrow> i < length fs \<Longrightarrow> area d sz \<subseteq> A \<Longrightarrow>
     action_ok A h (pb_field_set_to_default n E (iter_at fs d i) h)"
proof (induction n arbitrary: fs sz i d h)
  case 0
  then show ?case by simp
next
  case (Suc n)
  let ?it = "iter_at fs d i" and ?f = "fs ! i"
  note D = static_okD [OF Suc.prems(1,2)]
  have sub: "area (pData ?it) (prev_field_size ?f) \<subseteq> A" using D(3) Suc.prems(3) by blast
  have msg: "static_value ?f \<or> PB_LTYPE (ftype ?f) = PB_LTYPE_SUBMESSAGE \<and>
      (\<exists>j. ptr ?f = Ptr_submsg j \<and>
        (\<forall>h. action_ok A h (each_field (pb_field_set_to_default n E) (msg_desc E j) (pData ?it) h)))"
    if nr: "PB_HTYPE (ftype ?f) \<noteq> PB_HTYPE_REPEATED"
  proof (cases "static_value ?f")
    case False
    with static_ok_kind(2) [OF Suc.prems(1,2)] obtain j where lt: "PB_LTYPE (ftype ?f) = PB_LTYPE_SUBMESSAGE"
      and j: "ptr ?f = Ptr_submsg j" and ok: "static_ok n E (msg_desc E j) (uint (data_size ?f))"
      by blast
    note wfj = static_ok_wf(1) [OF ok]
    have a: "area (pData ?it) (uint (data_size ?f)) \<subseteq> A"
      using sub nr by (simp add: prev_field_size_static [OF D(2)])
    have "action_ok A h (each_field (pb_field_set_to_default n E) (msg_desc E j) (pData ?it) h)" for h
      using each_field_action [OF wfj] Suc.IH [OF ok _ a] by blast
    with lt j show ?thesis by blast
  qed simp
  have default: "action_ok A h (set_static_default (each_field (pb_field_set_to_default n E)) E ?it h)"
    if "PB_HTYPE (ftype ?f) \<noteq> PB_HTYPE_REPEATED" for h
    by (rule static_default_ok [OF D(1)])
       (use sub that msg in \<open>auto simp: prev_field_size_static [OF D(2)]\<close>)
  note ne = static_ok_kind(1) [OF Suc.prems(1,2)]
  note step = pb_field_set_to_default.simps(2) Let_def D(1) if_not_P [OF ne] if_P [OF D(2)]
  consider (opt) "PB_HTYPE (ftype ?f) = PB_HTYPE_OPTIONAL" | (req) "PB_HTYPE (ftype ?f) = PB_HTYPE_REQUIRED"
    | (count) "PB_HTYPE (ftype ?f) = PB_HTYPE_REPEATED \<or> PB_HTYPE (ftype ?f) = PB_HTYPE_ONEOF"
    using htype_cases by blast
  then show ?case
  proof cases
    case opt
    have "action_ok A h (set_static_default (each_field (pb_field_set_to_default n E)) E ?it
            (upd h (\<lambda>m. m(pSize ?it := 0))))" if "pSize ?it \<noteq> pData ?it"
      using D(4) [OF opt that] Suc.prems(3) opt
      by (intro action_ok_upd [OF keeps_byte default]) auto
    then show ?thesis unfolding step
      using default [of h] opt by simp
  next
    case req
    then show ?thesis unfolding step
      using default [of h] by simp
  next
    case count
    with D(5) [where d = d] Suc.prems(3) have "area (pSize ?it) 4 \<subseteq> A" by blast
    then have "action_ok A h (Done (upd h (\<lambda>m. wr32 m (pSize ?it) 0)))"
      by (intro action_ok_Done keeps_wr32)
    with count show ?thesis unfolding step
      by auto
  qed
qed

lemma message_set_to_defaults_ok:
  "static_ok n E fs sz \<Longrightarrow> area d sz \<subseteq> A \<Longrightarrow>
     action_ok A h (pb_message_set_to_defaults n E fs d h)"
  unfolding pb_message_set_to_defaults_def
  by (rule each_field_action) (auto intro: set_to_defaults_ok static_ok_wf)

lemma release_items_Done:
  "(\<And>p h. g p h = Done h) \<Longrightarrow> release_items g step k p h = Done h"
  by (induction k arbitrary: p) simp_all

lemma each_field_Done:
  assumes "wf_fields fs" "\<And>i h. i < length fs \<Longrightarrow> g (iter_at fs d i) h = Done h"
  shows "each_field g fs d h = Done h"
proof -
  have "seq_upto (\<lambda>i h. exec_bind (g (iter_at fs d i) h) (\<lambda>h1. Done (True, h1))) j k h = Done (True, h)"
    if "j + k \<le> length fs" for j k h
    using that by (induction k arbitrary: j) (simp_all add: assms(2))
  from this [of 0 "length fs"] show ?thesis
    by (cases "fs = []") (simp_all add: each_field_eq [OF assms(1)])
qed

lemma release_field_ok:
  "static_ok n E fs sz \<Longrightarrow> i < length fs \<Longrightarrow> pb_release_single_field n E (iter_at fs d i) h = Done h"
proof (induction n arbitrary: fs sz i d h)
  case 0
  then show ?case by simp
next
  case (Suc n)
  note D = static_okD [OF Suc.prems(1,2)]
  note ne = static_ok_kind(1) [OF Suc.prems(1,2)]
  have sub: "each_field (pb_release_single_field n E) (msg_desc E j) p h = Done h"
    if "PB_LTYPE (ftype (fs ! i)) = PB_LTYPE_SUBMESSAGE" "ptr (fs ! i) = Ptr_submsg j" for j p h
  proof -
    have ok: "static_ok n E (msg_desc E j) (uint (data_size (fs ! i)))"
      using that static_ok_kind(2) [OF Suc.prems(1,2)] by auto
    show ?thesis using each_field_Done [OF static_ok_wf(1) [OF ok]] Suc.IH [OF ok] by blast
  qed
  have items: "release_items
      (\<lambda>p h. if p = 0 then Done h
             else (case ptr (fs ! i) of
                     Ptr_submsg j \<Rightarrow> each_field (pb_release_single_field n E) (msg_desc E j) p h
                   | _ \<Rightarrow> Undefined)) step k p h = Done h"
    if "PB_LTYPE (ftype (fs ! i)) = PB_LTYPE_SUBMESSAGE" for step k p h
    using static_ok_kind(2) [OF Suc.prems(1,2)] sub that
    by (intro release_items_Done) auto
  show ?case
    using D(1,2) ne by (simp add: Let_def items release_allocation_def)
qed

lemma release_ok: "static_ok n E fs sz \<Longrightarrow> pb_release n E fs d h = Done h"
  unfolding pb_release_def
  using each_field_Done [of fs "pb_release_single_field n E"] release_field_ok
  by (auto simp: static_ok_wf)

subsection \<open>Field decoders\<close>

lemma store_keeps:
  assumes "area a (uint sz) \<subseteq> A"
  shows "store_signed sz a v (hmem h) = Some (m, c) \<Longrightarrow> keeps A h (h\<lparr>hmem := m\<rparr>)"
    and "store_unsigned sz a v (hmem h) = Some (m, c) \<Longrightarrow> keeps A h (h\<lparr>hmem := m\<rparr>)"
proof -
  have k: "keeps A h (h\<lparr>hmem := wr64 (hmem h) a w8\<rparr>)" if "sz = 8" for w8
    using keeps_wr64 [of a A h w8] assms that by (simp add: upd_def)
  have k4: "keeps A h (h\<lparr>hmem := wr32 (hmem h) a w4\<rparr>)" if "sz = 4" for w4
    using keeps_wr32 [of a A h w4] assms that by (simp add: upd_def)
  have k2: "keeps A h (h\<lparr>hmem := wr16 (hmem h) a w2\<rparr>)" if "sz = 2" for w2
    using keeps_wr16 [of a A h w2] assms that by (simp add: upd_def)
  have k1: "keeps A h (h\<lparr>hmem := (hmem h)(a := w1)\<rparr>)" if "sz = 1" for w1
    using keeps_byte [of a A h w1] assms that by (auto simp add: upd_def area_def)
  show "store_signed sz a v (hmem h) = Some (m, c) \<Longrightarrow> keeps A h (h\<lparr>hmem := m\<rparr>)"
    "store_unsigned sz a v (hmem h) = Some (m, c) \<Longrightarrow> keeps A h (h\<lparr>hmem := m\<rparr>)"
    using k k4 k2 k1 by (auto simp: store_signed_def store_unsigned_def split: if_splits)
qed

lemma store_clamped_safe1:
  assumes "\<And>m c. st (hmem h) = Some (m, c) \<Longrightarrow> keeps A h (h\<lparr>hmem := m\<rparr>)"
    and "bytes_left s1 < bytes_left s"
  shows "safe1 A s h (store_clamped st v s1 h)"
  using assms by (auto simp: store_clamped_def intro!: safe1_fail safe1I split: option.split)

lemma read_into_safe1:
  assumes "read_into s1 dest n h1 = (ok, s2, h2)" "bytes_left s1 < bytes_left s" "keeps A h h1"
    and "area dest (uint n) \<subseteq> A"
  shows "bytes_left s2 < bytes_left s \<and> keeps A h h2"
proof -
  obtain q s3 where q: "pb_read s1 n = (q, s3)" by fastforce
  then have "length bs = unat n" if "q = Some bs" for bs
    using that by (auto simp: pb_read_def split: if_splits prod.splits option.splits)
  then have "keeps A h1 h2"
    using assms(1,4) q
    by (cases q) (auto simp: read_into_def intro!: keeps_wr_bytes dest: subsetD)
  moreover have "bytes_left s2 \<le> bytes_left s1"
    using assms(1) q read_le [OF q] by (auto simp: read_into_def split: option.splits)
  ultimately show ?thesis using assms(2,3) by (auto intro: keeps_trans)
qed

lemma dec_varint_safe1:
  assumes "area dest (uint (data_size f)) \<subseteq> A"
  shows "safe1 A s h (pb_dec_varint s f dest h)" "safe1 A s h (pb_dec_uvarint s f dest h)"
    "safe1 A s h (pb_dec_svarint s f dest h)"
  using shrinksD [OF shrinks_varint] shrinksD [OF shrinks_svarint] store_keeps [OF assms]
  by (auto simp: pb_dec_varint_def pb_dec_uvarint_def pb_dec_svarint_def Let_def
      intro!: safe1I store_clamped_safe1 split: prod.splits option.splits)

lemma dec_fixed_safe1:
  shows "area dest 4 \<subseteq> A \<Longrightarrow> safe1 A s h (pb_dec_fixed32 s f dest h)"
    and "area dest 8 \<subseteq> A \<Longrightarrow> safe1 A s h (pb_dec_fixed64 s f dest h)"
  using shrinksD [OF shrinks_fixed32] shrinksD [OF shrinks_fixed64]
  by (auto simp: pb_dec_fixed32_def pb_dec_fixed64_def
      intro!: safe1I keeps_wr32 keeps_wr64 split: prod.splits option.splits)

lemma dec_fixed_length_safe1:
  assumes "area dest (uint (data_size f)) \<subseteq> A"
  shows "safe1 A s h (pb_dec_fixed_length_bytes s f dest h)"
proof (cases "pb_decode_varint32 s")
  case (Pair q s1)
  have u: "uint (ucast (data_size f) :: u64) = uint (data_size f)"
    by (simp add: unsigned_ucast_eq take_bit_int_eq_self unsigned_less [THEN less_le_trans])
  show ?thesis
  proof (cases q)
    case None
    with Pair shrinksD(1) [OF shrinks_varint32 Pair] show ?thesis
      by (simp add: pb_dec_fixed_length_bytes_def safe1I)
  next
    case (Some n)
    then have less: "bytes_left s1 < bytes_left s" using shrinksD(2) [OF shrinks_varint32] Pair by blast
    obtain ok s2 h2 where r: "read_into s1 dest (ucast (data_size f)) h = (ok, s2, h2)"
      by (metis prod_cases3)
    show ?thesis
      using Pair Some less read_into_safe1 [OF r less keeps_refl] assms r
      by (auto simp: pb_dec_fixed_length_bytes_def u
          intro!: safe1_fail safe1_less keeps_memset0)
  qed
qed

lemma uint_ucast_u32: "uint (ucast (n :: u32) :: u64) = uint n"
  by (simp add: unsigned_ucast_eq take_bit_int_eq_self unsigned_less [THEN less_le_trans])

lemma bytes_allocsize:
  "uint (PB_BYTES_ARRAY_T_ALLOCSIZE (ucast (n :: u32))) = uint n + 4"
  using unsigned_less [of n, where ?'a = int]
  by (simp add: PB_BYTES_ARRAY_T_ALLOCSIZE_def uint_word_ariths uint_ucast_u32)

lemma dec_bytes_safe1:
  assumes st: "PB_ATYPE (ftype f) = PB_ATYPE_STATIC" and a: "area dest (uint (data_size f)) \<subseteq> A"
  shows "safe1 A s h (pb_dec_bytes s f dest h)"
proof (cases "pb_decode_varint32 s")
  case (Pair q s1)
  show ?thesis
  proof (cases q)
    case None
    with Pair shrinksD(1) [OF shrinks_varint32 Pair] show ?thesis
      by (simp add: pb_dec_bytes_def safe1I)
  next
    case (Some n)
    then have less: "bytes_left s1 < bytes_left s" using shrinksD(2) [OF shrinks_varint32] Pair by blast
    obtain ok s2 h2 where r: "read_into s1 (dest + 4) (ucast n) (upd h (\<lambda>m. wr32 m dest n)) = (ok, s2, h2)"
      by (metis prod_cases3)
    have "bytes_left s2 < bytes_left s \<and> keeps A h h2"
      if "\<not> ucast (data_size f) < PB_BYTES_ARRAY_T_ALLOCSIZE (ucast n)"
    proof (rule read_into_safe1 [OF r less])
      from that have le: "uint n + 4 \<le> uint (data_size f)"
        by (simp add: word_less_def bytes_allocsize uint_ucast_u32)
      moreover have "0 \<le> uint n" by simp
      ultimately have "area dest 4 \<subseteq> area dest (uint (data_size f))" by (intro area_mono) linarith+
      with a show "keeps A h (upd h (\<lambda>m. wr32 m dest n))" by (intro keeps_wr32) blast
      from le a show "area (dest + 4) (uint (ucast n :: u64)) \<subseteq> A"
        by (auto simp: area_def uint_ucast_u32)
    qed
    then show ?thesis
      using Pair Some less st r
      by (auto simp: pb_dec_bytes_def Let_def fail_def intro!: safe1_less)
  qed
qed

lemma dec_string_safe1:
  assumes st: "PB_ATYPE (ftype f) = PB_ATYPE_STATIC" and a: "area dest (uint (data_size f)) \<subseteq> A"
  shows "safe1 A s h (pb_dec_string s f dest h)"
proof (cases "pb_decode_varint32 s")
  case (Pair q s1)
  show ?thesis
  proof (cases q)
    case None
    with Pair shrinksD(1) [OF shrinks_varint32 Pair] show ?thesis
      by (simp add: pb_dec_string_def safe1I)
  next
    case (Some n)
    then have less: "bytes_left s1 < bytes_left s" using shrinksD(2) [OF shrinks_varint32] Pair by blast
    obtain ok s2 h2 where r: "read_into s1 dest (ucast n) h = (ok, s2, h2)"
      by (metis prod_cases3)
    have *: "bytes_left s2 < bytes_left s \<and> keeps A h (upd h2 (\<lambda>m. m(dest + uint n := 0)))"
      if ok: "\<not> ucast (data_size f) < (ucast (n + 1) :: u64)" "\<not> (ucast (n + 1) :: u64) < ucast n"
    proof -
      from ok(2) have "\<not> uint (n + 1) < uint n" by (simp add: word_less_def uint_ucast_u32)
      then have "uint (n + 1) = uint n + 1" by (simp add: uint_plus_if' split: if_splits)
      with ok(1) have le: "uint n + 1 \<le> uint (data_size f)"
        by (simp add: word_less_def uint_ucast_u32)
      with a have "area dest (uint (ucast n :: u64)) \<subseteq> A"
        by (auto simp: area_def uint_ucast_u32)
      from read_into_safe1 [OF r less keeps_refl this]
      have "bytes_left s2 < bytes_left s" "keeps A h h2" by simp_all
      moreover have "keeps A h2 (upd h2 (\<lambda>m. m(dest + uint n := 0)))"
        using le a by (intro keeps_byte) (auto simp: area_def subset_iff)
      ultimately show ?thesis by (auto intro: keeps_trans)
    qed
    then show ?thesis
      using Pair Some less st r
      by (auto simp: pb_dec_string_def Let_def fail_def intro!: safe1_less)
  qed
qed

lemma dec_submessage_safe1:
  assumes sub: "\<And>j s. ptr f = Ptr_submsg j \<Longrightarrow> safe A s h (noinit s (msg_desc E j) dest h)"
      "\<And>j s. ptr f = Ptr_submsg j \<Longrightarrow> safe A s h (init s (msg_desc E j) dest h)"
    and p: "ptr f = Ptr_submsg i"
  shows "safe1 A s h (pb_dec_submessage E noinit init s f dest h)"
proof (cases "pb_make_string_substream s")
  case (Pair q s1)
  show ?thesis
  proof (cases q)
    case None
    with Pair make_substream(1) [OF Pair] show ?thesis
      by (simp add: pb_dec_submessage_def safe1I)
  next
    case (Some sub)
    then have less: "bytes_left s1 < bytes_left s" using make_substream(2) Pair by blast
    have "safe A sub h ((if PB_HTYPE (ftype f) = PB_HTYPE_REPEATED then init else noinit) sub
          (msg_desc E i) dest h)"
      using sub(1,2) [OF p, of sub] by simp
    then obtain ok sub1 h1 where "(if PB_HTYPE (ftype f) = PB_HTYPE_REPEATED then init else noinit) sub
          (msg_desc E i) dest h = Done (ok, sub1, h1)" "keeps A h h1"
      unfolding safe_def by blast
    moreover obtain closed s2 where c: "pb_close_string_substream s1 sub1 = (closed, s2)" by fastforce
    ultimately show ?thesis
      using p less close_substream_left [OF c]
      unfolding pb_dec_submessage_def Pair Some
      by (simp add: c safe1_less del: if_split)
  qed
qed

end
