(* ===== verification/Pb_Decode_Total.thy ===== *)
theory Pb_Decode_Total
  imports Pb_Decode_Safety
begin

text \<open>
  From field decoders to messages: the locale \<open>submessage_decoder\<close> is what the code for a
  single field relies on when it decodes a submessage; inside it the static fields, the
  turns of the main loop and the whole message are shown safe. It is interpreted on
  \<open>pb_decode_noinit\<close> and \<open>pb_decode\<close> by induction on the nesting depth.
\<close>

unbundle bit_operations_syntax

lemma array_item:
  assumes "(count :: u32) < asize" "uint dsize * uint (asize :: u32) < 2 ^ 32"
  shows "area (a + uint (dsize * count)) (uint dsize) \<subseteq> area a (uint dsize * uint asize)"
    and "0 \<le> uint (dsize * count)"
proof -
  have c: "uint count + 1 \<le> uint asize" using assms(1) by (simp add: word_less_def)
  then have le: "uint dsize * (uint count + 1) \<le> uint dsize * uint asize"
    by (intro mult_left_mono) simp_all
  have "0 \<le> uint dsize * uint count" by simp
  moreover have "uint dsize * uint count \<le> uint dsize * (uint count + 1)"
    by (intro mult_left_mono) simp_all
  ultimately have "uint (dsize * count) = uint dsize * uint count"
    using le assms(2) by (simp add: uint_word_ariths mod_pos_pos_trivial)
  then show "area (a + uint (dsize * count)) (uint dsize) \<subseteq> area a (uint dsize * uint asize)"
    using le by (intro area_mono) (simp_all add: algebra_simps)
  show "0 \<le> uint (dsize * count)" by simp
qed

lemma packed_static_safe:
  assumes func: "\<And>s dest h. area dest (uint (data_size f)) \<subseteq> area (pData it) ext \<Longrightarrow>
      pData it \<le> dest \<Longrightarrow> safe1 A s h (func s f dest h)"
    and it: "cur it = f" "uint (data_size f) * uint (array_size f) < 2 ^ 32"
      "ext = uint (data_size f) * uint (array_size f)" "area (pSize it) 4 \<subseteq> A"
  shows "unat (bytes_left sub) < k \<Longrightarrow> safe A sub h (packed_static k func it sub h)"
proof (induction k arbitrary: sub h)
  case 0
  then show ?case by simp
next
  case (Suc k)
  let ?count = "rd32 (hmem h) (pSize it)"
  show ?case
  proof (cases "0 < bytes_left sub \<and> ?count < array_size f")
    case True
    let ?dest = "pData it + uint (data_size f * ?count)"
    have "safe1 A sub h (func sub f ?dest h)"
      using array_item [OF conjunct2 [OF True] it(2)] it(3) by (intro func) simp_all
    then obtain ok s1 h1 where r: "func sub f ?dest h = Done (ok, s1, h1)" "bytes_left s1 \<le> bytes_left sub"
      "keeps A h h1" "ok \<Longrightarrow> bytes_left s1 < bytes_left sub"
      by (auto simp: safe1_def)
    let ?h2 = "upd h1 (\<lambda>m. wr32 m (pSize it) (rd32 m (pSize it) + 1))"
    have k: "keeps A h1 ?h2"
      using keeps_wr32 [OF it(4), of h1 "rd32 (hmem h1) (pSize it) + 1"] by (simp add: upd_def)
    show ?thesis
    proof (cases ok)
      case True
      with r(4) Suc.prems have "unat (bytes_left s1) < k" by (simp add: word_less_nat_alt)
      have "packed_static (Suc k) func it sub h = packed_static k func it s1 ?h2"
        using r(1) True \<open>0 < bytes_left sub \<and> _\<close> it(1) by (simp add: Let_def)
      with safe_step [OF Suc.IH [OF \<open>unat (bytes_left s1) < k\<close>, of ?h2] r(2) keeps_trans [OF r(3) k]]
      show ?thesis by (simp only:)
    next
      case False
      with r \<open>0 < bytes_left sub \<and> _\<close> it(1) show ?thesis by (auto simp: safe_def Let_def)
    qed
  next
    case False
    with it(1) show ?thesis by (auto simp: safe_def Let_def)
  qed
qed

subsection \<open>The required-field check\<close>

lemma seek_end_total:
  assumes "wf_fields fs"
  shows "i < length fs \<Longrightarrow> length fs - i \<le> k \<Longrightarrow>
    seek_end k (iter_at fs d i) =
      Done (required_field_index (iter_at fs d (length fs - 1)), ftype (fs ! (length fs - 1)), iter_at fs d 0)"
proof (induction k arbitrary: i)
  case 0
  then show ?case by simp
next
  case (Suc k)
  show ?case
  proof (cases "Suc i < length fs")
    case True
    with Suc show ?thesis by (simp add: next_iter_at [OF assms] del: iter_at.simps)
  next
    case False
    with Suc.prems(1) have "i = length fs - 1" by simp
    with False Suc.prems(1) show ?thesis
      by (simp add: next_iter_at [OF assms] cur_iter_at [OF assms] del: iter_at.simps)
  qed
qed

definition required_count :: "pb_field list \<Rightarrow> nat" where
  "required_count fs = length (filter is_required fs)"

lemma check_required_spec:
  assumes wf: "wf_fields fs" and i: "i < length fs" and l: "length fs < 2 ^ 32"
  shows "check_required (iter_at fs d i) seen =
           Done (all_required_seen seen (min (required_count fs) PB_MAX_REQUIRED_FIELDS))"
proof -
  let ?last = "length fs - 1"
  have ne: "fs \<noteq> []" and len: "?last < length fs" using i by auto
  have fs: "fs = take ?last fs @ [fs ! ?last]"
    using ne by (metis append_butlast_last_id butlast_conv_take last_conv_nth)
  define r where "r = length (filter is_required (take ?last fs))"
  have c: "required_count fs = r + (if is_required (fs ! ?last) then 1 else 0)"
    unfolding required_count_def r_def by (subst fs) simp
  have "r \<le> length (take ?last fs)" unfolding r_def by (rule length_filter_le)
  also have "\<dots> < length fs" using len by simp
  finally have "r + 1 < 2 ^ 32 \<or> r + 1 = 2 ^ 32 \<and> False" using l by linarith
  then have u: "unat (of_nat r :: u32) = r" "unat (of_nat r + 1 :: u32) = r + 1"
    by (simp_all add: unat_of_nat unat_word_ariths)
  have t: "tag (cur (iter_at fs d 0)) \<noteq> 0"
    using wf_fields_tag [OF wf, of 0] ne by (simp add: cur_def)
  have "seek_end (Suc (length fs)) (iter_at fs d i) =
      Done (of_nat r, ftype (fs ! ?last), iter_at fs d 0)"
    using seek_end_total [OF wf i, of "Suc (length fs)" d]
    unfolding required_index_iter_at [OF wf len] r_def by (simp del: seek_end.simps)
  then show ?thesis
    unfolding check_required_def conjunct1 [OF iter_at_basic [OF wf i]] c
    using t by (simp add: u is_required_def Let_def del: iter_at.simps seek_end.simps)
qed

lemma check_required_total:
  assumes "wf_fields fs" "i < length fs"
  shows "\<exists>b. check_required (iter_at fs d i) seen = Done b"
  using seek_end_total [OF assms, of "Suc (length fs)" d] iter_at_basic [OF assms, of d]
  unfolding check_required_def by (simp add: Let_def del: iter_at.simps seek_end.simps)

subsection \<open>Messages\<close>

lemma mark_seen_iter [simp]: "d_iter (mark_seen l) = d_iter l"
  by (simp add: mark_seen_def Let_def)

lemma known_field_plain:
  "PB_HTYPE (ftype (cur (d_iter l))) \<noteq> PB_HTYPE_REPEATED \<or> pSize (d_iter l) \<noteq> pData (d_iter l) \<Longrightarrow>
   known_field k F decoders slot s wt h l =
     exec_bind (decode_field k F decoders s wt (d_iter l) h)
       (\<lambda>(ok, it1, s1, h2).
          Done (if ok then Continue else Return_false, s1, h2, (mark_seen l)\<lparr>d_iter := it1\<rparr>))"
  by (cases "PB_HTYPE (ftype (cur (d_iter l))) = PB_HTYPE_REPEATED")
     (simp_all add: known_field_def Let_def)

lemma decode_tag_bound: "pb_decode_tag s = (True, wt, t, eof, s1) \<Longrightarrow> t < -1"
proof -
  assume "pb_decode_tag s = (True, wt, t, eof, s1)"
  then obtain v where t: "t = drop_bit 3 v"
    by (auto simp: pb_decode_tag_def split: prod.splits option.splits if_splits)
  have "unat (drop_bit 3 v) = drop_bit 3 (unat v)" by (rule unat_drop_bit_eq)
  also have "\<dots> = unat v div 2 ^ 3" by (rule drop_bit_eq_div)
  also have "\<dots> < 2 ^ 29" using unsigned_less [of v, where ?'a = nat] by simp
  finally have "unat (drop_bit 3 v) < 2 ^ 29" .
  moreover have "unat (-1 :: u32) = 2 ^ 32 - 1" by (simp add: unsigned_minus_1_eq_mask mask_eq_exp_minus_1)
  ultimately show ?thesis unfolding t word_less_nat_alt by simp
qed

locale submessage_decoder =
  fixes n :: nat and E :: pb_env and noinit init :: msg_decoder
  assumes noinit_safe:
      "static_ok n E fs sz \<Longrightarrow> 0 < d \<Longrightarrow> area d sz \<subseteq> A \<Longrightarrow> safe A s h (noinit s fs d h)"
    and init_safe:
      "static_ok n E fs sz \<Longrightarrow> 0 < d \<Longrightarrow> area d sz \<subseteq> A \<Longrightarrow> safe A s h (init s fs d h)"
begin

lemma value_safe1:
  assumes ok: "static_ok (Suc n) E fs sz" and i: "i < length fs"
    and d: "0 < dest" and a: "area dest (uint (data_size (fs ! i))) \<subseteq> A"
  shows "safe1 A s h (PB_DECODERS E noinit init (PB_LTYPE (ftype (fs ! i))) s (fs ! i) dest h)"
proof -
  let ?f = "fs ! i" and ?lt = "PB_LTYPE (ftype (fs ! i))"
  note st = static_okD(2) [OF ok i]
  show ?thesis
  proof (cases "?lt = PB_LTYPE_SUBMESSAGE")
    case True
    with static_ok_kind(2) [OF ok i] obtain j where j: "ptr ?f = Ptr_submsg j"
      "static_ok n E (msg_desc E j) (uint (data_size ?f))" by auto
    have "safe1 A s h (pb_dec_submessage E noinit init s ?f dest h)"
      by (rule dec_submessage_safe1 [OF _ _ j(1)])
         (use j noinit_safe [OF j(2) d a] init_safe [OF j(2) d a] in auto)
    with True d show ?thesis by (simp add: PB_DECODERS_def pb_codes)
  next
    case False
    with static_ok_kind(2) [OF ok i] have v: "static_value ?f" by simp
    have "4 \<le> data_size ?f \<Longrightarrow> area dest 4 \<subseteq> A" "8 \<le> data_size ?f \<Longrightarrow> area dest 8 \<subseteq> A"
      using a by (auto simp: area_def word_le_def)
    with v d st a show ?thesis
      unfolding static_value_def Let_def
      by (auto simp: PB_DECODERS_def pb_codes dec_varint_safe1 dec_fixed_safe1 dec_bytes_safe1
          dec_string_safe1 dec_fixed_length_safe1)
  qed
qed

lemma static_field_safe1:
  assumes ok: "static_ok (Suc n) E fs sz" and i: "i < length fs" and d: "0 < d"
    and a: "area d sz \<subseteq> A"
  shows "safe1 A s h (decode_static_field (Suc n) E (PB_DECODERS E noinit init) s wt (iter_at fs d i) h)"
proof -
  let ?it = "iter_at fs d i" and ?f = "fs ! i"
  let ?func = "PB_DECODERS E noinit init (PB_LTYPE (ftype ?f))"
  note D = static_okD [OF ok i]
  have dp: "0 < pData ?it" using D(7) d by blast
  have ext: "area (pData ?it) (prev_field_size ?f) \<subseteq> A" using D(3) a by blast
  have val: "safe1 A s h (?func s ?f (pData ?it) h)"
    if "PB_HTYPE (ftype ?f) \<noteq> PB_HTYPE_REPEATED" for s h
    using ext that by (intro value_safe1 [OF ok i dp]) (simp add: prev_field_size_static [OF D(2)])
  have at: "pData (iter_at fs d i) \<le> dest \<Longrightarrow> area dest (uint (data_size ?f)) \<subseteq> B \<Longrightarrow>
      safe1 B s h (?func s ?f dest h)" for dest B s h
    using dp by (intro value_safe1 [OF ok i]) linarith+
  note step = decode_static_field_def Let_def D(1)
  consider (req) "PB_HTYPE (ftype ?f) = PB_HTYPE_REQUIRED"
    | (opt) "PB_HTYPE (ftype ?f) = PB_HTYPE_OPTIONAL"
    | (rep) "PB_HTYPE (ftype ?f) = PB_HTYPE_REPEATED"
    | (oneof) "PB_HTYPE (ftype ?f) = PB_HTYPE_ONEOF"
    using htype_cases by blast
  then show ?thesis
  proof cases
    case req
    then show ?thesis unfolding step using val by simp
  next
    case opt
    have "safe1 A s h (?func s ?f (pData ?it) (upd h (\<lambda>m. m(pSize ?it := 1))))"
      if "pSize ?it \<noteq> pData ?it"
      using D(4) [OF opt that] a opt by (intro safe1_step [OF val]) (auto intro: keeps_byte)
    then show ?thesis unfolding step using val [of s h] opt by simp
  next
    case oneof
    let ?h1 = "upd h (\<lambda>m. wr32 m (pSize ?it) (tag ?f))"
    have k: "keeps A h ?h1" using D(5) [where d = d] oneof a by (intro keeps_wr32) blast
    have sz: "area (pData ?it) (uint (data_size ?f)) \<subseteq> A"
      using ext oneof by (simp add: prev_field_size_static [OF D(2)])
    have init: "action_ok A ?h1 (if PB_LTYPE (ftype ?f) = PB_LTYPE_SUBMESSAGE then
              (case ptr ?f of
                 Ptr_submsg i \<Rightarrow>
                   pb_message_set_to_defaults (Suc n) E (msg_desc E i) (pData ?it)
                     (memset0 (pData ?it) (unat (data_size ?f)) ?h1)
               | _ \<Rightarrow> Undefined)
            else Done ?h1)"
    proof (cases "PB_LTYPE (ftype ?f) = PB_LTYPE_SUBMESSAGE")
      case True
      with static_ok_kind(2) [OF ok i] obtain j where j: "ptr ?f = Ptr_submsg j"
        "static_ok n E (msg_desc E j) (uint (data_size ?f))" by auto
      have "action_ok A ?h1 (pb_message_set_to_defaults (Suc n) E (msg_desc E j) (pData ?it)
              (memset0 (pData ?it) (unat (data_size ?f)) ?h1))"
        using sz by (intro action_ok_upd [OF keeps_memset0
              message_set_to_defaults_ok [OF static_ok_mono [OF j(2)]]]) simp_all
      with True j(1) show ?thesis by simp
    qed (simp add: action_ok_Done)
    then obtain h2 where h2: "keeps A ?h1 h2" "(if PB_LTYPE (ftype ?f) = PB_LTYPE_SUBMESSAGE then
              (case ptr ?f of
                 Ptr_submsg i \<Rightarrow>
                   pb_message_set_to_defaults (Suc n) E (msg_desc E i) (pData ?it)
                     (memset0 (pData ?it) (unat (data_size ?f)) ?h1)
               | _ \<Rightarrow> Undefined)
            else Done ?h1) = Done h2"
      by (auto simp: action_ok_def)
    have "safe1 A s h (?func s ?f (pData ?it) h2)"
      using oneof by (intro safe1_step [OF val [of s h2] order_refl keeps_trans [OF k h2(1)]]) simp
    then show ?thesis
      unfolding step
      by (simp only: oneof htype_codes_distinct if_False if_True h2(2) exec_bind.simps simp_thms)
  next
    case rep
    have p4: "area (pSize ?it) 4 \<subseteq> A" using D(5) [where d = d] rep a by blast
    have e: "prev_field_size ?f = uint (data_size ?f) * uint (array_size ?f)"
      using rep by (simp add: prev_field_size_static [OF D(2)])
    show ?thesis
    proof (cases "wt = PB_WT_STRING \<and> PB_LTYPE (ftype ?f) \<le> PB_LTYPE_LAST_PACKABLE")
      case packed: True
      show ?thesis
      proof (cases "pb_make_string_substream s")
        case (Pair q s1)
        show ?thesis
        proof (cases q)
          case None
          with packed rep Pair make_substream(1) [OF Pair] show ?thesis
            unfolding step by (simp add: safe1I)
        next
          case (Some sub)
          then have less: "bytes_left s1 < bytes_left s" using make_substream(2) Pair by blast
          have "safe A sub h (packed_static (Suc (unat (bytes_left sub))) ?func ?it sub h)"
            by (rule packed_static_safe [OF _ D(1) D(6) [OF rep] refl p4])
               (use ext at e in \<open>auto intro: order_trans\<close>)
          then obtain ok1 sub1 h1 where "packed_static (Suc (unat (bytes_left sub))) ?func ?it sub h =
              Done (ok1, sub1, h1)" "keeps A h h1"
            by (auto simp: safe_def simp del: packed_static.simps)
          moreover obtain closed s2 where c: "pb_close_string_substream s1 sub1 = (closed, s2)" by fastforce
          ultimately show ?thesis
            unfolding step
            using packed rep Pair Some less close_substream_left [OF c]
            by (auto simp: fail_def intro!: safe1_less simp del: packed_static.simps)
        qed
      qed
    next
      case False
      let ?count = "rd32 (hmem h) (pSize ?it)"
      let ?h1 = "upd h (\<lambda>m. wr32 m (pSize ?it) (?count + 1))"
      have k: "keeps A h ?h1" using p4 by (rule keeps_wr32)
      have "safe1 A s h (?func s ?f (pData ?it + uint (data_size ?f * ?count)) ?h1)"
        if "\<not> array_size ?f \<le> ?count"
      proof -
        from that have c: "?count < array_size ?f" by simp
        from array_item(1) [OF c D(6) [OF rep], of "pData ?it"] array_item(2) [OF c D(6) [OF rep]] ext e
        have "safe1 A s ?h1 (?func s ?f (pData ?it + uint (data_size ?f * ?count)) ?h1)"
          by (intro at) auto
        then show ?thesis by (rule safe1_step [OF _ order_refl k])
      qed
      then show ?thesis
        unfolding step using False rep k by (auto intro: safe1_fail)
    qed
  qed
qed

lemma release_union:
  assumes ok: "static_ok (Suc n) E fs sz" and i: "i < length fs"
  shows "\<exists>b j s1. pb_release_union_field (Suc n) E s (iter_at fs d i) h = Done (b, iter_at fs d j, s1, h) \<and>
           j < length fs \<and> bytes_left s1 = bytes_left s"
proof -
  let ?old = "rd32 (hmem h) (pSize (iter_at fs d i))" and ?new = "tag (cur (iter_at fs d i))"
  note wf = static_ok_wf(1) [OF ok]
  have rel: "pb_release_single_field (Suc n) E (iter_at fs d j) h = Done h" if "j < length fs" for j
    by (rule release_field_ok [OF ok that])
  show ?thesis
  proof (cases "?old = 0 \<or> ?old = ?new")
    case True
    with i show ?thesis unfolding pb_release_union_field_def Let_def by auto
  next
    case False
    note find1 = pb_field_iter_find_spec [OF wf i, of ?old d]
    show ?thesis
    proof (cases "\<exists>j < length fs. pb_field_iter_find (iter_at fs d i) ?old = Done (True, iter_at fs d j)")
      case True
      then obtain j where j: "j < length fs"
        "pb_field_iter_find (iter_at fs d i) ?old = Done (True, iter_at fs d j)" by auto
      from pb_field_iter_find_spec [OF wf j(1), of ?new d] obtain b k where
        k: "k < length fs" "pb_field_iter_find (iter_at fs d j) ?new = Done (b, iter_at fs d k)"
        using j(1) by blast
      show ?thesis
        unfolding pb_release_union_field_def Let_def if_not_P [OF False] j(2) exec_bind.simps
          prod.case rel [OF j(1)] k(2)
        using k(1) by (cases b) auto
    next
      case nf: False
      with find1 have f: "pb_field_iter_find (iter_at fs d i) ?old = Done (False, iter_at fs d i)"
        by blast
      show ?thesis
        unfolding pb_release_union_field_def Let_def if_not_P [OF False] f exec_bind.simps prod.case
        using i by auto
    qed
  qed
qed

definition field_result :: "pb_field list \<Rightarrow> addr \<Rightarrow> addr set \<Rightarrow> pb_istream \<Rightarrow> heap \<Rightarrow>
    (bool \<times> pb_field_iter \<times> pb_istream \<times> heap) exec \<Rightarrow> bool" where
  "field_result fs d A s h r \<longleftrightarrow>
     (\<exists>ok j s' h'. r = Done (ok, iter_at fs d j, s', h') \<and> j < length fs \<and>
        bytes_left s' \<le> bytes_left s \<and> keeps A h h' \<and> (ok \<longrightarrow> bytes_left s' < bytes_left s))"

lemma decode_field_result:
  assumes ok: "static_ok (Suc n) E fs sz" and i: "i < length fs" and d: "0 < d"
    and a: "area d sz \<subseteq> A"
  shows "field_result fs d A s h
    (decode_field (Suc n) E (PB_DECODERS E noinit init) s wt (iter_at fs d i) h)"
proof -
  obtain b j s1 where r: "(if PB_HTYPE (ftype (cur (iter_at fs d i))) = PB_HTYPE_ONEOF
        then pb_release_union_field (Suc n) E s (iter_at fs d i) h
        else Done (True, iter_at fs d i, s, h)) = Done (b, iter_at fs d j, s1, h)"
    and j: "j < length fs" "bytes_left s1 = bytes_left s"
    using release_union [OF ok i, of s d h] i by (cases "PB_HTYPE (ftype (cur (iter_at fs d i))) = PB_HTYPE_ONEOF") auto
  from static_field_safe1 [OF ok j(1) d a, of s1 h wt] obtain ok1 s2 h2 where
    f: "decode_static_field (Suc n) E (PB_DECODERS E noinit init) s1 wt (iter_at fs d j) h = Done (ok1, s2, h2)"
    "bytes_left s2 \<le> bytes_left s" "keeps A h h2" "ok1 \<longrightarrow> bytes_left s2 < bytes_left s"
    unfolding safe1_def j(2) by blast
  have st: "PB_ATYPE (ftype (cur (iter_at fs d j))) = PB_ATYPE_STATIC"
    using static_okD(1,2) [OF ok j(1)] by simp
  show ?thesis
    unfolding decode_field_def r field_result_def
    using f j st by (cases b) (auto simp: Let_def)
qed

definition good_locals :: "pb_field list \<Rightarrow> addr \<Rightarrow> dec_locals \<Rightarrow> bool" where
  "good_locals fs d l \<longleftrightarrow>
     (\<exists>j < length fs. d_iter l = iter_at fs d j) \<and> fixed_count_field l = None"

definition turn_ok :: "pb_field list \<Rightarrow> addr \<Rightarrow> addr set \<Rightarrow> pb_istream \<Rightarrow> heap \<Rightarrow> turn_result \<Rightarrow> bool" where
  "turn_ok fs d A s h r \<longleftrightarrow>
     (\<exists>t s' h' l'. r = Done (t, s', h', l') \<and> bytes_left s' \<le> bytes_left s \<and> keeps A h h' \<and>
        good_locals fs d l' \<and> (t = Continue \<longrightarrow> bytes_left s' < bytes_left s))"

lemma good_mark_seen: "good_locals fs d l \<Longrightarrow> good_locals fs d (mark_seen l)"
  by (simp add: good_locals_def mark_seen_def Let_def)

lemma skip_turn_ok:
  assumes "good_locals fs d l" "bytes_left s1 < bytes_left s" "keeps A h h1"
  shows "turn_ok fs d A s h (skip_turn s1 wt h1 l)"
  using assms skip_field_le [of s1 wt]
  by (fastforce simp: turn_ok_def skip_turn_def split: prod.splits)

lemma no_extension:
  assumes ok: "static_ok (Suc n) E fs sz" and i: "i < length fs"
  shows "find_extension_field (iter_at fs d i) = Done (False, iter_at fs d i)"
proof -
  note wf = static_ok_wf(1) [OF ok]
  have "\<forall>j < length fs. PB_LTYPE (ftype (fs ! j)) \<noteq> PB_LTYPE_EXTENSION"
    using static_ok_kind(1) [OF ok] by blast
  with find_loop_total [OF wf i, of "\<lambda>f. PB_LTYPE (ftype f) = PB_LTYPE_EXTENSION" d]
  show ?thesis
    unfolding find_extension_field_def using iter_at_basic [OF wf i, of d]
    by (auto simp del: find_loop.simps)
qed

lemma decode_turn_ok:
  assumes ok: "static_ok (Suc n) E fs sz" and d: "0 < d" and a: "area d sz \<subseteq> A"
    and l: "good_locals fs d l"
  shows "turn_ok fs d A s h (decode_turn (Suc n) E (PB_DECODERS E noinit init) slot s h l)"
proof -
  note wf = static_ok_wf(1) [OF ok]
  obtain b wt t eof s1 where tag: "pb_decode_tag s = (b, wt, t, eof, s1)" by (metis prod_cases5)
  note le = decode_tag_shrinks [OF tag]
  show ?thesis
  proof (cases b)
    case False
    with tag le l show ?thesis by (auto simp: decode_turn_def turn_ok_def)
  next
    case True
    with le have less: "bytes_left s1 < bytes_left s" by simp
    from l obtain i where i: "i < length fs" "d_iter l = iter_at fs d i" by (auto simp: good_locals_def)
    from pb_field_iter_find_spec [OF wf i(1), of t d] obtain found j where
      f: "pb_field_iter_find (d_iter l) t = Done (found, iter_at fs d j)" and j: "j < length fs"
      using i by auto
    let ?l = "l\<lparr>d_iter := iter_at fs d j\<rparr>"
    have gl: "good_locals fs d ?l" using l j by (auto simp: good_locals_def)
    show ?thesis
    proof (cases found)
      case fd: True
      note D = static_okD [OF ok j]
      have "PB_HTYPE (ftype (cur (d_iter ?l))) \<noteq> PB_HTYPE_REPEATED \<or> pSize (d_iter ?l) \<noteq> pData (d_iter ?l)"
        using D(1) D(5) [where d = d] by auto
      from known_field_plain [OF this]
      have "known_field (Suc n) E (PB_DECODERS E noinit init) slot s1 wt h ?l =
          exec_bind (decode_field (Suc n) E (PB_DECODERS E noinit init) s1 wt (iter_at fs d j) h)
            (\<lambda>(ok, it1, s1, h2).
               Done (if ok then Continue else Return_false, s1, h2, (mark_seen ?l)\<lparr>d_iter := it1\<rparr>))"
        by (simp del: iter_at.simps)
      moreover from decode_field_result [OF ok j d a, of s1 h wt]
      obtain ok2 k s2 h2 where
        "decode_field (Suc n) E (PB_DECODERS E noinit init) s1 wt (iter_at fs d j) h =
           Done (ok2, iter_at fs d k, s2, h2)" "k < length fs" "bytes_left s2 \<le> bytes_left s1" "keeps A h h2"
        unfolding field_result_def by blast
      moreover have "good_locals fs d ((mark_seen ?l)\<lparr>d_iter := iter_at fs d k\<rparr>)" if "k < length fs" for k
        using good_mark_seen [OF gl] that by (auto simp: good_locals_def)
      ultimately show ?thesis
        using tag True f fd less
        by (cases ok2) (auto simp: decode_turn_def turn_ok_def simp del: iter_at.simps)
    next
      case nf: False
      have "turn_ok fs d A s h (unknown_field (Suc n) E (PB_DECODERS E noinit init) s1 t wt h ?l)"
      proof (cases "t < extension_range_start ?l")
        case lt: True
        with skip_turn_ok [OF gl less keeps_refl] show ?thesis by (simp add: unknown_field_def)
      next
        case ge: False
        have g2: "good_locals fs d (?l\<lparr>d_iter := iter_at fs d j, extension_range_start := -1\<rparr>)"
          using l j by (auto simp: good_locals_def)
        have "unknown_field (Suc n) E (PB_DECODERS E noinit init) s1 t wt h ?l =
            skip_turn s1 wt h (?l\<lparr>d_iter := iter_at fs d j, extension_range_start := -1\<rparr>)"
          using ge decode_tag_bound tag True no_extension [OF ok j, of d]
          by (simp add: unknown_field_def del: iter_at.simps)
        with skip_turn_ok [OF g2 less keeps_refl] show ?thesis by (simp only:)
      qed
      then show ?thesis using tag True f nf by (simp add: decode_turn_def)
    qed
  qed
qed

lemma decode_loop_ok:
  assumes ok: "static_ok (Suc n) E fs sz" and d: "0 < d" and a: "area d sz \<subseteq> A"
  shows "good_locals fs d l \<Longrightarrow> unat (bytes_left s) < k \<Longrightarrow>
    \<exists>b s' h' l'. decode_loop k (Suc n) E (PB_DECODERS E noinit init) slot s h l = Done (b, s', h', l') \<and>
      bytes_left s' \<le> bytes_left s \<and> keeps A h h' \<and> good_locals fs d l'"
proof (induction k arbitrary: s h l)
  case 0
  then show ?case by simp
next
  case (Suc k)
  from decode_turn_ok [OF ok d a Suc.prems(1), of s h slot] obtain t s1 h1 l1 where
    t: "decode_turn (Suc n) E (PB_DECODERS E noinit init) slot s h l = Done (t, s1, h1, l1)"
    and r: "bytes_left s1 \<le> bytes_left s" "keeps A h h1" "good_locals fs d l1"
      "t = Continue \<longrightarrow> bytes_left s1 < bytes_left s"
    unfolding turn_ok_def by blast
  show ?case
  proof (cases "bytes_left s = 0 \<or> t \<noteq> Continue")
    case True
    with t r Suc.prems(1) show ?thesis by (cases t) auto
  next
    case False
    then have c: "t = Continue" "bytes_left s \<noteq> 0" by simp_all
    with r(4) Suc.prems(2) have "unat (bytes_left s1) < k" by (simp add: word_less_nat_alt)
    from Suc.IH [OF r(3) this, of h1] r(1,2) t c show ?thesis
      by (auto intro: keeps_trans order_trans)
  qed
qed

lemma decode_message_safe:
  assumes ok: "static_ok (Suc n) E fs sz" and d: "0 < d" and a: "area d sz \<subseteq> A"
  shows "safe A s h (decode_message (Suc n) E (PB_DECODERS E noinit init) slot s fs d h)"
proof -
  let ?l = "\<lparr>d_iter = snd (pb_field_iter_begin fs d), fields_seen = [0, 0],
           extension_range_start = 0, fixed_count_field = None\<rparr>"
  have "0 < length fs" using static_ok_wf(2) [OF ok] by simp
  then have "good_locals fs d ?l" by (auto simp: good_locals_def intro!: exI [of _ 0])
  from decode_loop_ok [OF ok d a this, of s "Suc (unat (bytes_left s))" slot h]
  obtain b s1 h1 l1 where r: "decode_loop (Suc (unat (bytes_left s))) (Suc n) E
        (PB_DECODERS E noinit init) slot s h ?l = Done (b, s1, h1, l1)"
    "bytes_left s1 \<le> bytes_left s" "keeps A h h1" "good_locals fs d l1" by auto
  from r(4) obtain j where j: "j < length fs" "d_iter l1 = iter_at fs d j" "fixed_count_field l1 = None"
    by (auto simp: good_locals_def)
  from check_required_total [OF static_ok_wf(1) [OF ok] j(1)] obtain c where
    "check_required (d_iter l1) (fields_seen l1) = Done c" unfolding j(2) by blast
  then show ?thesis
    using r(2,3) j(3)
    unfolding decode_message_def safe_def r(1)
    by (cases b; cases c) (auto simp add: fixed_count_incomplete_def fail_def)
qed

end

text \<open>\<open>pb_decode\<close> on top of a safe \<open>pb_decode_noinit\<close>; then both by induction on the depth.\<close>

lemma init_decode_safe:
  assumes ok: "static_ok n E fs sz" and a: "area d sz \<subseteq> A"
    and noinit: "\<And>h. safe A s h (noinit s fs d h)"
  shows "safe A s h (init_decode n E noinit s fs d h)"
proof -
  from message_set_to_defaults_ok [OF ok a, of h] obtain h1 where
    h1: "pb_message_set_to_defaults n E fs d h = Done h1" "keeps A h h1" by (auto simp: action_ok_def)
  from noinit [of h1] obtain b s2 h2 where
    r: "noinit s fs d h1 = Done (b, s2, h2)" "bytes_left s2 \<le> bytes_left s" "keeps A h1 h2"
    by (auto simp: safe_def)
  show ?thesis
    using h1 r release_ok [OF ok]
    by (auto simp: init_decode_def safe_def intro: keeps_trans)
qed

lemma pb_decode_noinit_safe:
  "static_ok n E fs sz \<Longrightarrow> 0 < d \<Longrightarrow> area d sz \<subseteq> A \<Longrightarrow> safe A s h (pb_decode_noinit n E s fs d h)"
proof (induction n arbitrary: fs sz d A s h)
  case 0
  then show ?case by simp
next
  case (Suc n)
  have loc: "submessage_decoder n E (pb_decode_noinit n E) (init_decode n E (pb_decode_noinit n E))"
    by unfold_locales (assumption | rule Suc.IH init_decode_safe)+
  show ?case
    using submessage_decoder.decode_message_safe [OF loc Suc.prems] by simp
qed

lemma pb_decode_safe:
  "static_ok n E fs sz \<Longrightarrow> 0 < d \<Longrightarrow> area d sz \<subseteq> A \<Longrightarrow> safe A s h (pb_decode n E s fs d h)"
  unfolding pb_decode_def
  by (rule init_decode_safe) (simp_all add: pb_decode_noinit_safe)

interpretation static_decoder: submessage_decoder n E "pb_decode_noinit n E" "pb_decode n E" for n E
  by unfold_locales (rule pb_decode_noinit_safe pb_decode_safe; assumption)+

end
