(* ===== verification/Pb_Roundtrip.thy ===== *)
theory Pb_Roundtrip
  imports Pb_Encode_Spec Pb_Decode_Total
begin

text \<open>
  Encoding and decoding are inverse. First for the value of a single field: a field decoder
  run on the bytes of the value leaves the value's image in memory and consumes exactly
  those bytes. Then for whole messages of static scalar, bytes and string fields.
\<close>

unbundle bit_operations_syntax

subsection \<open>Narrowing after widening\<close>

lemma ucast_scast_narrow:
  "LENGTH('a) \<le> LENGTH('b) \<Longrightarrow> (ucast (scast (w :: 'a::len word) :: 'b::len word) :: 'a word) = w"
  by (rule bit_word_eqI) (auto simp: bit_simps)

lemma ucast_ucast_narrow:
  "LENGTH('a) \<le> LENGTH('b) \<Longrightarrow> (ucast (ucast (w :: 'a::len word) :: 'b::len word) :: 'a word) = w"
  by (rule bit_word_eqI) (auto simp: bit_simps dest: bit_imp_le_length)

lemma ucast_scast_mid:
  "LENGTH('a) \<le> LENGTH('b) \<Longrightarrow> LENGTH('b) \<le> LENGTH('c) \<Longrightarrow>
     (ucast (scast (w :: 'a::len word) :: 'c::len word) :: 'b::len word) = scast w"
  by (rule bit_word_eqI) (auto simp: bit_simps)

lemma scast_scast_up:
  "LENGTH('a) \<le> LENGTH('b) \<Longrightarrow> LENGTH('b) \<le> LENGTH('c) \<Longrightarrow>
     (scast (scast (w :: 'a::len word) :: 'b::len word) :: 'c::len word) = scast w"
  by (rule bit_word_eqI) (auto simp: bit_simps min_def)

subsection \<open>Stores and loads\<close>

lemma wr_bytes_append:
  "wr_bytes (wr_bytes m a xs) (a + int (length xs)) ys = wr_bytes m a (xs @ ys)"
  by (induction xs arbitrary: m a) (simp_all flip: add.assoc)

lemma wr_rd16: "wr16 m d (rd16 m0 a) = wr_bytes m d (rd_bytes m0 a 2)"
  and wr_rd32: "wr32 m d (rd32 m0 a) = wr_bytes m d (rd_bytes m0 a 4)"
  and wr_rd64: "wr64 m d (rd64 m0 a) = wr_bytes m d (rd_bytes m0 a 8)"
  using le_bytes_le_val [where ?'a = 16, of "rd_bytes m0 a 2"]
    le_bytes_le_val [where ?'a = 32, of "rd_bytes m0 a 4"]
    le_bytes_le_val [where ?'a = 64, of "rd_bytes m0 a 8"]
  by (simp_all add: wr16_def rd16_def wr32_def rd32_def wr64_def rd64_def)

text \<open>A decoded value of \<open>n\<close> bytes is stored back as the bytes it was loaded from.\<close>

definition value_size :: "u32 \<Rightarrow> bool" where
  "value_size n \<longleftrightarrow> n = 1 \<or> n = 2 \<or> n = 4 \<or> n = 8"

lemma load_signed_Some: "load_signed m n a = Some v \<Longrightarrow> value_size n"
  and load_unsigned_Some: "load_unsigned m n a = Some v \<Longrightarrow> value_size n"
  by (auto simp: load_signed_def load_unsigned_def value_size_def split: if_splits)

lemma store_load_signed:
  "load_signed m0 n a = Some v \<Longrightarrow>
     store_signed n d v m = Some (wr_bytes m d (rd_bytes m0 a (unat n)), v)"
  by (auto simp: load_signed_def store_signed_def ucast_scast_narrow wr_rd16 wr_rd32 wr_rd64
      rd_bytes_def split: if_splits)

lemma store_load_unsigned:
  "load_unsigned m0 n a = Some v \<Longrightarrow>
     store_unsigned n d v m = Some (wr_bytes m d (rd_bytes m0 a (unat n)), v)"
  by (auto simp: load_unsigned_def store_unsigned_def ucast_ucast_narrow wr_rd16 wr_rd32 wr_rd64
      rd_bytes_def split: if_splits)

text \<open>Fields of up to 32 bits are first cut to \<open>int32_t\<close>, which does not change them.\<close>

lemma load_signed_32:
  "load_signed m n a = Some v \<Longrightarrow> n \<noteq> 8 \<Longrightarrow> scast (ucast v :: u32) = v"
  by (auto simp: load_signed_def ucast_scast_mid scast_scast_up split: if_splits)

subsection \<open>The value of a field\<close>

text \<open>
  \<open>value_image f m a\<close>: what the decoder writes for the value at \<open>a\<close>. It is the value's own
  bytes: all of a scalar or a fixed-length array, the used part of a bytes array or string.
\<close>

definition value_length :: "pb_field \<Rightarrow> mem \<Rightarrow> addr \<Rightarrow> nat" where
  "value_length f m a =
     (let lt = PB_LTYPE (ftype f) in
      if lt = PB_LTYPE_BYTES then 4 + unat (rd32 m a)
      else if lt = PB_LTYPE_STRING then Suc (strnlen_loop m a (unat (data_size f)))
      else if lt = PB_LTYPE_FIXED32 then 4
      else if lt = PB_LTYPE_FIXED64 then 8
      else unat (data_size f))"

definition value_image :: "pb_field \<Rightarrow> mem \<Rightarrow> addr \<Rightarrow> u8 list" where
  "value_image f m a = rd_bytes m a (value_length f m a)"

definition value_decodes :: "pb_field \<Rightarrow> (pb_istream \<Rightarrow> heap \<Rightarrow> dres) \<Rightarrow> u8 list \<Rightarrow> addr \<Rightarrow> u8 list \<Rightarrow> bool" where
  "value_decodes f func bs dest img \<longleftrightarrow>
     (\<forall>s h. at_buffer bs s \<longrightarrow>
        func s h = Done (True, advance (length bs) s, upd h (\<lambda>m. wr_bytes m dest img)))"

lemma store_clamped_eq:
  "st (hmem h) = Some (m, v) \<Longrightarrow> store_clamped st v s h = Done (True, s, h\<lparr>hmem := m\<rparr>)"
  by (simp add: store_clamped_def)

lemma decodes_varint:
  assumes "load_signed m (data_size f) a = Some v"
  shows "value_decodes f (\<lambda>s h. pb_dec_varint s f dest h) (vbytes (unat v)) dest
           (rd_bytes m a (unat (data_size f)))"
proof -
  have sv: "(if data_size f = 8 then v else scast (ucast v :: u32)) = v"
    using load_signed_32 [OF assms] by simp
  show ?thesis
    using store_load_signed [OF assms, of dest]
    by (simp add: value_decodes_def pb_dec_varint_def parsesD [OF parses_varint] sv Let_def
        store_clamped_eq upd_def)
qed

lemma decodes_uvarint:
  assumes "load_unsigned m (data_size f) a = Some v"
  shows "value_decodes f (\<lambda>s h. pb_dec_uvarint s f dest h) (vbytes (unat v)) dest
           (rd_bytes m a (unat (data_size f)))"
  using store_load_unsigned [OF assms, of dest]
  by (simp add: value_decodes_def pb_dec_uvarint_def parsesD [OF parses_varint] store_clamped_eq upd_def)

lemma decodes_svarint:
  assumes "load_signed m (data_size f) a = Some v"
  shows "value_decodes f (\<lambda>s h. pb_dec_svarint s f dest h) (vbytes (unat (zigzag v))) dest
           (rd_bytes m a (unat (data_size f)))"
  using store_load_signed [OF assms, of dest]
  by (simp add: value_decodes_def pb_dec_svarint_def parsesD [OF parses_svarint] store_clamped_eq upd_def)

lemma decodes_fixed32:
  "value_decodes f (\<lambda>s h. pb_dec_fixed32 s f dest h) (rd_bytes m a 4) dest (rd_bytes m a 4)"
  using wr_rd32 by (simp add: value_decodes_def pb_dec_fixed32_def parsesD [OF parses_fixed32 [of "rd_bytes m a 4", simplified]] rd32_def)

lemma decodes_fixed64:
  "value_decodes f (\<lambda>s h. pb_dec_fixed64 s f dest h) (rd_bytes m a 8) dest (rd_bytes m a 8)"
  using wr_rd64 by (simp add: value_decodes_def pb_dec_fixed64_def parsesD [OF parses_fixed64 [of "rd_bytes m a 8", simplified]] rd64_def)

text \<open>Length-delimited values: the length, then \<open>pb_read\<close> into memory.\<close>

lemma ucast_of_nat_u32:
  assumes "n < 2 ^ 32"
  shows "(ucast (of_nat n :: u32) :: u64) = of_nat n" "unat (of_nat n :: u32) = n"
proof -
  show u: "unat (of_nat n :: u32) = n" using assms by (simp add: unat_of_nat)
  show "(ucast (of_nat n :: u32) :: u64) = of_nat n" by (subst ucast_eq_of_nat) (simp only: u)
qed

lemma prefixed_read:
  assumes at: "at_buffer (vbytes (length bs) @ bs) s" and l: "length bs < 2 ^ 32"
  shows "pb_decode_varint32 s = (Some (of_nat (length bs)), advance (length (vbytes (length bs))) s)"
    and "read_into (advance (length (vbytes (length bs))) s) d (of_nat (length bs)) h =
           (True, advance (length (vbytes (length bs) @ bs)) s, upd h (\<lambda>m. wr_bytes m d bs))"
proof -
  from at have a: "at_buffer (vbytes (length bs)) s"
    "at_buffer bs (advance (length (vbytes (length bs))) s)" by (simp_all add: at_buffer_append)
  then show "pb_decode_varint32 s = (Some (of_nat (length bs)), advance (length (vbytes (length bs))) s)"
    using parsesD [OF parses_varint32 [of "of_nat (length bs)"]] ucast_of_nat_u32(2) [OF l] by simp
  have "length bs < 2 ^ 64" using l by simp
  from parsesD [OF parses_read [OF this] a(2)]
  show "read_into (advance (length (vbytes (length bs))) s) d (of_nat (length bs)) h =
           (True, advance (length (vbytes (length bs) @ bs)) s, upd h (\<lambda>m. wr_bytes m d bs))"
    by (simp add: read_into_def)
qed

lemma decodes_bytes:
  assumes st: "PB_ATYPE (ftype f) = PB_ATYPE_STATIC" and sz: "unat n + 4 \<le> unat (data_size f)"
    and n: "rd32 m a = n"
  shows "value_decodes f (\<lambda>s h. pb_dec_bytes s f dest h)
           (vbytes (unat n) @ rd_bytes m (a + 4) (unat n)) dest (rd_bytes m a (4 + unat n))"
  unfolding value_decodes_def
proof (intro allI impI)
  fix s h assume at: "at_buffer (vbytes (unat n) @ rd_bytes m (a + 4) (unat n)) s"
  let ?bs = "rd_bytes m (a + 4) (unat n)"
  have l: "length ?bs < 2 ^ 32" using unsigned_less [of n, where ?'a = nat] by simp
  note r = prefixed_read [OF _ l, of s, simplified length_rd_bytes, OF at]
  have un: "(of_nat (unat n) :: u64) = ucast n" by (rule ucast_eq_of_nat [symmetric])
  have nn: "(of_nat (unat n) :: u32) = n" by simp
  have al: "\<not> ucast (data_size f) < PB_BYTES_ARRAY_T_ALLOCSIZE (ucast n)"
  proof -
    have "int (unat n) + 4 \<le> int (unat (data_size f))" using sz by linarith
    then have "uint n + 4 \<le> uint (data_size f)" by simp
    then show ?thesis by (simp add: word_less_def bytes_allocsize uint_ucast_u32)
  qed
  have al2: "\<not> PB_BYTES_ARRAY_T_ALLOCSIZE (ucast n) < ucast n" "\<not> PB_SIZE_MAX < n"
    by (simp_all add: word_less_def bytes_allocsize uint_ucast_u32 PB_SIZE_MAX_def)
       (simp add: not_less word_le_def [symmetric])
  have img: "wr_bytes (wr32 m0 dest n) (dest + 4) ?bs = wr_bytes m0 dest (rd_bytes m a (4 + unat n))" for m0
  proof -
    have "rd_bytes m a (4 + unat n) = rd_bytes m a 4 @ ?bs"
      by (rule nth_equalityI) (auto simp: nth_append add.assoc)
    then show ?thesis
      using wr_rd32 [of m0 dest m a] wr_bytes_append [of m0 dest "rd_bytes m a 4" ?bs] n by simp
  qed
  show "pb_dec_bytes s f dest h =
      Done (True, advance (length (vbytes (unat n) @ ?bs)) s, upd h (\<lambda>m0. wr_bytes m0 dest (rd_bytes m a (4 + unat n))))"
    unfolding pb_dec_bytes_def r(1) prod.case option.case Let_def nn
    using r(2) [of "dest + 4" "upd h (\<lambda>m. wr32 m dest n)", unfolded un] st al al2
    by (simp add: upd_def img)
qed

lemma strnlen_stop: "strnlen_loop m p k < k \<Longrightarrow> m (p + int (strnlen_loop m p k)) = 0"
proof (induction k arbitrary: p)
  case 0
  then show ?case by simp
next
  case (Suc k)
  show ?case
  proof (cases "m p = 0")
    case False
    with Suc.prems have "strnlen_loop m (p + 1) k < k" by simp
    from Suc.IH [OF this] False show ?thesis by (simp add: add.assoc)
  qed simp
qed

lemma strnlen_le: "strnlen_loop m p k \<le> k"
  by (induction k arbitrary: p) simp_all

lemma decodes_string:
  fixes f :: pb_field and m :: mem and a :: addr
  defines "n \<equiv> strnlen_loop m a (unat (data_size f))"
  assumes st: "PB_ATYPE (ftype f) = PB_ATYPE_STATIC" and n: "n < unat (data_size f)"
  shows "value_decodes f (\<lambda>s h. pb_dec_string s f dest h)
           (vbytes n @ rd_bytes m a n) dest (rd_bytes m a (Suc n))"
  unfolding value_decodes_def
proof (intro allI impI)
  fix s h assume at: "at_buffer (vbytes n @ rd_bytes m a n) s"
  let ?bs = "rd_bytes m a n" and ?n = "of_nat n :: u32"
  have l: "n < 2 ^ 32" "Suc n < 2 ^ 32"
    using n unsigned_less [of "data_size f", where ?'a = nat] by simp_all
  note r = prefixed_read [of ?bs s, simplified length_rd_bytes, OF at l(1)]
  note u = ucast_of_nat_u32 [OF l(1)] ucast_of_nat_u32 [OF l(2)]
  have s1: "?n + 1 = of_nat (Suc n)" by simp
  have al: "\<not> ucast (data_size f) < (of_nat (Suc n) :: u64)" "\<not> (of_nat (Suc n) :: u64) < of_nat n"
  proof -
    have "unat (ucast (data_size f) :: u64) = unat (data_size f)"
      by (simp add: unsigned_ucast_eq take_bit_nat_eq_self unsigned_less [THEN less_le_trans])
    with n l show "\<not> ucast (data_size f) < (of_nat (Suc n) :: u64)"
      by (simp add: word_less_nat_alt unat_of_nat del: of_nat_Suc)
    show "\<not> (of_nat (Suc n) :: u64) < of_nat n"
      using l by (simp add: word_less_nat_alt unat_of_nat del: of_nat_Suc)
  qed
  have un: "uint ?n = int n" using u(2) by (metis uint_nat)
  have img: "(wr_bytes m0 dest ?bs)(dest + int n := 0) = wr_bytes m0 dest (rd_bytes m a (Suc n))" for m0
    using strnlen_stop [of m a "unat (data_size f)"] n wr_bytes_append [of m0 dest ?bs "[0]"]
    by (simp add: rd_bytes_snoc n_def)
  show "pb_dec_string s f dest h =
      Done (True, advance (length (vbytes n @ ?bs)) s, upd h (\<lambda>m0. wr_bytes m0 dest (rd_bytes m a (Suc n))))"
    unfolding pb_dec_string_def r(1) prod.case option.case Let_def s1 u un if_not_P [OF al(2)]
      if_not_P [OF al(1)]
    using r(2) [of dest h] st by (simp add: upd_def img)
qed

lemma decodes_fixed_length:
  "value_decodes f (\<lambda>s h. pb_dec_fixed_length_bytes s f dest h)
     (vbytes (unat (data_size f)) @ rd_bytes m a (unat (data_size f))) dest
     (rd_bytes m a (unat (data_size f)))"
  unfolding value_decodes_def
proof (intro allI impI)
  let ?n = "data_size f"
  fix s h assume at: "at_buffer (vbytes (unat ?n) @ rd_bytes m a (unat ?n)) s"
  have l: "unat ?n < 2 ^ 32" using unsigned_less [of ?n, where ?'a = nat] by simp
  note r = prefixed_read [of "rd_bytes m a (unat ?n)" s, simplified length_rd_bytes, OF at l]
  have un: "(of_nat (unat ?n) :: u64) = ucast ?n" by (rule ucast_eq_of_nat [symmetric])
  have nn: "(of_nat (unat ?n) :: u32) = ?n" by simp
  have mx: "\<not> PB_SIZE_MAX < ?n" by (simp add: PB_SIZE_MAX_def not_less)
  show "pb_dec_fixed_length_bytes s f dest h =
      Done (True, advance (length (vbytes (unat ?n) @ rd_bytes m a (unat ?n))) s,
            upd h (\<lambda>m0. wr_bytes m0 dest (rd_bytes m a (unat ?n))))"
    unfolding pb_dec_fixed_length_bytes_def r(1) prod.case option.case nn if_not_P [OF mx]
    using r(2) [of dest h, unfolded un]
    by (cases "?n = 0") (simp_all add: memset0_def upd_def)
qed

lemma value_decodes_cong:
  "value_decodes f g bs dest img \<Longrightarrow> (\<And>s h. g' s h = g s h) \<Longrightarrow> bs' = bs \<Longrightarrow> img' = img \<Longrightarrow>
     value_decodes f g' bs' dest img'"
  by (simp add: value_decodes_def)

lemma value_roundtrip:
  assumes v: "value_bytes E m msg f a = Some bs" and st: "PB_ATYPE (ftype f) = PB_ATYPE_STATIC"
    and nz: "a \<noteq> 0" "dest \<noteq> 0" and ns: "PB_LTYPE (ftype f) \<noteq> PB_LTYPE_SUBMESSAGE"
    and str: "PB_LTYPE (ftype f) = PB_LTYPE_STRING \<Longrightarrow>
                strnlen_loop m a (unat (data_size f)) < unat (data_size f)"
  shows "value_decodes f (\<lambda>s h. PB_DECODERS F noinit init (PB_LTYPE (ftype f)) s f dest h) bs dest
           (value_image f m a)"
proof -
  let ?lt = "PB_LTYPE (ftype f)"
  note d = PB_DECODERS_def value_image_def value_length_def Let_def
  consider (varint) v where "?lt = PB_LTYPE_VARINT" "load_signed m (data_size f) a = Some v" "bs = vbytes (unat v)"
    | (uvarint) v where "?lt = PB_LTYPE_UVARINT" "load_unsigned m (data_size f) a = Some v" "bs = vbytes (unat v)"
    | (svarint) v where "?lt = PB_LTYPE_SVARINT" "load_signed m (data_size f) a = Some v" "bs = vbytes (unat (zigzag v))"
    | (fixed32) "?lt = PB_LTYPE_FIXED32" "bs = rd_bytes m a 4"
    | (fixed64) "?lt = PB_LTYPE_FIXED64" "bs = rd_bytes m a 8"
    | (bytes) "?lt = PB_LTYPE_BYTES" "unat (rd32 m a) + 4 \<le> unat (data_size f)"
        "bs = vbytes (unat (rd32 m a)) @ rd_bytes m (a + 4) (unat (rd32 m a))"
    | (string) "?lt = PB_LTYPE_STRING"
        "bs = vbytes (strnlen_loop m a (unat (data_size f))) @ rd_bytes m a (strnlen_loop m a (unat (data_size f)))"
    | (fixedlen) "?lt = PB_LTYPE_FIXED_LENGTH_BYTES"
        "bs = vbytes (unat (data_size f)) @ rd_bytes m a (unat (data_size f))"
    using v st nz(1) ns
    by (auto simp: value_bytes_def length_prefixed_def Let_def not_less split: if_splits)
  then show ?thesis
  proof cases
    case varint
    then show ?thesis
      using nz(2) by (intro value_decodes_cong [OF decodes_varint]) (simp_all add: d pb_codes)
  next
    case uvarint
    then show ?thesis
      using nz(2) by (intro value_decodes_cong [OF decodes_uvarint]) (simp_all add: d pb_codes)
  next
    case svarint
    then show ?thesis
      using nz(2) by (intro value_decodes_cong [OF decodes_svarint]) (simp_all add: d pb_codes)
  next
    case fixed32
    then show ?thesis
      using nz(2) by (intro value_decodes_cong [OF decodes_fixed32]) (simp_all add: d pb_codes)
  next
    case fixed64
    then show ?thesis
      using nz(2) by (intro value_decodes_cong [OF decodes_fixed64]) (simp_all add: d pb_codes)
  next
    case bytes
    then show ?thesis
      using nz(2) by (intro value_decodes_cong [OF decodes_bytes [OF st bytes(2) refl]]) (simp_all add: d pb_codes)
  next
    case string
    then show ?thesis
      using nz(2) by (intro value_decodes_cong [OF decodes_string [OF st str]]) (simp_all add: d pb_codes)
  next
    case fixedlen
    then show ?thesis
      using nz(2) by (intro value_decodes_cong [OF decodes_fixed_length]) (simp_all add: d pb_codes)
  qed
qed

text \<open>A value is skipped by the wire type its field is written with.\<close>

lemma value_skipped:
  assumes v: "value_bytes E m msg f a = Some bs" and wt: "field_wire_type (PB_LTYPE (ftype f)) = Some wt"
    and l: "length bs < 2 ^ 32"
  shows "consumes (\<lambda>s. pb_skip_field s wt) bs"
proof -
  have pre: "consumes (\<lambda>s. pb_skip_field s PB_WT_STRING) cs" if "length_prefixed x = Some cs" "length cs < 2 ^ 32" for x cs
    using that consumes_skip_field_string [of x] by (auto simp: length_prefixed_def split: if_splits)
  show ?thesis
    using v wt l pre consumes_skip_field_varint consumes_skip_fixed
    unfolding field_wire_type_def value_bytes_def Let_def
    by (auto simp: pb_codes bind_eq_Some_conv split: if_splits field_ptr.splits)
qed

end
