(* ===== verification/Pb_Message_Roundtrip.thy ===== *)
theory Pb_Message_Roundtrip
  imports Pb_Roundtrip
begin

text \<open>
  Decoding the bytes of a whole message. \<open>plain_message\<close> admits messages of required and
  optional static fields with scalar, bytes, string or fixed-length values, whose members do
  not overlap. The decoder takes the fields in the order they were written, marks the
  required ones, and leaves every member as it was at the source.
\<close>

unbundle bit_operations_syntax

subsection \<open>Plain messages\<close>

definition is_optional :: "pb_field \<Rightarrow> bool" where
  "is_optional f = (PB_HTYPE (ftype f) = PB_HTYPE_OPTIONAL)"

definition plain_field :: "pb_field \<Rightarrow> bool" where
  "plain_field f \<longleftrightarrow>
     static_value f \<and> PB_ATYPE (ftype f) = PB_ATYPE_STATIC \<and> unat (tag f) < 2 ^ 29 \<and>
     (is_required f \<or> is_optional f \<and> size_offset f \<noteq> 0)"

text \<open>The bytes of the structure that belong to field \<open>i\<close>.\<close>

definition region :: "pb_field list \<Rightarrow> addr \<Rightarrow> nat \<Rightarrow> addr set" where
  "region fs d i =
     area (pData (iter_at fs d i)) (uint (data_size (fs ! i))) \<union>
     (if is_optional (fs ! i) then {pSize (iter_at fs d i)} else {})"

definition plain_message :: "pb_field list \<Rightarrow> bool" where
  "plain_message fs \<longleftrightarrow>
     wf_fields fs \<and> fs \<noteq> [] \<and> length fs < 2 ^ 32 \<and> distinct (map tag fs) \<and>
     list_all plain_field fs \<and>
     (\<forall>i < length fs. 0 \<le> pData (iter_at fs 0 i) \<and>
        (is_optional (fs ! i) \<longrightarrow>
           pSize (iter_at fs 0 i) \<notin> area (pData (iter_at fs 0 i)) (uint (data_size (fs ! i))))) \<and>
     (\<forall>i < length fs. \<forall>j < length fs. i \<noteq> j \<longrightarrow> region fs 0 i \<inter> region fs 0 j = {})"

definition present :: "pb_field list \<Rightarrow> mem \<Rightarrow> addr \<Rightarrow> nat \<Rightarrow> bool" where
  "present fs m a i \<longleftrightarrow> is_required (fs ! i) \<or> m (pSize (iter_at fs a i)) \<noteq> 0"

definition strings_end :: "pb_field list \<Rightarrow> mem \<Rightarrow> addr \<Rightarrow> bool" where
  "strings_end fs m a \<longleftrightarrow>
     (\<forall>i < length fs. present fs m a i \<and> PB_LTYPE (ftype (fs ! i)) = PB_LTYPE_STRING \<longrightarrow>
        strnlen_loop m (pData (iter_at fs a i)) (unat (data_size (fs ! i)))
          < unat (data_size (fs ! i)))"

lemma plain_messageD:
  assumes "plain_message fs"
  shows "wf_fields fs" "fs \<noteq> []" "length fs < 2 ^ 32" "distinct (map tag fs)"
    "i < length fs \<Longrightarrow> plain_field (fs ! i)"
  using assms by (simp_all add: plain_message_def list_all_length)

lemma region_shift:
  assumes "wf_fields fs" "i < length fs"
  shows "p \<in> region fs d i \<longleftrightarrow> p - d \<in> region fs 0 i"
  using iter_at_shift [OF assms, of d] by (auto simp: region_def area_def)

lemma region_disjoint:
  assumes "plain_message fs" "i < length fs" "j < length fs" "i \<noteq> j"
  shows "region fs d i \<inter> region fs d j = {}"
proof -
  have "region fs 0 i \<inter> region fs 0 j = {}" using assms by (simp add: plain_message_def)
  then show ?thesis
    using region_shift [OF plain_messageD(1) [OF assms(1)] assms(2), of _ d]
      region_shift [OF plain_messageD(1) [OF assms(1)] assms(3), of _ d] by blast
qed

lemma flag_outside:
  assumes "plain_message fs" "i < length fs" "is_optional (fs ! i)"
  shows "pSize (iter_at fs d i) \<notin> area (pData (iter_at fs d i)) (uint (data_size (fs ! i)))"
proof -
  have "pSize (iter_at fs 0 i) \<notin> area (pData (iter_at fs 0 i)) (uint (data_size (fs ! i)))"
    using assms by (simp add: plain_message_def)
  then show ?thesis
    using iter_at_shift [OF plain_messageD(1) [OF assms(1)] assms(2), of d] by (simp add: area_def)
qed

lemma pData_pos:
  assumes "plain_message fs" "i < length fs" "0 < d"
  shows "0 < pData (iter_at fs d i)"
proof -
  have "0 \<le> pData (iter_at fs 0 i)" using assms(1,2) by (simp add: plain_message_def)
  then show ?thesis
    using iter_at_shift [OF plain_messageD(1) [OF assms(1)] assms(2), of d] assms(3) by simp
qed

text \<open>Without unions the companion member is at its own offset from the data.\<close>

lemma pSize_plain:
  assumes p: "plain_message fs" and i: "i < length fs"
  shows "pSize (iter_at fs d i) = pData (iter_at fs d i) + sint (size_offset (fs ! i))"
proof (cases i)
  case 0
  then show ?thesis using i by (simp add: pb_field_iter_begin_def Let_def)
next
  case (Suc k)
  have "\<not> union_step (fs ! k) (fs ! Suc k)"
    using plain_messageD(5) [OF p, of k] i Suc
    by (auto simp: union_step_def plain_field_def is_required_def is_optional_def)
  then show ?thesis
    using iter_at_Suc(3) [OF plain_messageD(1) [OF p], of k d] i Suc by (simp del: iter_at.simps)
qed

lemma flag_differs:
  assumes "plain_message fs" "i < length fs" "is_optional (fs ! i)"
  shows "pSize (iter_at fs d i) \<noteq> pData (iter_at fs d i)"
proof -
  have "size_offset (fs ! i) \<noteq> 0"
    using plain_messageD(5) [OF assms(1,2)] assms(3)
    by (auto simp: plain_field_def is_required_def is_optional_def)
  then have "sint (size_offset (fs ! i)) \<noteq> 0" by (simp only: signed_eq_0_iff simp_thms)
  then show ?thesis using pSize_plain [OF assms(1,2), of d] by simp
qed

subsection \<open>The bytes of a field\<close>

lemma plain_field_bytes:
  assumes p: "plain_message fs" and i: "i < length fs"
    and b: "field_bytes n E m msg (fs ! i) (pData (iter_at fs a i)) = Some bs"
  shows "present fs m a i \<Longrightarrow> \<exists>(wt :: pb_wire_type_t) v. unat wt < 8 \<and> bs = vbytes (8 * unat (tag (fs ! i)) + unat wt) @ v \<and>
             value_bytes E m msg (fs ! i) (pData (iter_at fs a i)) = Some v"
    and "\<not> present fs m a i \<Longrightarrow> bs = []"
proof -
  let ?f = "fs ! i" and ?a = "pData (iter_at fs a i)"
  have pf: "plain_field ?f" by (rule plain_messageD(5) [OF p i])
  then have st: "PB_ATYPE (ftype ?f) = PB_ATYPE_STATIC" by (simp add: plain_field_def)
  have ps: "?a + sint (size_offset ?f) = pSize (iter_at fs a i)" by (simp add: pSize_plain [OF p i])
  have "bs = [] \<or> cat_opts [wire_tag ?f, value_bytes E m msg ?f ?a] = Some bs \<and> present fs m a i"
    and np: "\<not> present fs m a i \<Longrightarrow> bs = []"
    and pr: "present fs m a i \<Longrightarrow> cat_opts [wire_tag ?f, value_bytes E m msg ?f ?a] = Some bs"
    using b pf st ps
    by (auto simp: field_bytes_def basic_field_bytes_def Let_def plain_field_def present_def
        is_required_def is_optional_def split: if_splits)
  show "bs = []" if "\<not> present fs m a i" using that by (rule np)
  show "\<exists>(wt :: pb_wire_type_t) v. unat wt < 8 \<and> bs = vbytes (8 * unat (tag ?f) + unat wt) @ v \<and>
             value_bytes E m msg ?f ?a = Some v" if "present fs m a i"
  proof -
    from pr [OF that] obtain t v where t: "wire_tag ?f = Some t"
      and v: "value_bytes E m msg ?f ?a = Some v" "bs = t @ v"
      by (auto simp: cat_opts_Some_Cons)
    from t obtain wt where wt: "field_wire_type (PB_LTYPE (ftype ?f)) = Some wt"
      "t = vbytes (8 * unat (tag ?f) + unat wt)" by (auto simp: wire_tag_def)
    then have "unat wt < 8" by (auto simp: field_wire_type_def wt_defs split: if_splits)
    with wt v show ?thesis by (intro exI [of _ wt] exI [of _ v]) simp
  qed
qed

subsection \<open>Marking required fields\<close>

text \<open>\<open>fields_seen\<close> after the first \<open>c\<close> required fields.\<close>

definition seen_words :: "nat \<Rightarrow> u32 list" where
  "seen_words c = [mask (min c 32), mask (c - 32)]"

lemma mask_Suc: "mask n OR 2 ^ n = (mask (Suc n) :: 'a::len word)"
  by (rule bit_word_eqI) (auto simp: bit_simps)

lemma mask_32: "(mask 32 :: u32) = -1"
  by (rule bit_word_eqI) (simp add: bit_simps)

lemma seen_words_Suc:
  "c < 64 \<Longrightarrow> (seen_words c)[c div 32 := seen_words c ! (c div 32) OR push_bit (c mod 32) 1] = seen_words (Suc c)"
proof (cases "c < 32")
  case True
  then show ?thesis by (simp add: seen_words_def min_def mask_Suc)
next
  case False
  assume "c < 64"
  with False have "c div 32 = 1" "c mod 32 = c - 32" "min c 32 = 32" "min (Suc c) 32 = 32" "Suc c - 32 = Suc (c - 32)"
    by (simp_all add: div_nat_eqI le_mod_geq)
  then show ?thesis by (simp add: seen_words_def mask_Suc)
qed

lemma all_seen: "c \<le> 64 \<Longrightarrow> all_required_seen (seen_words c) c"
proof -
  assume c: "c \<le> 64"
  have m: "drop_bit (32 - k) (-1) = (mask k :: u32)" if "k < 32" for k
    using that by (intro bit_word_eqI) (auto simp: bit_simps)
  consider "c < 32" | "c = 32" | "32 < c \<and> c < 64" | "c = 64" using c by linarith
  then show ?thesis
  proof cases
    case 1
    then show ?thesis by (simp add: all_required_seen_def seen_words_def m)
  next
    case 2
    then show ?thesis by (simp add: all_required_seen_def seen_words_def mask_32)
  next
    case 3
    then have "c div 32 = 1" "c mod 32 = c - 32" by (auto simp: div_nat_eqI le_mod_geq)
    with 3 m [of "c - 32"] show ?thesis
      by (simp add: all_required_seen_def seen_words_def mask_32 min_def)
  next
    case 4
    then show ?thesis by (simp add: all_required_seen_def seen_words_def mask_32 upt_rec)
  qed
qed

subsection \<open>One field\<close>

definition field_written :: "pb_field list \<Rightarrow> mem \<Rightarrow> addr \<Rightarrow> addr \<Rightarrow> nat \<Rightarrow> heap \<Rightarrow> heap" where
  "field_written fs m a d i h =
     upd (if is_optional (fs ! i) then upd h (\<lambda>m'. m'(pSize (iter_at fs d i) := 1)) else h)
       (\<lambda>m'. wr_bytes m' (pData (iter_at fs d i)) (value_image (fs ! i) m (pData (iter_at fs a i))))"

lemma find_tag:
  assumes p: "plain_message fs" and i: "i < length fs" and j: "j < length fs"
  shows "pb_field_iter_find (iter_at fs d j) (tag (fs ! i)) = Done (True, iter_at fs d i)"
proof -
  have "PB_LTYPE (ftype (fs ! i)) \<noteq> PB_LTYPE_EXTENSION"
    using plain_messageD(5) [OF p i] static_value_ltype by (auto simp: plain_field_def)
  moreover have "k = i" if "k < length fs" "tag (fs ! k) = tag (fs ! i)" for k
    using plain_messageD(4) [OF p] that i by (auto simp: distinct_conv_nth)
  ultimately show ?thesis
    using pb_field_iter_find_spec [OF plain_messageD(1) [OF p] j, of "tag (fs ! i)" d] i by force
qed

lemma plain_turn:
  assumes p: "plain_message fs" and i: "i < length fs" and pos: "0 < a" "0 < d"
    and pr: "present fs m a i" and se: "strings_end fs m a"
    and b: "field_bytes n E m msg (fs ! i) (pData (iter_at fs a i)) = Some bs"
    and at: "at_buffer bs s" and j: "j < length fs" "d_iter l = iter_at fs d j"
  shows "decode_turn k F (PB_DECODERS F noinit init) slot s h l =
           Done (Continue, advance (length bs) s, field_written fs m a d i h,
                 mark_seen (l\<lparr>d_iter := iter_at fs d i\<rparr>))"
proof -
  let ?f = "fs ! i" and ?it = "iter_at fs d i"
  have pf: "plain_field ?f" by (rule plain_messageD(5) [OF p i])
  have c: "cur ?it = ?f" by (rule cur_iter_at [OF plain_messageD(1) [OF p] i])
  from plain_field_bytes(1) [OF p i b pr] obtain wt v where
    wt: "unat (wt :: pb_wire_type_t) < 8" and bs: "bs = vbytes (8 * unat (tag ?f) + unat wt) @ v"
    and v: "value_bytes E m msg ?f (pData (iter_at fs a i)) = Some v" by blast
  let ?t = "vbytes (8 * unat (tag ?f) + unat wt)"
  from at bs have at': "at_buffer ?t s" "at_buffer v (advance (length ?t) s)"
    by (simp_all add: at_buffer_append)
  have tg: "unat (tag ?f) < 2 ^ 29" "unat (tag ?f) \<noteq> 0"
    using pf wf_fields_tag [OF plain_messageD(1) [OF p] i] by (simp_all add: plain_field_def unat_eq_zero)
  have nz: "8 * unat (tag ?f) + unat wt \<noteq> 0" using tg(2) by simp
  note dt = decode_tag_wire [OF wt tg(1) nz at'(1)]
  have "strnlen_loop m (pData (iter_at fs a i)) (unat (data_size ?f)) < unat (data_size ?f)"
    if "PB_LTYPE (ftype ?f) = PB_LTYPE_STRING"
    using se pr i that by (simp add: strings_end_def)
  with v pf pData_pos [OF p i pos(1)] pData_pos [OF p i pos(2)]
  have dec: "value_decodes ?f (\<lambda>s h. PB_DECODERS F noinit init (PB_LTYPE (ftype ?f)) s ?f (pData ?it) h)
      v (pData ?it) (value_image ?f m (pData (iter_at fs a i)))"
    using static_value_ltype [of ?f]
    by (intro value_roundtrip [where E = E and msg = msg]) (auto simp: plain_field_def)
  have "decode_field k F (PB_DECODERS F noinit init) (advance (length ?t) s) wt ?it h =
      Done (True, ?it, advance (length bs) s, field_written fs m a d i h)"
    using dec at'(2) pf c flag_differs [OF p i, of d]
    by (auto simp: decode_field_def decode_static_field_def Let_def field_written_def value_decodes_def
        plain_field_def is_required_def is_optional_def bs)
  moreover have "PB_HTYPE (ftype (cur ?it)) \<noteq> PB_HTYPE_REPEATED"
    using pf c by (auto simp: plain_field_def is_required_def is_optional_def)
  ultimately show ?thesis
    unfolding decode_turn_def dt prod.case j(2) find_tag [OF p i j(1)] exec_bind.simps
    using known_field_plain [of "l\<lparr>d_iter := ?it\<rparr>"]
    by (simp add: mark_seen_def Let_def del: iter_at.simps)
qed

subsection \<open>All fields\<close>

definition req_before :: "pb_field list \<Rightarrow> nat \<Rightarrow> nat" where
  "req_before fs i = length (filter is_required (take i fs))"

definition written :: "pb_field list \<Rightarrow> mem \<Rightarrow> addr \<Rightarrow> addr \<Rightarrow> nat list \<Rightarrow> heap \<Rightarrow> heap" where
  "written fs m a d is h =
     fold (\<lambda>i h. if present fs m a i then field_written fs m a d i h else h) is h"

lemma req_before_Suc:
  "i < length fs \<Longrightarrow> req_before fs (Suc i) = req_before fs i + (if is_required (fs ! i) then 1 else 0)"
  by (simp add: req_before_def take_Suc_conv_app_nth)

lemma mark_seen_words:
  assumes p: "plain_message fs" and i: "i < length fs" and l: "d_iter l = iter_at fs d i"
    and s: "fields_seen l = seen_words (min (req_before fs i) 64)"
  shows "fields_seen (mark_seen l) = seen_words (min (req_before fs (Suc i)) 64)"
proof -
  let ?r = "req_before fs i"
  have "?r \<le> length (take i fs)" unfolding req_before_def by (rule length_filter_le)
  also have "\<dots> < 2 ^ 32" using i plain_messageD(3) [OF p] by simp
  finally have u: "unat (required_field_index (iter_at fs d i)) = ?r"
    using required_index_iter_at [OF plain_messageD(1) [OF p] i, of d]
    by (simp add: req_before_def unat_of_nat)
  have c: "cur (iter_at fs d i) = fs ! i" by (rule cur_iter_at [OF plain_messageD(1) [OF p] i])
  show ?thesis
  proof (cases "is_required (fs ! i) \<and> ?r < 64")
    case True
    with s have "fields_seen l = seen_words ?r" by simp
    with True seen_words_Suc [of ?r] show ?thesis
      by (simp add: mark_seen_def Let_def l u c is_required_def PB_MAX_REQUIRED_FIELDS_def
          req_before_Suc [OF i] del: iter_at.simps)
  next
    case False
    with s show ?thesis
      by (auto simp: mark_seen_def Let_def l u c is_required_def PB_MAX_REQUIRED_FIELDS_def
          req_before_Suc [OF i] simp del: iter_at.simps)
  qed
qed

lemma unat_left_advance:
  "n \<le> unat (bytes_left s) \<Longrightarrow> unat (bytes_left (advance n s)) = unat (bytes_left s) - n"
  by (simp add: stream_simps unat_minus_of_nat)

lemma plain_loop:
  assumes p: "plain_message fs" and pos: "0 < a" "0 < d" and se: "strings_end fs m a"
  shows "i \<le> length fs \<Longrightarrow>
    cat_opts (map (\<lambda>j. field_bytes n E m msg (fs ! j) (pData (iter_at fs a j))) [i..<length fs]) = Some bs \<Longrightarrow>
    at_buffer bs s \<Longrightarrow> unat (bytes_left s) = length bs \<Longrightarrow> length bs < k \<Longrightarrow>
    j < length fs \<Longrightarrow> d_iter l = iter_at fs d j \<Longrightarrow> fixed_count_field l = None \<Longrightarrow>
    fields_seen l = seen_words (min (req_before fs i) 64) \<Longrightarrow>
    \<exists>s' l' j'. decode_loop k K F (PB_DECODERS F noinit init) slot s h l =
        Done (True, s', written fs m a d [i..<length fs] h, l') \<and> bytes_left s' = 0 \<and>
        j' < length fs \<and> d_iter l' = iter_at fs d j' \<and> fixed_count_field l' = None \<and>
        fields_seen l' = seen_words (min (required_count fs) 64)"
proof (induction "length fs - i" arbitrary: i bs s k j l h)
  case 0
  then have "i = length fs" by simp
  with 0 have "bytes_left s = 0" "0 < k" "req_before fs i = required_count fs"
    by (simp_all add: unat_eq_zero req_before_def required_count_def)
  with 0 \<open>i = length fs\<close> show ?case
    by (cases k) (auto simp: written_def)
next
  case (Suc r)
  then have i: "i < length fs" and r: "r = length fs - Suc i" by simp_all
  have "[i..<length fs] = i # [Suc i..<length fs]" using i by (simp add: upt_conv_Cons)
  with Suc.prems(2) obtain b rest where b: "field_bytes n E m msg (fs ! i) (pData (iter_at fs a i)) = Some b"
    and rest: "cat_opts (map (\<lambda>j. field_bytes n E m msg (fs ! j) (pData (iter_at fs a j))) [Suc i..<length fs]) = Some rest"
    and bs: "bs = b @ rest"
    and w: "written fs m a d [i..<length fs] h = written fs m a d [Suc i..<length fs]
        (if present fs m a i then field_written fs m a d i h else h)"
    by (auto simp: cat_opts_Some_Cons written_def simp del: iter_at.simps)
  show ?case
  proof (cases "present fs m a i")
    case False
    then have "b = []" by (rule plain_field_bytes(2) [OF p i b])
    moreover have "req_before fs (Suc i) = req_before fs i"
      using False by (simp add: req_before_Suc [OF i] present_def)
    ultimately show ?thesis
      using Suc.hyps(1) [OF r _ rest, of s k j l h] Suc.prems i bs False w by simp
  next
    case True
    from plain_field_bytes(1) [OF p i b True] have nb: "0 < length b" by auto
    have bl: "unat (bytes_left s) = length b + length rest" "length b + length rest < k"
      using Suc.prems(4,5) bs by simp_all
    then obtain k' where k: "k = Suc k'" by (cases k) simp_all
    have k': "length rest < k'" using bl(2) nb unfolding k by linarith
    have ne: "bytes_left s \<noteq> 0"
    proof
      assume "bytes_left s = 0"
      with bl(1) nb show False by simp
    qed
    have at: "at_buffer b s" "at_buffer rest (advance (length b) s)"
      using Suc.prems(3) bs by (simp_all add: at_buffer_append)
    let ?l = "mark_seen (l\<lparr>d_iter := iter_at fs d i\<rparr>)"
    have turn: "decode_turn K F (PB_DECODERS F noinit init) slot s h l =
        Done (Continue, advance (length b) s, field_written fs m a d i h, ?l)"
      by (rule plain_turn [OF p i pos True se b at(1) Suc.prems(6,7)])
    have left: "unat (bytes_left (advance (length b) s)) = length rest"
      using Suc.prems(4) bs by (simp add: unat_left_advance)
    have l': "d_iter ?l = iter_at fs d i" "fixed_count_field ?l = None"
      using Suc.prems(8) by (simp_all add: mark_seen_def Let_def del: iter_at.simps)
    have seen: "fields_seen ?l = seen_words (min (req_before fs (Suc i)) 64)"
      by (rule mark_seen_words [OF p i]) (use Suc.prems(9) in simp_all)
    from Suc.hyps(1) [OF r _ rest at(2) left k' i l' seen, of "field_written fs m a d i h"] i
    show ?thesis
      unfolding w k using turn ne True by simp
  qed
qed

lemma region_field_written:
  assumes p: "plain_message fs" and i: "i < length fs"
    and len: "length (value_image (fs ! i) m (pData (iter_at fs a i))) \<le> unat (data_size (fs ! i))"
  shows "keeps (region fs d i) h (field_written fs m a d i h)"
proof -
  let ?img = "value_image (fs ! i) m (pData (iter_at fs a i))"
  let ?h = "if is_optional (fs ! i) then upd h (\<lambda>m'. m'(pSize (iter_at fs d i) := 1)) else h"
  have "keeps (region fs d i) h ?h" by (auto simp: region_def intro: keeps_byte)
  moreover have "int (length ?img) \<le> int (unat (data_size (fs ! i)))"
    using len by (simp only: of_nat_le_iff)
  then have "area (pData (iter_at fs d i)) (int (length ?img)) \<subseteq> region fs d i"
    by (auto simp: region_def area_def)
  then have "keeps (region fs d i) ?h (field_written fs m a d i h)"
    unfolding field_written_def by (rule keeps_wr_bytes)
  ultimately show ?thesis by (rule keeps_trans)
qed

definition image_fits :: "pb_field list \<Rightarrow> mem \<Rightarrow> addr \<Rightarrow> nat \<Rightarrow> bool" where
  "image_fits fs m a i \<longleftrightarrow>
     (present fs m a i \<longrightarrow>
        length (value_image (fs ! i) m (pData (iter_at fs a i))) \<le> unat (data_size (fs ! i)))"

lemma field_image_fits:
  assumes p: "plain_message fs" and i: "i < length fs" and se: "strings_end fs m a" and pos: "0 < a"
    and b: "field_bytes n E m msg (fs ! i) (pData (iter_at fs a i)) = Some bs"
  shows "image_fits fs m a i"
  unfolding image_fits_def
proof
  assume pr: "present fs m a i"
  have pf: "plain_field (fs ! i)" by (rule plain_messageD(5) [OF p i])
  from plain_field_bytes(1) [OF p i b pr] obtain v where
    v: "value_bytes E m msg (fs ! i) (pData (iter_at fs a i)) = Some v" by blast
  have "4 \<le> data_size (fs ! i) \<Longrightarrow> 4 \<le> unat (data_size (fs ! i))"
    "8 \<le> data_size (fs ! i) \<Longrightarrow> 8 \<le> unat (data_size (fs ! i))"
    by (simp_all add: word_le_nat_alt)
  then show "length (value_image (fs ! i) m (pData (iter_at fs a i))) \<le> unat (data_size (fs ! i))"
    using pf v pData_pos [OF p i pos] se pr i
    unfolding value_image_def length_rd_bytes value_length_def Let_def plain_field_def static_value_def
    by (auto simp: value_bytes_def Let_def strings_end_def pb_codes split: if_splits)
qed

text \<open>Writing other fields leaves a field alone.\<close>

lemma written_keeps:
  assumes p: "plain_message fs" and fit: "\<forall>j \<in> set is. j < length fs \<and> image_fits fs m a j"
    and i: "i < length fs" "i \<notin> set is" and q: "q \<in> region fs d i"
  shows "hmem (written fs m a d is h) q = hmem h q"
  using fit i(2)
proof (induction "is" arbitrary: h)
  case Nil
  then show ?case by (simp add: written_def)
next
  case (Cons j js)
  then have j: "j < length fs" "image_fits fs m a j" "j \<noteq> i" by simp_all
  let ?h = "if present fs m a j then field_written fs m a d j h else h"
  have "q \<notin> region fs d j" using region_disjoint [OF p i(1) j(1), of d] j(3) q by blast
  then have "hmem ?h q = hmem h q"
    using region_field_written [OF p j(1), of m a d h] j(2) by (auto simp: keeps_def image_fits_def)
  with Cons show ?case by (simp add: written_def)
qed

lemma written_field:
  fixes d :: addr and h :: heap
  assumes p: "plain_message fs" and fit: "\<forall>j < length fs. image_fits fs m a j"
    and i: "i < length fs" and pr: "present fs m a i"
  defines "h' \<equiv> written fs m a d [0..<length fs] h" and "q \<equiv> pData (iter_at fs d i)"
  shows "rd_bytes (hmem h') q (value_length (fs ! i) m (pData (iter_at fs a i))) =
           value_image (fs ! i) m (pData (iter_at fs a i))"
    and "is_optional (fs ! i) \<Longrightarrow> hmem h' (pSize (iter_at fs d i)) = 1"
proof -
  let ?img = "value_image (fs ! i) m (pData (iter_at fs a i))"
  let ?n = "value_length (fs ! i) m (pData (iter_at fs a i))"
  have split: "[0..<length fs] = [0..<i] @ i # [Suc i..<length fs]"
    using i upt_add_eq_append [of 0 i "length fs - i"] by (simp add: upt_conv_Cons)
  let ?h0 = "written fs m a d [0..<i] h"
  have w: "h' = written fs m a d [Suc i..<length fs] (field_written fs m a d i ?h0)"
    unfolding h'_def split using pr by (simp add: written_def)
  have keep: "hmem h' r = hmem (field_written fs m a d i ?h0) r" if "r \<in> region fs d i" for r
    unfolding w by (rule written_keeps [OF p _ i _ that]) (use fit in auto)
  have len: "length ?img = ?n" "?n \<le> unat (data_size (fs ! i))"
    using fit i pr by (auto simp: image_fits_def value_image_def)
  have sub: "r \<in> region fs d i" if "q \<le> r" "r < q + int ?n" for r
  proof -
    have "int ?n \<le> int (unat (data_size (fs ! i)))" using len(2) by (simp only: of_nat_le_iff)
    with that show ?thesis by (auto simp: region_def area_def q_def)
  qed
  have "rd_bytes (hmem h') q ?n = rd_bytes (hmem (field_written fs m a d i ?h0)) q ?n"
    by (rule rd_bytes_cong) (use keep sub in blast)
  also have "\<dots> = ?img"
    using rd_wr_same [of _ q ?img] len(1) by (simp add: field_written_def upd_def q_def)
  finally show "rd_bytes (hmem h') q ?n = ?img" .
  assume o: "is_optional (fs ! i)"
  have ps: "pSize (iter_at fs d i) \<notin> area q (uint (data_size (fs ! i)))"
    using flag_outside [OF p i o, of d] by (simp add: q_def)
  have "int ?n \<le> int (unat (data_size (fs ! i)))" using len(2) by (simp only: of_nat_le_iff)
  with ps have "pSize (iter_at fs d i) < q \<or> q + int (length ?img) \<le> pSize (iter_at fs d i)"
    unfolding len(1) by (auto simp: area_def)
  then have "hmem (field_written fs m a d i ?h0) (pSize (iter_at fs d i)) = 1"
    using o by (simp add: field_written_def upd_def q_def [symmetric] wr_bytes_other)
  then show "hmem h' (pSize (iter_at fs d i)) = 1"
    using keep [of "pSize (iter_at fs d i)"] o by (simp add: region_def)
qed

lemma written_absent:
  assumes p: "plain_message fs" and fit: "\<forall>j < length fs. image_fits fs m a j"
    and i: "i < length fs" and np: "\<not> present fs m a i" and q: "q \<in> region fs d i"
  shows "hmem (written fs m a d [0..<length fs] h) q = hmem h q"
proof -
  have split: "[0..<length fs] = [0..<i] @ i # [Suc i..<length fs]"
    using i upt_add_eq_append [of 0 i "length fs - i"] by (simp add: upt_conv_Cons)
  have "written fs m a d [0..<length fs] h =
      written fs m a d [Suc i..<length fs] (written fs m a d [0..<i] h)"
    unfolding split using np by (simp add: written_def)
  then show ?thesis
    using written_keeps [OF p _ i _ q, of "[Suc i..<length fs]" m a "written fs m a d [0..<i] h"]
      written_keeps [OF p _ i _ q, of "[0..<i]" m a h] fit i by simp
qed

subsection \<open>Messages\<close>

lemma plain_not_extension:
  "plain_message fs \<Longrightarrow> i < length fs \<Longrightarrow> PB_LTYPE (ftype (fs ! i)) \<noteq> PB_LTYPE_EXTENSION"
  using plain_messageD(5) static_value_ltype by (auto simp: plain_field_def)

lemma plain_message_bytes:
  assumes p: "plain_message fs" and b: "message_bytes (Suc n) E m fs a = Some bs"
  shows "cat_opts (map (\<lambda>j. field_bytes n E m (message_bytes n E m) (fs ! j) (pData (iter_at fs a j)))
           [0..<length fs]) = Some bs"
proof -
  have "map (\<lambda>i. let f = fs ! i; p = pData (iter_at fs a i) in
        if PB_LTYPE (ftype f) = PB_LTYPE_EXTENSION
        then extension_bytes (Suc n) n E m (message_bytes n E m) (rdptr m p)
        else field_bytes n E m (message_bytes n E m) f p) [0..<length fs] =
      map (\<lambda>j. field_bytes n E m (message_bytes n E m) (fs ! j) (pData (iter_at fs a j))) [0..<length fs]"
    by (rule map_cong [OF refl]) (simp add: plain_not_extension [OF p] Let_def del: iter_at.simps)
  with b plain_messageD(1) [OF p] show ?thesis
    by (simp add: message_bytes_step_def)
qed

lemma cat_opts_Some_mem: "cat_opts xs = Some bs \<Longrightarrow> x \<in> set xs \<Longrightarrow> \<exists>b. x = Some b"
  by (induction xs arbitrary: bs) (auto simp: cat_opts_Some_Cons)

lemma plain_image_fits:
  assumes p: "plain_message fs" and b: "message_bytes (Suc n) E m fs a = Some bs"
    and se: "strings_end fs m a" and pos: "0 < a"
  shows "\<forall>i < length fs. image_fits fs m a i"
proof (intro allI impI)
  fix i assume i: "i < length fs"
  then have "field_bytes n E m (message_bytes n E m) (fs ! i) (pData (iter_at fs a i)) \<in>
      set (map (\<lambda>j. field_bytes n E m (message_bytes n E m) (fs ! j) (pData (iter_at fs a j))) [0..<length fs])"
    by (auto simp del: iter_at.simps)
  from cat_opts_Some_mem [OF plain_message_bytes [OF p b] this] obtain b where
    "field_bytes n E m (message_bytes n E m) (fs ! i) (pData (iter_at fs a i)) = Some b" by blast
  from field_image_fits [OF p i se pos this] show "image_fits fs m a i" .
qed

lemma plain_noinit:
  assumes p: "plain_message fs" and pos: "0 < a" "0 < d" and se: "strings_end fs m a"
    and b: "message_bytes (Suc n) E m fs a = Some bs"
    and s: "at_buffer bs s" "unat (bytes_left s) = length bs"
  shows "\<exists>s'. pb_decode_noinit (Suc k) F s fs d h =
              Done (True, s', written fs m a d [0..<length fs] h) \<and> bytes_left s' = 0"
proof -
  let ?l = "\<lparr>d_iter = snd (pb_field_iter_begin fs d), fields_seen = [0, 0],
             extension_range_start = 0, fixed_count_field = None\<rparr>"
  note wf = plain_messageD(1) [OF p]
  have len: "0 < length fs" using plain_messageD(2) [OF p] by simp
  have seen: "fields_seen ?l = seen_words (min (req_before fs 0) 64)"
    by (simp add: seen_words_def req_before_def)
  have "length bs < Suc (unat (bytes_left s))" using s(2) by simp
  from plain_loop [OF p pos se le0 plain_message_bytes [OF p b] s this len _ _ seen,
      where K = "Suc k" and F = F and noinit = "pb_decode_noinit k F"
      and init = "init_decode k F (pb_decode_noinit k F)" and slot = "frame_slot F k" and h = h]
  obtain s' l' j' where loop: "decode_loop (Suc (unat (bytes_left s))) (Suc k) F
        (PB_DECODERS F (pb_decode_noinit k F) (init_decode k F (pb_decode_noinit k F)))
        (frame_slot F k) s h ?l = Done (True, s', written fs m a d [0..<length fs] h, l')"
    and l': "bytes_left s' = 0" "j' < length fs" "d_iter l' = iter_at fs d j'"
      "fixed_count_field l' = None" "fields_seen l' = seen_words (min (required_count fs) 64)"
    by auto
  have "check_required (d_iter l') (fields_seen l') = Done True"
    using check_required_spec [OF wf l'(2) plain_messageD(3) [OF p], of d] all_seen
    unfolding l'(3,5) PB_MAX_REQUIRED_FIELDS_def by simp
  then show ?thesis
    unfolding pb_decode_noinit.simps decode_message_def loop
    using l'(1,4) by (simp add: fixed_count_incomplete_def)
qed

lemma plain_default:
  assumes p: "plain_message fs" and i: "i < length fs"
  shows "\<exists>h'. pb_field_set_to_default (Suc k) F (iter_at fs d i) h = Done h' \<and>
              keeps (region fs d i) h h' \<and>
              (is_optional (fs ! i) \<longrightarrow> hmem h' (pSize (iter_at fs d i)) = 0)"
proof -
  let ?it = "iter_at fs d i" and ?f = "fs ! i"
  have pf: "plain_field ?f" by (rule plain_messageD(5) [OF p i])
  have c: "cur ?it = ?f" by (rule cur_iter_at [OF plain_messageD(1) [OF p] i])
  let ?A = "area (pData ?it) (uint (data_size ?f))"
  have sv: "static_value ?f" using pf by (simp add: plain_field_def)
  have def_ok: "action_ok ?A h (set_static_default msg F ?it h)" for h msg
    by (rule static_default_ok [OF c order_refl disjI1 [OF sv]])
  note ext = plain_not_extension [OF p i]
  show ?thesis
  proof (cases "is_optional ?f")
    case False
    with pf have "PB_HTYPE (ftype ?f) = PB_HTYPE_REQUIRED" "PB_ATYPE (ftype ?f) = PB_ATYPE_STATIC"
      by (auto simp: plain_field_def is_required_def)
    then have "pb_field_set_to_default (Suc k) F ?it h =
        set_static_default (each_field (pb_field_set_to_default k F)) F ?it h"
      using c ext by (simp add: Let_def)
    with def_ok [of h "each_field (pb_field_set_to_default k F)"] False show ?thesis
      by (auto simp: action_ok_def region_def)
  next
    case True
    let ?h = "upd h (\<lambda>m. m(pSize ?it := 0))"
    have "PB_HTYPE (ftype ?f) = PB_HTYPE_OPTIONAL" "PB_ATYPE (ftype ?f) = PB_ATYPE_STATIC"
      using True pf by (auto simp: plain_field_def is_optional_def)
    then have "pb_field_set_to_default (Suc k) F ?it h =
        set_static_default (each_field (pb_field_set_to_default k F)) F ?it ?h"
      using c ext flag_differs [OF p i True, of d] by (simp add: Let_def)
    moreover from def_ok [of ?h "each_field (pb_field_set_to_default k F)"] obtain h' where
      h': "set_static_default (each_field (pb_field_set_to_default k F)) F ?it ?h = Done h'" "keeps ?A ?h h'"
      by (auto simp: action_ok_def)
    moreover have "hmem h' (pSize ?it) = 0"
      using h'(2) flag_outside [OF p i True, of d] by (simp add: keeps_def upd_def)
    moreover have "keeps (region fs d i) h ?h" "keeps (region fs d i) ?h h'"
      using True h'(2) by (auto simp: region_def intro: keeps_byte keeps_mono)
    ultimately show ?thesis by (auto intro: keeps_trans)
  qed
qed

lemma plain_defaults:
  assumes p: "plain_message fs"
  shows "\<exists>h'. pb_message_set_to_defaults (Suc k) F fs d h = Done h' \<and>
              (\<forall>i < length fs. is_optional (fs ! i) \<longrightarrow> hmem h' (pSize (iter_at fs d i)) = 0)"
proof -
  let ?g = "\<lambda>i h. exec_bind (pb_field_set_to_default (Suc k) F (iter_at fs d i) h) (\<lambda>h1. Done (True, h1))"
  let ?ok = "\<lambda>j h. \<forall>i < j. is_optional (fs ! i) \<longrightarrow> hmem h (pSize (iter_at fs d i)) = 0"
  have "\<exists>h'. seq_upto ?g j r h = Done (True, h') \<and> ?ok (length fs) h'"
    if "j + r = length fs" "?ok j h" for j r h
    using that
  proof (induction r arbitrary: j h)
    case 0
    then show ?case by simp
  next
    case (Suc r)
    then have j: "j < length fs" by simp
    from plain_default [OF p j, of k F d h] obtain h1 where
      h1: "pb_field_set_to_default (Suc k) F (iter_at fs d j) h = Done h1" "keeps (region fs d j) h h1"
        "is_optional (fs ! j) \<longrightarrow> hmem h1 (pSize (iter_at fs d j)) = 0" by blast
    have "hmem h1 (pSize (iter_at fs d i)) = 0" if "i < j" "is_optional (fs ! i)" for i
    proof -
      have "pSize (iter_at fs d i) \<in> region fs d i" using that by (simp add: region_def)
      moreover have "region fs d i \<inter> region fs d j = {}"
        using region_disjoint [OF p _ j, of i] that(1) j by simp
      ultimately have "pSize (iter_at fs d i) \<notin> region fs d j" by blast
      then have "hmem h1 (pSize (iter_at fs d i)) = hmem h (pSize (iter_at fs d i))"
        using h1(2) unfolding keeps_def by blast
      then show ?thesis using Suc.prems(2) that by (simp del: iter_at.simps)
    qed
    with h1(3) have "?ok (Suc j) h1" by (simp add: less_Suc_eq del: iter_at.simps) 
    moreover have "Suc j + r = length fs" using Suc.prems(1) by simp
    ultimately show ?case using Suc.IH [of "Suc j" h1] h1(1) by simp
  qed
  from this [of 0 "length fs" h] show ?thesis
    unfolding pb_message_set_to_defaults_def
      each_field_eq [OF plain_messageD(1) [OF p] plain_messageD(2) [OF p]]
    by auto
qed

text \<open>Every member of the copy at \<open>d\<close> is as it was in the original at \<open>a\<close>.\<close>

definition same_message :: "pb_field list \<Rightarrow> mem \<Rightarrow> addr \<Rightarrow> mem \<Rightarrow> addr \<Rightarrow> bool" where
  "same_message fs m a m' d \<longleftrightarrow>
     (\<forall>i < length fs.
        (let n = value_length (fs ! i) m (pData (iter_at fs a i)) in
         present fs m a i \<longrightarrow>
           rd_bytes m' (pData (iter_at fs d i)) n = rd_bytes m (pData (iter_at fs a i)) n) \<and>
        (present fs m' d i \<longleftrightarrow> present fs m a i))"

lemma written_same:
  assumes p: "plain_message fs" and fit: "\<forall>i < length fs. image_fits fs m a i"
    and h: "\<forall>i < length fs. is_optional (fs ! i) \<longrightarrow> hmem h (pSize (iter_at fs d i)) = 0"
  shows "same_message fs m a (hmem (written fs m a d [0..<length fs] h)) d"
  unfolding same_message_def Let_def
proof (intro allI impI conjI)
  let ?h = "written fs m a d [0..<length fs] h"
  fix i assume i: "i < length fs"
  let ?n = "value_length (fs ! i) m (pData (iter_at fs a i))"
  have pf: "plain_field (fs ! i)" by (rule plain_messageD(5) [OF p i])
  show "rd_bytes (hmem ?h) (pData (iter_at fs d i)) ?n = rd_bytes m (pData (iter_at fs a i)) ?n"
    if "present fs m a i"
    using written_field(1) [OF p fit i that, of d h] by (simp add: value_image_def)
  show "present fs (hmem ?h) d i \<longleftrightarrow> present fs m a i"
  proof (cases "is_optional (fs ! i)")
    case False
    with pf show ?thesis by (simp add: present_def plain_field_def)
  next
    case True
    show ?thesis
    proof (cases "present fs m a i")
      case pr: True
      with written_field(2) [OF p fit i pr True, of d h] show ?thesis by (simp add: present_def)
    next
      case np: False
      have "pSize (iter_at fs d i) \<in> region fs d i" using True by (simp add: region_def)
      from written_absent [OF p fit i np this, of h] h i True np show ?thesis
        by (simp add: present_def del: iter_at.simps)
    qed
  qed
qed

lemma plain_roundtrip:
  assumes p: "plain_message fs" and pos: "0 < a" "0 < d" and se: "strings_end fs m a"
    and b: "message_bytes (Suc n) E m fs a = Some bs" and l: "length bs < 2 ^ 64"
  shows "\<exists>s' h'. pb_decode (Suc k) F (pb_istream_from_buffer bs (of_nat (length bs))) fs d h =
                   Done (True, s', h') \<and>
                 bytes_left s' = 0 \<and> same_message fs m a (hmem h') d"
proof -
  let ?s = "pb_istream_from_buffer bs (of_nat (length bs))"
  have s: "at_buffer bs ?s" "unat (bytes_left ?s) = length bs"
    using l by (simp_all add: at_buffer_def pb_istream_from_buffer_def unat_of_nat)
  from plain_defaults [OF p, of k F d h] obtain h1 where
    h1: "pb_message_set_to_defaults (Suc k) F fs d h = Done h1"
      "\<forall>i < length fs. is_optional (fs ! i) \<longrightarrow> hmem h1 (pSize (iter_at fs d i)) = 0" by blast
  from plain_noinit [OF p pos se b s, of k F h1] obtain s' where
    "pb_decode_noinit (Suc k) F ?s fs d h1 = Done (True, s', written fs m a d [0..<length fs] h1)"
    "bytes_left s' = 0" by blast
  with h1(1) written_same [OF p plain_image_fits [OF p b se pos(1)] h1(2)] show ?thesis
    by (simp add: pb_decode_def init_decode_def del: pb_decode_noinit.simps)
qed

end
