(* ===== verification/Pb_Layout.thy ===== *)
theory Pb_Layout
  imports Pb_Common
begin

text \<open>
  The layout of message structures. A structure is described here as the C compiler sees it, by
  the type and the offset of every member; \<open>descriptors\<close> expands the macros of \<open>pb.h\<close>
  (\<open>PB_FIELD\<close>, \<open>PB_ONEOF_FIELD\<close>, \<open>PB_REPEATED_FIXED_COUNT\<close>) over it, as the generated
  sources do. Nothing in the description is taken from the iterator: the lemmas show that the
  sizes and steps \<open>pb_common.c\<close> computes from the descriptors are those of the structure.
\<close>

subsection \<open>Structures\<close>

text \<open>The type of a member: an object of some size (a scalar, a string or bytes buffer, a
  submessage, a callback structure), an array of \<open>k\<close> elements, or a pointer to elements.\<close>

datatype c_type = Object nat | Array_of nat nat | Pointer_to nat

fun pb_membersize :: "c_type \<Rightarrow> nat" where
  "pb_membersize (Object n) = n"
| "pb_membersize (Array_of n k) = n * k"
| "pb_membersize (Pointer_to n) = 8"

text \<open>\<open>pb_membersize(st, m[0])\<close>, the size of an array element or of what a pointer points to.\<close>

fun elem_membersize :: "c_type \<Rightarrow> nat" where
  "elem_membersize (Object n) = n"
| "elem_membersize (Array_of n k) = n"
| "elem_membersize (Pointer_to n) = n"

definition pb_arraysize :: "c_type \<Rightarrow> nat" where
  "pb_arraysize t = pb_membersize t div elem_membersize t"

text \<open>The macro that describes a member, \<open>rules\<close> and \<open>allocation\<close> pasted together; the members of
  a \<open>oneof\<close> carry the union they belong to.\<close>

datatype field_macro =
  REQUIRED_STATIC | OPTIONAL_STATIC | SINGULAR_STATIC | REPEATED_STATIC | REPEATED_FIXED_COUNT
  | REQUIRED_POINTER | OPTIONAL_POINTER | SINGULAR_POINTER | REPEATED_POINTER
  | REQUIRED_CALLBACK | OPTIONAL_CALLBACK | SINGULAR_CALLBACK | REPEATED_CALLBACK
  | ONEOF_STATIC nat | ONEOF_POINTER nat

text \<open>\<open>companion\<close> is the offset of the \<open>has_\<close>, \<open>_count\<close> or \<open>which_\<close> member that belongs to the field,
  if it has one.\<close>

record member =
  field_tag :: u32
  proto :: proto_type
  macro :: field_macro
  ctype :: c_type
  offset_of :: nat
  companion :: nat
  default_ptr :: field_ptr

fun has_companion :: "field_macro \<Rightarrow> bool" where
  "has_companion OPTIONAL_STATIC = True"
| "has_companion REPEATED_STATIC = True"
| "has_companion REPEATED_POINTER = True"
| "has_companion (ONEOF_STATIC u) = True"
| "has_companion (ONEOF_POINTER u) = True"
| "has_companion _ = False"

definition companion_offset :: "member \<Rightarrow> nat" where
  "companion_offset m = (if has_companion (macro m) then companion m else offset_of m)"

fun union_of :: "field_macro \<Rightarrow> nat option" where
  "union_of (ONEOF_STATIC u) = Some u"
| "union_of (ONEOF_POINTER u) = Some u"
| "union_of _ = None"

definition same_union :: "member \<Rightarrow> member \<Rightarrow> bool" where
  "same_union p m \<longleftrightarrow> union_of (macro p) \<noteq> None \<and> union_of (macro p) = union_of (macro m)"

text \<open>The type a member must have to be declared with a macro.\<close>

fun declared_as :: "field_macro \<Rightarrow> c_type \<Rightarrow> bool" where
  "declared_as REPEATED_STATIC t = (\<exists>n k. t = Array_of n k \<and> 0 < n \<and> 0 < k)"
| "declared_as REPEATED_FIXED_COUNT t = (\<exists>n k. t = Array_of n k \<and> 0 < n \<and> 0 < k)"
| "declared_as REQUIRED_POINTER t = (\<exists>n. t = Pointer_to n)"
| "declared_as OPTIONAL_POINTER t = (\<exists>n. t = Pointer_to n)"
| "declared_as SINGULAR_POINTER t = (\<exists>n. t = Pointer_to n)"
| "declared_as REPEATED_POINTER t = (\<exists>n. t = Pointer_to n)"
| "declared_as (ONEOF_POINTER u) t = (\<exists>n. t = Pointer_to n)"
| "declared_as _ t = (\<exists>n. t = Object n)"

text \<open>What C guarantees of a structure: its members follow one another without overlapping, and the
  members of a union start at the same place. Only the order and the disjointness matter, so any
  alignment and padding is covered.\<close>

definition follows :: "member \<Rightarrow> member \<Rightarrow> bool" where
  "follows p m =
     (if same_union p m then offset_of m = offset_of p \<and> companion m = companion p
      else offset_of p + pb_membersize (ctype p) \<le> offset_of m)"

definition member_ok :: "member \<Rightarrow> bool" where
  "member_ok m \<longleftrightarrow> field_tag m \<noteq> 0 \<and> declared_as (macro m) (ctype m) \<and>
     offset_of m + pb_membersize (ctype m) < 2 ^ 31 \<and> companion m < 2 ^ 31"

definition structure_ok :: "member list \<Rightarrow> bool" where
  "structure_ok ms \<longleftrightarrow> list_all member_ok ms \<and> successively follows ms"

subsection \<open>The descriptors of a structure\<close>

datatype placement = FIRST | OTHER | UNION

fun PB_DATAOFFSET :: "placement \<Rightarrow> member \<Rightarrow> member \<Rightarrow> u32" where
  "PB_DATAOFFSET FIRST m1 m2 = of_nat (offset_of m1)"
| "PB_DATAOFFSET OTHER m1 m2 =
     of_int (int (offset_of m1) - int (offset_of m2) - int (pb_membersize (ctype m2)))"
| "PB_DATAOFFSET UNION m1 m2 = PB_SIZE_MAX"

definition pb_delta :: "nat \<Rightarrow> nat \<Rightarrow> u32" where
  "pb_delta o1 o2 = of_int (int o1 - int o2)"

definition PB_FIELD :: "placement \<Rightarrow> member \<Rightarrow> member \<Rightarrow> pb_field" where
  "PB_FIELD placement m prevfield =
     (let t = field_tag m; lt = PB_LTYPE_MAP (proto m); p = default_ptr m;
          fd = PB_DATAOFFSET placement m prevfield; delta = pb_delta (companion m) (offset_of m);
          sz = of_nat (pb_membersize (ctype m)); esz = of_nat (elem_membersize (ctype m));
          cnt = of_nat (pb_arraysize (ctype m))
      in case macro m of
           REQUIRED_STATIC \<Rightarrow> PB_REQUIRED_STATIC t fd sz lt p
         | OPTIONAL_STATIC \<Rightarrow> PB_OPTIONAL_STATIC t fd delta sz lt p
         | SINGULAR_STATIC \<Rightarrow> PB_SINGULAR_STATIC t fd sz lt p
         | REPEATED_STATIC \<Rightarrow> PB_REPEATED_STATIC t fd delta esz cnt lt p
         | REPEATED_FIXED_COUNT \<Rightarrow> PB_REPEATED_FIXED_COUNT t fd esz cnt lt p
         | REQUIRED_POINTER \<Rightarrow> PB_REQUIRED_POINTER t fd esz lt p
         | OPTIONAL_POINTER \<Rightarrow> PB_OPTIONAL_POINTER t fd esz lt p
         | SINGULAR_POINTER \<Rightarrow> PB_SINGULAR_POINTER t fd esz lt p
         | REPEATED_POINTER \<Rightarrow> PB_REPEATED_POINTER t fd delta esz lt p
         | REQUIRED_CALLBACK \<Rightarrow> PB_REQUIRED_CALLBACK t fd sz lt p
         | OPTIONAL_CALLBACK \<Rightarrow> PB_OPTIONAL_CALLBACK t fd sz lt p
         | SINGULAR_CALLBACK \<Rightarrow> PB_SINGULAR_CALLBACK t fd sz lt p
         | REPEATED_CALLBACK \<Rightarrow> PB_REPEATED_CALLBACK t fd sz lt p
         | ONEOF_STATIC u \<Rightarrow> PB_ONEOF_STATIC t fd delta sz lt p
         | ONEOF_POINTER u \<Rightarrow> PB_ONEOF_POINTER t fd delta esz lt p)"

text \<open>The first field is placed with \<open>FIRST\<close>, the further members of a union with \<open>UNION\<close>, all others
  with \<open>OTHER\<close> after the field before them.\<close>

definition descriptor :: "member list \<Rightarrow> nat \<Rightarrow> pb_field" where
  "descriptor ms i =
     (case i of
        0 \<Rightarrow> PB_FIELD FIRST (ms ! 0) (ms ! 0)
      | Suc j \<Rightarrow> PB_FIELD (if same_union (ms ! j) (ms ! i) then UNION else OTHER) (ms ! i) (ms ! j))"

definition descriptors :: "member list \<Rightarrow> pb_field list" where
  "descriptors ms = map (descriptor ms) [0..<length ms]"

subsection \<open>What a descriptor says of its member\<close>

lemma PB_FIELD_simps [simp]:
  "tag (PB_FIELD pl m p) = field_tag m" "data_offset (PB_FIELD pl m p) = PB_DATAOFFSET pl m p"
  by (simp_all add: PB_FIELD_def Let_def pb_field_macros split: field_macro.split)

lemma ltype_map_high: "PB_LTYPE_MAP t AND 0x30 = 0" "PB_LTYPE_MAP t AND 0xC0 = 0"
  by (cases t; simp add: pb_codes)+

lemma type_parts:
  "PB_HTYPE (a OR PB_LTYPE_MAP t) = a AND 0x30" "PB_ATYPE (a OR PB_LTYPE_MAP t) = a AND 0xC0"
  "PB_HTYPE (a OR b OR PB_LTYPE_MAP t) = (a OR b) AND 0x30"
  "PB_ATYPE (a OR b OR PB_LTYPE_MAP t) = (a OR b) AND 0xC0"
  "PB_HTYPE (PB_LTYPE_MAP t) = 0" "PB_ATYPE (PB_LTYPE_MAP t) = 0"
  by (simp_all add: PB_HTYPE_def PB_ATYPE_def bit.conj_disj_distrib2 ltype_map_high)

lemma PB_FIELD_oneof:
  "PB_HTYPE (ftype (PB_FIELD pl m p)) = PB_HTYPE_ONEOF \<longleftrightarrow> union_of (macro m) \<noteq> None"
  by (cases "macro m") (simp_all add: PB_FIELD_def Let_def pb_field_macros type_parts pb_codes)

lemma uint_of_nat_u32: "n < 2 ^ 31 \<Longrightarrow> uint (of_nat n :: u32) = int n"
  by (simp add: unsigned_of_nat take_bit_nat_eq_self)

text \<open>The step of the iterator over a field is the size of the member in the structure.\<close>

lemma prev_field_size_member:
  assumes "member_ok m"
  shows "prev_field_size (PB_FIELD pl m p) = int (pb_membersize (ctype m))"
proof -
  have d: "declared_as (macro m) (ctype m)" and b: "pb_membersize (ctype m) < 2 ^ 31"
    using assms by (auto simp: member_ok_def)
  have arr: "n < 2 ^ 31 \<and> k < 2 ^ 31" if "ctype m = Array_of n k" "0 < n" "0 < k" for n k
    using b that by (auto intro: le_less_trans [of _ "n * k"])
  show ?thesis
    using d b arr
    by (cases "macro m")
      (auto simp: PB_FIELD_def Let_def pb_field_macros prev_field_size_def type_parts pb_codes
        uint_of_nat_u32 pb_arraysize_def)
qed

lemma size_offset_member:
  assumes "member_ok m"
  shows "int (offset_of m) + sint (size_offset (PB_FIELD pl m p)) = int (companion_offset m)"
proof -
  have "sint (pb_delta (companion m) (offset_of m)) = int (companion m) - int (offset_of m)"
    using assms unfolding pb_delta_def member_ok_def
    by (subst signed_of_int) (auto intro!: signed_take_bit_int_eq_self)
  then show ?thesis
    by (cases "macro m") (simp_all add: PB_FIELD_def Let_def pb_field_macros companion_offset_def)
qed

lemma small_not_PB_SIZE_MAX: "n < 2 ^ 31 \<Longrightarrow> (of_nat n :: u32) \<noteq> PB_SIZE_MAX"
proof
  assume n: "n < 2 ^ 31" and "(of_nat n :: u32) = PB_SIZE_MAX"
  then have "uint (of_nat n :: u32) = uint (- 1 :: u32)" by (simp only: PB_SIZE_MAX_def)
  then have "int n = 2 ^ 32 - 1"
    unfolding uint_of_nat_u32 [OF n] by (simp add: unsigned_minus_1_eq_mask mask_eq_exp_minus_1)
  with n show False by simp
qed

lemma other_offset:
  assumes "member_ok m" "offset_of p + pb_membersize (ctype p) \<le> offset_of m"
  shows "uint (PB_DATAOFFSET OTHER m p) = int (offset_of m) - int (offset_of p) - int (pb_membersize (ctype p))"
    and "PB_DATAOFFSET OTHER m p \<noteq> PB_SIZE_MAX"
proof -
  let ?n = "offset_of m - offset_of p - pb_membersize (ctype p)"
  have e: "PB_DATAOFFSET OTHER m p = of_nat ?n" and n: "?n < 2 ^ 31"
    using assms by (auto simp: member_ok_def of_nat_diff)
  show u: "uint (PB_DATAOFFSET OTHER m p) = int (offset_of m) - int (offset_of p) - int (pb_membersize (ctype p))"
    unfolding e uint_of_nat_u32 [OF n] using assms(2) by simp
  show "PB_DATAOFFSET OTHER m p \<noteq> PB_SIZE_MAX"
    unfolding e by (rule small_not_PB_SIZE_MAX [OF n])
qed

subsection \<open>The iterator follows the structure\<close>

lemma length_descriptors [simp]: "length (descriptors ms) = length ms"
  by (simp add: descriptors_def)

lemma nth_descriptors [simp]: "i < length ms \<Longrightarrow> descriptors ms ! i = descriptor ms i"
  by (simp add: descriptors_def)

lemma descriptor_PB_FIELD: "\<exists>pl p. descriptor ms i = PB_FIELD pl (ms ! i) p"
  by (cases i) (auto simp: descriptor_def)

lemma structure_ok_member: "structure_ok ms \<Longrightarrow> i < length ms \<Longrightarrow> member_ok (ms ! i)"
  by (simp add: structure_ok_def list_all_length)

lemma structure_ok_follows: "structure_ok ms \<Longrightarrow> Suc i < length ms \<Longrightarrow> follows (ms ! i) (ms ! Suc i)"
  by (simp add: structure_ok_def successively_conv_nth)

lemma wf_descriptors: "structure_ok ms \<Longrightarrow> wf_fields (descriptors ms)"
  unfolding wf_fields_def
proof
  fix f assume s: "structure_ok ms" and "f \<in> set (descriptors ms)"
  then obtain i where "i < length ms" "f = descriptor ms i" by (auto simp: descriptors_def)
  with s show "tag f \<noteq> 0"
    using descriptor_PB_FIELD [of ms i] structure_ok_member [OF s] by (auto simp: member_ok_def)
qed

lemma union_step_descriptors:
  assumes "structure_ok ms" "Suc i < length ms"
  shows "union_step (descriptor ms i) (descriptor ms (Suc i)) \<longleftrightarrow> same_union (ms ! i) (ms ! Suc i)"
proof -
  obtain pl p where f: "descriptor ms i = PB_FIELD pl (ms ! i) p" using descriptor_PB_FIELD by blast
  have "follows (ms ! i) (ms ! Suc i)" by (rule structure_ok_follows [OF assms])
  with other_offset(2) [OF structure_ok_member [OF assms], of "ms ! i"] show ?thesis
    unfolding union_step_def f
    by (auto simp: descriptor_def PB_FIELD_oneof follows_def same_union_def)
qed

lemma iter_at_member:
  assumes "structure_ok ms" "i < length ms"
  shows "pData (iter_at (descriptors ms) d i) = d + int (offset_of (ms ! i)) \<and>
         pSize (iter_at (descriptors ms) d i) = d + int (companion_offset (ms ! i))"
  using assms(2)
proof (induction i)
  case 0
  then have m: "member_ok (ms ! 0)" by (rule structure_ok_member [OF assms(1)])
  then have "uint (of_nat (offset_of (ms ! 0)) :: u32) = int (offset_of (ms ! 0))"
    by (intro uint_of_nat_u32) (simp add: member_ok_def)
  with 0 size_offset_member [OF m, of FIRST "ms ! 0"] show ?case
    by (simp add: pb_field_iter_begin_def Let_def descriptor_def)
next
  case (Suc i)
  let ?p = "ms ! i" and ?m = "ms ! Suc i"
  have i: "i < length ms" using Suc.prems by simp
  have m: "member_ok ?p" "member_ok ?m" using structure_ok_member [OF assms(1)] i Suc.prems by blast+
  have fo: "follows ?p ?m" by (rule structure_ok_follows [OF assms(1) Suc.prems])
  have sz: "prev_field_size (descriptor ms i) = int (pb_membersize (ctype ?p))"
    using descriptor_PB_FIELD [of ms i] prev_field_size_member [OF m(1)] by auto
  have len: "Suc i < length (descriptors ms)" using Suc.prems by simp
  have so: "int (offset_of ?m) + sint (size_offset (descriptor ms (Suc i))) = int (companion_offset ?m)"
    using descriptor_PB_FIELD [of ms "Suc i"] size_offset_member [OF m(2)] by auto
  note step = iter_at_Suc(2,3) [OF wf_descriptors [OF assms(1)] len, of d,
      unfolded nth_descriptors [OF i] nth_descriptors [OF Suc.prems]
        union_step_descriptors [OF assms(1) Suc.prems] sz]
  show ?case
  proof (cases "same_union ?p ?m")
    case True
    then have "has_companion (macro ?p)" "has_companion (macro ?m)"
      unfolding same_union_def by (cases "macro ?p"; cases "macro ?m"; simp)+
    with True fo Suc.IH [OF i] show ?thesis
      unfolding step by (simp add: follows_def companion_offset_def)
  next
    case False
    then have "uint (data_offset (descriptor ms (Suc i))) =
        int (offset_of ?m) - int (offset_of ?p) - int (pb_membersize (ctype ?p))"
      using fo other_offset(1) [OF m(2)] by (simp add: descriptor_def follows_def)
    with False so Suc.IH [OF i] show ?thesis unfolding step by simp
  qed
qed

end
