(* ===== verification/Pb_Example.thy ===== *)
theory Pb_Example
  imports Pb_Message_Roundtrip Pb_Layout
begin

text \<open>
  A small program on which the general theorems are instantiated: the message
  \<open>struct { int32_t id; bool has_note; char note[8]; }\<close> with a required and an optional
  field, a submessage-carrying message, and concrete contents in memory.
\<close>

definition ex_fields :: "pb_field list" where
  "ex_fields =
     [PB_REQUIRED_STATIC 1 0 4 PB_LTYPE_VARINT Ptr_null,
      PB_OPTIONAL_STATIC 2 1 (-1) 8 PB_LTYPE_STRING Ptr_null]"

definition ex_outer :: "pb_field list" where
  "ex_outer =
     [PB_REQUIRED_STATIC 3 0 16 PB_LTYPE_SUBMESSAGE (Ptr_submsg 0),
      PB_REPEATED_STATIC 4 4 (-4) 4 3 PB_LTYPE_UVARINT Ptr_null]"

definition ex_env :: pb_env where
  "ex_env =
     \<lparr>msg_desc = (\<lambda>i. if i = 0 then ex_fields else ex_outer),
      encode_cb = (\<lambda>_ _ _ _ _. Undefined), decode_cb = (\<lambda>_ _ _ _ _. Undefined),
      ext_type = (\<lambda>_. \<lparr>ext_decode = None, ext_encode = None, ext_arg = PB_LAST_FIELD\<rparr>),
      frame_slot = (\<lambda>_. 4096)\<rparr>"

text \<open>\<open>{ id = 150, has_note = true, note = "hi" }\<close> at address 100.\<close>

definition ex_mem :: mem where
  "ex_mem = (\<lambda>p. if p = 100 then 150 else if p = 104 then 1 else if p = 105 then 104
                 else if p = 106 then 105 else 0)"

lemmas ex_defs = ex_fields_def ex_outer_def pb_field_macros

lemmas eval_iter = pb_field_iter_begin_def pb_field_iter_next_def cur_def fld_def Let_def
  prev_field_size_def pb_codes pb_type_defs PB_SIZE_MAX_def

lemma ex_iter_at:
  "pData (iter_at ex_fields d 0) = d" "pData (iter_at ex_fields d (Suc 0)) = d + 5"
  by (simp_all add: ex_defs eval_iter)

text \<open>Evaluation of memory reads and varints at concrete arguments.\<close>

lemma rd_bytes_numeral:
  "rd_bytes m a (numeral k) = m a # rd_bytes m (a + 1) (pred_numeral k)"
  by (simp add: numeral_eq_Suc rd_bytes_Suc)

lemma vbytes_numeral:
  "vbytes 0 = [0]" "vbytes (Suc 0) = [1]"
  "vbytes (numeral k) = (if (numeral k :: nat) < 128 then [numeral k]
     else of_nat (numeral k mod 128 + 128) # vbytes (numeral k div 128))"
  by (subst vbytes.simps; simp)+

lemma vbytes_small: "n < 128 \<Longrightarrow> vbytes n = [of_nat n]"
  by (subst vbytes.simps) simp

lemma strnlen_loop_numeral:
  "strnlen_loop m p (numeral k) =
     (if m p \<noteq> 0 then Suc (strnlen_loop m (p + 1) (pred_numeral k)) else 0)"
  by (simp add: numeral_eq_Suc)

lemmas eval_mem = rd32_def rd16_def rd64_def rdptr_def rd_bytes_numeral rd_bytes_Suc le_val.simps

lemmas eval_encode = field_bytes_def basic_field_bytes_def wire_tag_def field_wire_type_def
  value_bytes_def load_signed_def load_unsigned_def wt_defs length_prefixed_def array_bytes_def
  cat_opts_Some_Cons vbytes_numeral vbytes_small strnlen_loop_numeral

lemma ex_id_bytes: "field_bytes 0 ex_env ex_mem msg (ex_fields ! 0) 100 = Some [8, 150, 1]"
  by (simp add: eval_encode ex_defs eval_iter ex_mem_def eval_mem)

lemma ex_note_bytes:
  "field_bytes 0 ex_env ex_mem msg (ex_fields ! Suc 0) 105 = Some [18, 2, 104, 105]"
  by (simp add: eval_encode ex_defs eval_iter ex_mem_def eval_mem)

lemma ex_message_bytes:
  "message_bytes 1 ex_env ex_mem ex_fields 100 = Some [8, 150, 1, 18, 2, 104, 105]"
proof -
  have "wf_fields ex_fields" "[0..<length ex_fields] = [0, Suc 0]"
    "PB_LTYPE (ftype (ex_fields ! 0)) \<noteq> PB_LTYPE_EXTENSION"
    "PB_LTYPE (ftype (ex_fields ! Suc 0)) \<noteq> PB_LTYPE_EXTENSION"
    by (simp_all add: wf_fields_def ex_defs upt_rec eval_iter)
  then show ?thesis
    by (simp add: message_bytes_step_def ex_iter_at ex_id_bytes ex_note_bytes Let_def
        One_nat_def del: iter_at.simps)
qed

lemma ex_outer_iter_at:
  "pData (iter_at ex_outer d 0) = d" "pData (iter_at ex_outer d (Suc 0)) = d + 20"
  by (simp_all add: ex_defs eval_iter)

text \<open>The outer message at address 100: the message above, a count of 2 and \<open>{5, 300}\<close>.\<close>

definition ex_mem_outer :: mem where
  "ex_mem_outer = (\<lambda>p. if p = 116 then 2 else if p = 120 then 5 else if p = 124 then 44
                      else if p = 125 then 1 else ex_mem p)"

lemma ex_fields_static_ok: "static_ok (Suc 0) ex_env ex_fields 16"
  by (simp add: static_place_def static_value_def ex_defs ex_env_def eval_iter
      wf_fields_def less_Suc_eq)

lemma ex_outer_static_ok: "static_ok (Suc (Suc 0)) ex_env ex_outer 32"
proof -
  have i: "i < length ex_outer \<longleftrightarrow> i = 0 \<or> i = Suc 0" for i
    by (auto simp: ex_outer_def)
  have sub: "ptr (ex_outer ! 0) = Ptr_submsg 0" "msg_desc ex_env 0 = ex_fields"
    "data_size (ex_outer ! 0) = 16" "PB_LTYPE (ftype (ex_outer ! 0)) = PB_LTYPE_SUBMESSAGE"
    by (simp_all add: ex_outer_def pb_field_macros ex_env_def pb_type_defs)
  have "static_place (ex_outer ! 0) (iter_at ex_outer 0 0) 32"
    "static_place (ex_outer ! Suc 0) (iter_at ex_outer 0 (Suc 0)) 32" "static_value (ex_outer ! Suc 0)"
    "wf_fields ex_outer" "ex_outer \<noteq> []"
    by (simp_all add: static_place_def static_value_def ex_defs eval_iter wf_fields_def)
  with sub ex_fields_static_ok show ?thesis
    unfolding static_ok.simps(2) [of "Suc 0"] i by auto
qed

lemma ex_fields_plain: "plain_message ex_fields"
proof -
  have i: "i < length ex_fields \<longleftrightarrow> i = 0 \<or> i = Suc 0" for i
    by (auto simp: ex_fields_def)
  have it: "pData (iter_at ex_fields d 0) = d" "pData (iter_at ex_fields d (Suc 0)) = d + 5"
    "pSize (iter_at ex_fields d (Suc 0)) = d + 4" for d
    by (simp_all add: ex_defs eval_iter)
  have "list_all plain_field ex_fields" "wf_fields ex_fields" "distinct (map tag ex_fields)"
    "ex_fields \<noteq> []" "length ex_fields < 2 ^ 32"
    by (simp_all add: plain_field_def static_value_def is_required_def is_optional_def ex_defs eval_iter
        wf_fields_def)
  moreover have "data_size (ex_fields ! 0) = 4" "data_size (ex_fields ! Suc 0) = 8"
    "\<not> is_optional (ex_fields ! 0)" "is_optional (ex_fields ! Suc 0)"
    by (simp_all add: is_optional_def ex_defs eval_iter)
  ultimately show ?thesis
    unfolding plain_message_def i by (auto simp: it region_def area_def simp del: iter_at.simps)
qed

lemma ex_strings_end: "strings_end ex_fields ex_mem 100"
proof -
  have i: "i < length ex_fields \<longleftrightarrow> i = 0 \<or> i = Suc 0" for i
    by (auto simp: ex_fields_def)
  have "PB_LTYPE (ftype (ex_fields ! 0)) \<noteq> PB_LTYPE_STRING" "data_size (ex_fields ! Suc 0) = 8"
    by (simp_all add: ex_defs eval_iter)
  then show ?thesis
    unfolding strings_end_def i
    by (auto simp: ex_iter_at ex_mem_def strnlen_loop_numeral simp del: iter_at.simps)
qed

text \<open>The structure of the first message, \<open>id\<close> at 0, \<open>has_note\<close> at 4 and \<open>note\<close> at 5, from whose
  declaration the macros make \<open>ex_fields\<close>.\<close>

definition ex_members :: "member list" where
  "ex_members =
     [\<lparr>field_tag = 1, proto = T_INT32, macro = REQUIRED_STATIC, ctype = Object 4, offset_of = 0,
       companion = 0, default_ptr = Ptr_null\<rparr>,
      \<lparr>field_tag = 2, proto = T_STRING, macro = OPTIONAL_STATIC, ctype = Object 8, offset_of = 5,
       companion = 4, default_ptr = Ptr_null\<rparr>]"

lemma ex_fields_descriptors: "ex_fields = descriptors ex_members"
  by (simp add: ex_members_def ex_defs descriptors_def descriptor_def PB_FIELD_def pb_delta_def same_union_def
      upt_rec)

text \<open>A structure with an array, a pointer and a union:
  \<open>struct { int32_t id; pb_size_t vals_count; uint32_t vals[3]; char *name; pb_size_t which_body;
  union { int32_t num; double real; } body; bool has_flag; bool flag; }\<close>, with the offsets of the
  64-bit ABI.\<close>

definition ex_record :: "member list" where
  "ex_record =
     [\<lparr>field_tag = 1, proto = T_INT32, macro = REQUIRED_STATIC, ctype = Object 4, offset_of = 0,
       companion = 0, default_ptr = Ptr_null\<rparr>,
      \<lparr>field_tag = 2, proto = T_UINT32, macro = REPEATED_STATIC, ctype = Array_of 4 3, offset_of = 8,
       companion = 4, default_ptr = Ptr_null\<rparr>,
      \<lparr>field_tag = 3, proto = T_STRING, macro = OPTIONAL_POINTER, ctype = Pointer_to 1, offset_of = 24,
       companion = 0, default_ptr = Ptr_null\<rparr>,
      \<lparr>field_tag = 4, proto = T_INT32, macro = ONEOF_STATIC 0, ctype = Object 4, offset_of = 40,
       companion = 32, default_ptr = Ptr_null\<rparr>,
      \<lparr>field_tag = 5, proto = T_DOUBLE, macro = ONEOF_STATIC 0, ctype = Object 8, offset_of = 40,
       companion = 32, default_ptr = Ptr_null\<rparr>,
      \<lparr>field_tag = 6, proto = T_BOOL, macro = OPTIONAL_STATIC, ctype = Object 1, offset_of = 49,
       companion = 48, default_ptr = Ptr_null\<rparr>]"

lemma ex_record_ok: "structure_ok ex_record" "length ex_record = 6"
  by (simp_all add: structure_ok_def member_ok_def follows_def same_union_def ex_record_def)

end
