(* ===== verification/FBase64.thy ===== *)
theory FBase64
  imports Varint
begin

text \<open>
  The Base64 routines of the database client (\<open>fbase64.c\<close>): \<open>f_b64_ntop\<close> encodes a byte
  string into a character buffer, \<open>f_b64_pton\<close> decodes a C string into a byte buffer. The
  output buffers live in the flat memory, so every store is visible as a change of the
  memory; the inputs are \<open>const\<close> and are given as lists (for \<open>f_b64_pton\<close> the characters
  before the terminating NUL). The reference is the alphabet and the grouping of RFC 1521
  that the comment of the file quotes.
\<close>

subsection \<open>The alphabet\<close>

definition Base64 :: "u8 list" where
  "Base64 = map of_char
     ''ABCDEFGHIJKLMNOPQRSTUVWXYZabcdefghijklmnopqrstuvwxyz0123456789+/''"

definition Pad64 :: u8 where "Pad64 = of_char (CHR ''='')"

text \<open>\<open>isspace\<close> of the C locale, and \<open>strchr\<close> as the index it points to.\<close>

definition isspace :: "u8 \<Rightarrow> bool" where
  "isspace ch \<longleftrightarrow> ch = 0x20 \<or> 0x09 \<le> ch \<and> ch \<le> 0x0D"

fun strchr :: "u8 list \<Rightarrow> u8 \<Rightarrow> nat option" where
  "strchr [] ch = None"
| "strchr (c # cs) ch = (if c = ch then Some 0 else map_option Suc (strchr cs ch))"

text \<open>\<open>size_t\<close> and \<open>u_int\<close> sums, and the conversion of the result to \<open>int\<close>.\<close>

definition add64 :: "nat \<Rightarrow> nat \<Rightarrow> nat" where "add64 a b = (a + b) mod 2 ^ 64"
definition add32 :: "nat \<Rightarrow> nat \<Rightarrow> nat" where "add32 a b = (a + b) mod 2 ^ 32"

definition as_int :: "nat \<Rightarrow> int" where
  "as_int n = signed_take_bit 31 (int n)"

subsection \<open>Encoding\<close>

definition put4 :: "mem \<Rightarrow> addr \<Rightarrow> u8 \<Rightarrow> u8 \<Rightarrow> u8 \<Rightarrow> u8 \<Rightarrow> mem" where
  "put4 m a c0 c1 c2 c3 = m(a := c0, a + 1 := c1, a + 2 := c2, a + 3 := c3)"

definition sextet0 :: "u8 \<Rightarrow> u8" where
  "sextet0 i0 = drop_bit 2 i0"

definition sextet1 :: "u8 \<Rightarrow> u8 \<Rightarrow> u8" where
  "sextet1 i0 i1 = push_bit 4 (i0 AND 0x03) + drop_bit 4 i1"

definition sextet2 :: "u8 \<Rightarrow> u8 \<Rightarrow> u8" where
  "sextet2 i1 i2 = push_bit 2 (i1 AND 0x0f) + drop_bit 6 i2"

definition sextet3 :: "u8 \<Rightarrow> u8" where
  "sextet3 i2 = i2 AND 0x3f"

text \<open>The loop over full groups: it stops with the rest of the input, or fails (\<open>Inl\<close>).\<close>

fun ntop_groups :: "mem \<Rightarrow> u8 list \<Rightarrow> addr \<Rightarrow> nat \<Rightarrow> nat \<Rightarrow> mem + (mem \<times> u8 list \<times> nat)" where
  "ntop_groups m (i0 # i1 # i2 # src) target targsize datalength =
     (if add64 datalength 4 > targsize then Inl m
      else ntop_groups
             (put4 m (target + int datalength)
                (Base64 ! unat (sextet0 i0)) (Base64 ! unat (sextet1 i0 i1))
                (Base64 ! unat (sextet2 i1 i2)) (Base64 ! unat (sextet3 i2)))
             src target targsize (datalength + 4))"
| "ntop_groups m src target targsize datalength = Inr (m, src, datalength)"

definition ntop_padding :: "mem \<Rightarrow> u8 list \<Rightarrow> addr \<Rightarrow> nat \<Rightarrow> nat \<Rightarrow> mem + (mem \<times> nat)" where
  "ntop_padding m src target targsize datalength =
     (if src \<noteq> [] then
        let i0 = src ! 0;
            i1 = (if length src > 1 then src ! 1 else 0);
            i2 = 0
        in if add64 datalength 4 > targsize then Inl m
           else Inr (put4 m (target + int datalength)
                       (Base64 ! unat (sextet0 i0)) (Base64 ! unat (sextet1 i0 i1))
                       (if length src = 1 then Pad64 else Base64 ! unat (sextet2 i1 i2)) Pad64,
                     datalength + 4)
      else Inr (m, datalength))"

definition f_b64_ntop :: "mem \<Rightarrow> u8 list \<Rightarrow> addr \<Rightarrow> nat \<Rightarrow> int \<times> mem" where
  "f_b64_ntop m src target targsize =
     (case ntop_groups m src target targsize 0 of
        Inl m1 \<Rightarrow> (-1, m1)
      | Inr (m1, rest, datalength) \<Rightarrow>
          (case ntop_padding m1 rest target targsize datalength of
             Inl m2 \<Rightarrow> (-1, m2)
           | Inr (m2, datalength2) \<Rightarrow>
               if datalength2 \<ge> targsize then (-1, m2)
               else (as_int datalength2, m2(target + int datalength2 := 0))))"

subsection \<open>Decoding\<close>

text \<open>
  One character of the main loop. \<open>target = 0\<close> is the null pointer, with which the code
  only counts. \<open>None\<close>: return -1.
\<close>

definition pton_digit :: "addr \<Rightarrow> nat \<Rightarrow> nat \<Rightarrow> mem \<times> nat \<times> nat \<Rightarrow> (mem \<times> nat \<times> nat) option" where
  "pton_digit target targsize pos = (\<lambda>(m, state, tarindex).
     let p = (of_nat pos :: u8); a = target + int tarindex; a1 = target + int (add32 tarindex 1)
     in if state = 0 then
          if target = 0 then Some (m, 1, tarindex)
          else if tarindex \<ge> targsize then None
          else Some (m(a := push_bit 2 p), 1, tarindex)
        else if state = 1 then
          if target = 0 then Some (m, 2, add32 tarindex 1)
          else if add32 tarindex 1 \<ge> targsize then None
          else Some (m(a := m a OR drop_bit 4 p, a1 := push_bit 4 (p AND 0x0f)), 2, add32 tarindex 1)
        else if state = 2 then
          if target = 0 then Some (m, 3, add32 tarindex 1)
          else if add32 tarindex 1 \<ge> targsize then None
          else Some (m(a := m a OR drop_bit 2 p, a1 := push_bit 6 (p AND 0x03)), 3, add32 tarindex 1)
        else if state = 3 then
          if target = 0 then Some (m, 0, add32 tarindex 1)
          else if tarindex \<ge> targsize then None
          else Some (m(a := m a OR p), 0, add32 tarindex 1)
        else Some (m, state, tarindex))"

text \<open>
  The main loop: \<open>Inl\<close> is a return of -1; otherwise it ends at the end of the string
  (\<open>None\<close>) or at a pad character (\<open>Some\<close> of what follows the pad).
\<close>

fun pton_loop :: "addr \<Rightarrow> nat \<Rightarrow> u8 list \<Rightarrow> mem \<times> nat \<times> nat \<Rightarrow>
    mem + (u8 list option \<times> mem \<times> nat \<times> nat)" where
  "pton_loop target targsize [] st = Inr (None, st)"
| "pton_loop target targsize (ch # src) st =
     (if isspace ch then pton_loop target targsize src st
      else if ch = Pad64 then Inr (Some src, st)
      else case strchr Base64 ch of
             None \<Rightarrow> Inl (fst st)
           | Some pos \<Rightarrow>
               (case pton_digit target targsize pos st of
                  None \<Rightarrow> Inl (fst st)
                | Some st1 \<Rightarrow> pton_loop target targsize src st1))"

fun skip_spaces :: "u8 list \<Rightarrow> u8 list" where
  "skip_spaces [] = []"
| "skip_spaces (ch # src) = (if isspace ch then skip_spaces src else ch # src)"

definition extra_bits :: "mem \<Rightarrow> addr \<Rightarrow> nat \<Rightarrow> bool" where
  "extra_bits m target tarindex \<longleftrightarrow> target \<noteq> 0 \<and> m (target + int tarindex) \<noteq> 0"

text \<open>The check of the trailing characters: is the string accepted?\<close>

definition pton_end :: "addr \<Rightarrow> u8 list option \<Rightarrow> mem \<Rightarrow> nat \<Rightarrow> nat \<Rightarrow> bool" where
  "pton_end target after_pad m state tarindex =
     (case after_pad of
        Some src \<Rightarrow>
          if state = 0 \<or> state = 1 then False
          else if state = 2 then
            (case skip_spaces src of
               [] \<Rightarrow> False
             | ch # src1 \<Rightarrow>
                 ch = Pad64 \<and> skip_spaces src1 = [] \<and> \<not> extra_bits m target tarindex)
          else if state = 3 then skip_spaces src = [] \<and> \<not> extra_bits m target tarindex
          else True
      | None \<Rightarrow> state = 0)"

definition f_b64_pton :: "mem \<Rightarrow> u8 list \<Rightarrow> addr \<Rightarrow> nat \<Rightarrow> int \<times> mem" where
  "f_b64_pton m src target targsize =
     (case pton_loop target targsize src (m, 0, 0) of
        Inl m1 \<Rightarrow> (-1, m1)
      | Inr (after_pad, m1, state, tarindex) \<Rightarrow>
          (if pton_end target after_pad m1 state tarindex then as_int tarindex else -1, m1))"

subsection \<open>The reference encoding\<close>

text \<open>
  RFC 1521: three bytes form a 24-bit group, read as four 6-bit numbers, each an index into
  the alphabet; a final group of one or two bytes is filled with zero bits and padded.
\<close>

definition group_digit :: "nat \<Rightarrow> nat \<Rightarrow> nat \<Rightarrow> nat \<Rightarrow> u8" where
  "group_digit a b c k = Base64 ! ((65536 * a + 256 * b + c) div 64 ^ k mod 64)"

fun base64 :: "u8 list \<Rightarrow> u8 list" where
  "base64 [] = []"
| "base64 [a] = [group_digit (unat a) 0 0 3, group_digit (unat a) 0 0 2, Pad64, Pad64]"
| "base64 [a, b] =
     [group_digit (unat a) (unat b) 0 3, group_digit (unat a) (unat b) 0 2,
      group_digit (unat a) (unat b) 0 1, Pad64]"
| "base64 (a # b # c # bs) =
     map (group_digit (unat a) (unat b) (unat c)) [3, 2, 1, 0] @ base64 bs"

lemma length_base64: "length (base64 bs) = 4 * ((length bs + 2) div 3)"
proof (induction bs rule: base64.induct)
  case (4 a b c bs)
  have "length (a # b # c # bs) + 2 = length bs + 2 + 3" by simp
  then have "(length (a # b # c # bs) + 2) div 3 = (length bs + 2) div 3 + 1"
    by (simp only: div_add_self2)
  with 4 show ?case by simp
qed simp_all

subsection \<open>Sextets\<close>

lemma u8_masks:
  "(a :: u8) AND 0x03 = take_bit 2 a" "a AND 0x0f = take_bit 4 a" "a AND 0x3f = take_bit 6 a"
  by (simp_all add: take_bit_eq_mask mask_eq_exp_minus_1)

lemma sextet1_or: "sextet1 a b = push_bit 4 (take_bit 2 a) OR drop_bit 4 b"
  unfolding sextet1_def u8_masks
  by (rule disjunctive_add_eq_or) (auto simp: bit_eq_iff bit_simps dest: bit_imp_le_length)

lemma sextet2_or: "sextet2 a b = push_bit 2 (take_bit 4 a) OR drop_bit 6 b"
  unfolding sextet2_def u8_masks
  by (rule disjunctive_add_eq_or) (auto simp: bit_eq_iff bit_simps dest: bit_imp_le_length)

lemmas sextet_bits = sextet0_def sextet1_or sextet2_or sextet3_def u8_masks

lemma group_of_sextets:
  "push_bit 2 (sextet0 a) OR drop_bit 4 (sextet1 a b) = a"
  "push_bit 4 (sextet1 a b AND 0x0f) OR drop_bit 2 (sextet2 b c) = b"
  "push_bit 6 (sextet2 b c AND 0x03) OR sextet3 c = c"
  by (rule u8_eqI, unfold all_less_8, simp add: sextet_bits bit_simps)+

lemma u8_less_64: "p < (64 :: u8) \<longleftrightarrow> p = take_bit 6 p"
proof -
  have "p < 64 \<longleftrightarrow> unat p < 2 ^ 6" by (simp add: word_less_nat_alt)
  also have "\<dots> \<longleftrightarrow> p = take_bit 6 p"
    by (simp only: word_unat_eq_iff unsigned_take_bit_eq) (metis take_bit_nat_eq_self_iff)
  finally show ?thesis .
qed

lemma sextets_of_group:
  assumes "p0 < 64" "p1 < 64" "p2 < 64" "p3 < (64 :: u8)"
  shows "sextet0 (push_bit 2 p0 OR drop_bit 4 p1) = p0"
    "sextet1 (push_bit 2 p0 OR drop_bit 4 p1) (push_bit 4 (p1 AND 0x0f) OR drop_bit 2 p2) = p1"
    "sextet2 (push_bit 4 (p1 AND 0x0f) OR drop_bit 2 p2) (push_bit 6 (p2 AND 0x03) OR p3) = p2"
    "sextet3 (push_bit 6 (p2 AND 0x03) OR p3) = p3"
proof -
  have hi: "\<not> bit p n" if "p < (64 :: u8)" "6 \<le> n" for p n
    using that(2) by (subst that(1) [unfolded u8_less_64]) (simp add: bit_take_bit_iff)
  note b = sextet_bits bit_simps hi assms
  show "sextet0 (push_bit 2 p0 OR drop_bit 4 p1) = p0"
    by (rule u8_eqI, unfold all_less_8) (simp add: b)
  show "sextet1 (push_bit 2 p0 OR drop_bit 4 p1) (push_bit 4 (p1 AND 0x0f) OR drop_bit 2 p2) = p1"
    by (rule u8_eqI, unfold all_less_8) (simp add: b)
  show "sextet2 (push_bit 4 (p1 AND 0x0f) OR drop_bit 2 p2) (push_bit 6 (p2 AND 0x03) OR p3) = p2"
    by (rule u8_eqI, unfold all_less_8) (simp add: b)
  show "sextet3 (push_bit 6 (p2 AND 0x03) OR p3) = p3"
    by (rule u8_eqI, unfold all_less_8) (simp add: b)
qed

lemma unat_or_push_u8:
  "unat r < 2 ^ k \<Longrightarrow> unat x * 2 ^ k < 256 \<Longrightarrow> unat (push_bit k x OR r :: u8) = unat x * 2 ^ k + unat r"
  using unat_or_push [of r k x] by (simp add: or.commute add.commute)

lemma unat_sextets:
  "unat (sextet0 a) = unat a div 4"
  "unat (sextet1 a b) = unat a mod 4 * 16 + unat b div 16"
  "unat (sextet2 b c) = unat b mod 16 * 4 + unat c div 64"
  "unat (sextet3 c) = unat c mod 64"
proof -
  have d: "unat (drop_bit k x) = unat x div 2 ^ k" for k and x :: u8
    unfolding unat_drop_bit_eq by (rule drop_bit_eq_div)
  have t: "unat (take_bit k x) = unat x mod 2 ^ k" for k and x :: u8
    unfolding unsigned_take_bit_eq by (rule take_bit_eq_mod)
  have l: "unat x < 256" for x :: u8 using unsigned_less [of x, where ?'a = nat] by simp
  have e: "(2::nat)^4 = 16" "(2::nat)^6 = 64" "(2::nat)^2=4" by simp_all
  show "unat (sextet0 a) = unat a div 4" using d[of 2 a] by (simp add: sextet0_def)
  show "unat (sextet3 c) = unat c mod 64" using t[of 6 c] by (simp add: sextet_bits del: t)
  have "unat (drop_bit 4 b) < 2 ^ 4" unfolding d e using l [of b] by linarith
  moreover have "unat (take_bit 2 a) < 4" unfolding t e by linarith
  then have "unat (take_bit 2 a) * 2 ^ 4 < 256" unfolding e by linarith
  ultimately show "unat (sextet1 a b) = unat a mod 4 * 16 + unat b div 16"
    unfolding sextet1_or by (subst unat_or_push_u8) (simp_all only: t d e)
  have "unat (drop_bit 6 c) < 2 ^ 2" unfolding d e using l [of c] by linarith
  moreover have "unat (take_bit 4 b) < 16" unfolding t e by linarith
  then have "unat (take_bit 4 b) * 2 ^ 2 < 256" unfolding e by linarith
  ultimately show "unat (sextet2 b c) = unat b mod 16 * 4 + unat c div 64"
    unfolding sextet2_or by (subst unat_or_push_u8) (simp_all only: t d e)
qed
subsection \<open>The alphabet as a table\<close>

lemma strchr_SomeD: "strchr cs ch = Some i \<Longrightarrow> i < length cs \<and> cs ! i = ch"
  by (induction cs ch arbitrary: i rule: strchr.induct) (auto split: if_splits)

lemma strchr_nth: "distinct cs \<Longrightarrow> i < length cs \<Longrightarrow> strchr cs (cs ! i) = Some i"
proof (induction cs arbitrary: i)
  case (Cons c cs)
  then show ?case by (cases i) auto
qed simp

lemma Base64_codes:
  "Base64 = map of_nat ([65..<91] @ [97..<123] @ [48..<58] @ [43, 47])"
  by (simp add: Base64_def upt_rec)

lemma length_Base64 [simp]: "length Base64 = 64"
  by (simp add: Base64_codes)

lemma distinct_Base64: "distinct Base64"
proof -
  let ?ns = "[65..<91] @ [97..<123] @ [48..<58] @ [43, 47]"
  have "inj_on (of_nat :: nat \<Rightarrow> u8) {..<256}"
    by (intro inj_onI) (metis lessThan_iff unat_u8_of_nat)
  then have "inj_on (of_nat :: nat \<Rightarrow> u8) (set ?ns)"
    by (rule inj_on_subset) auto
  moreover have "distinct ?ns" by simp
  ultimately show ?thesis unfolding Base64_codes distinct_map by blast
qed

lemma Base64_not_special: "i < 64 \<Longrightarrow> \<not> isspace (Base64 ! i) \<and> Base64 ! i \<noteq> Pad64"
proof -
  have "\<forall>c \<in> set Base64. \<not> isspace c \<and> c \<noteq> Pad64"
    by (simp add: Base64_def isspace_def Pad64_def)
  then show "i < 64 \<Longrightarrow> \<not> isspace (Base64 ! i) \<and> Base64 ! i \<noteq> Pad64" by simp
qed

lemma strchr_Base64: "i < 64 \<Longrightarrow> strchr Base64 (Base64 ! i) = Some i"
  by (simp add: strchr_nth distinct_Base64)

lemma unat_sextet_less:
  "unat (sextet0 a) < 64" "unat (sextet1 a b) < 64" "unat (sextet2 a b) < 64" "unat (sextet3 a) < 64"
proof -
  have l: "unat x < 256" for x :: u8 using unsigned_less [of x, where ?'a = nat] by simp
  show "unat (sextet0 a) < 64" "unat (sextet1 a b) < 64" "unat (sextet2 a b) < 64" "unat (sextet3 a) < 64"
    unfolding unat_sextets using l [of a] l [of b] by linarith+
qed

lemma base64_digits:
  assumes "s0 < 64" "s1 < 64" "s2 < 64" "s3 < (64 :: nat)"
    and "v = ((s0 * 64 + s1) * 64 + s2) * 64 + s3"
  shows "v div 262144 mod 64 = s0" "v div 4096 mod 64 = s1" "v div 64 mod 64 = s2" "v mod 64 = s3"
proof -
  have a: "v div 64 = (s0 * 64 + s1) * 64 + s2" using assms by simp
  have "v div 4096 = v div 64 div 64" by (simp flip: div_mult2_eq)
  then have b: "v div 4096 = s0 * 64 + s1" unfolding a using assms by simp
  have "v div 262144 = v div 4096 div 64" by (simp flip: div_mult2_eq)
  then have c: "v div 262144 = s0" unfolding b using assms by simp
  show "v div 262144 mod 64 = s0" "v div 4096 mod 64 = s1" "v div 64 mod 64 = s2" "v mod 64 = s3"
    unfolding a b c using assms(1-4) by (simp_all only: assms(5) mod_mult_self3 mod_less)
qed

lemma regroup:
  "a = qa * 4 + ra \<Longrightarrow> b = qb * 16 + rb \<Longrightarrow> c = qc * 64 + rc \<Longrightarrow>
     65536 * a + 256 * b + c = ((qa * 64 + (ra * 16 + qb)) * 64 + (rb * 4 + qc)) * 64 + (rc :: nat)"
  by simp

lemma group_digits:
  "group_digit (unat a) (unat b) (unat c) 3 = Base64 ! unat (sextet0 a)"
  "group_digit (unat a) (unat b) (unat c) 2 = Base64 ! unat (sextet1 a b)"
  "group_digit (unat a) (unat b) (unat c) (Suc 0) = Base64 ! unat (sextet2 b c)"
  "group_digit (unat a) (unat b) (unat c) 0 = Base64 ! unat (sextet3 c)"
proof -
  have "65536 * unat a + 256 * unat b + unat c =
      ((unat (sextet0 a) * 64 + unat (sextet1 a b)) * 64 + unat (sextet2 b c)) * 64 + unat (sextet3 c)"
    unfolding unat_sextets
    by (rule regroup) (rule div_mult_mod_eq [symmetric])+
  note d = base64_digits [OF unat_sextet_less this]
  show
    "group_digit (unat a) (unat b) (unat c) 3 = Base64 ! unat (sextet0 a)"
    "group_digit (unat a) (unat b) (unat c) 2 = Base64 ! unat (sextet1 a b)"
    "group_digit (unat a) (unat b) (unat c) (Suc 0) = Base64 ! unat (sextet2 b c)"
    "group_digit (unat a) (unat b) (unat c) 0 = Base64 ! unat (sextet3 c)"
    by (simp_all add: group_digit_def d)
qed

lemma base64_short:
  "base64 [a] = [Base64 ! unat (sextet0 a), Base64 ! unat (sextet1 a 0), Pad64, Pad64]"
  "base64 [a, b] =
     [Base64 ! unat (sextet0 a), Base64 ! unat (sextet1 a b), Base64 ! unat (sextet2 b 0), Pad64]"
  using group_digits [of a 0 0] group_digits [of a b 0] by simp_all

lemma base64_group:
  "base64 (a # b # c # bs) =
     [Base64 ! unat (sextet0 a), Base64 ! unat (sextet1 a b), Base64 ! unat (sextet2 b c),
      Base64 ! unat (sextet3 c)] @ base64 bs"
  using group_digits [of a b c] by simp

lemmas base64_sextets = base64_short base64_group

declare base64.simps(2-) [simp del]

subsection \<open>The encoder writes the reference encoding\<close>

lemma rd_put4: "rd_bytes (put4 m a c0 c1 c2 c3) a 4 = [c0, c1, c2, c3]"
  by (simp add: put4_def rd_bytes_def upt_rec)

lemma put4_other: "p < a \<or> a + 4 \<le> p \<Longrightarrow> put4 m a c0 c1 c2 c3 p = m p"
  by (auto simp: put4_def)

lemma rd_bytes_append:
  "rd_bytes m a (n + k) = rd_bytes m a n @ rd_bytes m (a + int n) k"
  by (rule nth_equalityI) (auto simp: nth_append algebra_simps)

text \<open>
  What has been written: \<open>out\<close> fills the first \<open>length out\<close> bytes of the buffer and
  nothing outside the buffer has changed since \<open>m0\<close>.
\<close>

definition written :: "mem \<Rightarrow> addr \<Rightarrow> nat \<Rightarrow> u8 list \<Rightarrow> mem \<Rightarrow> bool" where
  "written m0 target targsize out m \<longleftrightarrow>
     length out \<le> targsize \<and> rd_bytes m target (length out) = out \<and>
     (\<forall>p. p < target \<or> target + int targsize \<le> p \<longrightarrow> m p = m0 p)"

definition only_buffer :: "mem \<Rightarrow> addr \<Rightarrow> nat \<Rightarrow> mem \<Rightarrow> bool" where
  "only_buffer m0 target targsize m \<longleftrightarrow>
     (\<forall>p. p < target \<or> target + int targsize \<le> p \<longrightarrow> m p = m0 p)"

lemma length_append_four: "length (out @ [c0, c1, c2, c3]) = length out + 4"
  by simp

lemma written_put4:
  assumes "written m0 target targsize out m" "length out + 4 \<le> targsize"
  shows "written m0 target targsize (out @ [c0, c1, c2, c3])
    (put4 m (target + int (length out)) c0 c1 c2 c3)"
proof -
  let ?m = "put4 m (target + int (length out)) c0 c1 c2 c3"
  have "rd_bytes ?m target (length out) = rd_bytes m target (length out)"
    by (rule rd_bytes_cong) (simp add: put4_other)
  then have "rd_bytes ?m target (length out + 4) = out @ [c0, c1, c2, c3]"
    using assms(1) by (simp add: rd_bytes_append rd_put4 written_def)
  then show ?thesis
    using assms unfolding written_def length_append_four by (auto simp: put4_other)
qed

lemma written_only_buffer: "written m0 target targsize out m \<Longrightarrow> only_buffer m0 target targsize m"
  by (simp add: written_def only_buffer_def)

lemma add64_small: "a + 4 < 2 ^ 64 \<Longrightarrow> add64 a 4 = a + 4"
  by (simp add: add64_def)

definition groups_ok :: "mem \<Rightarrow> addr \<Rightarrow> nat \<Rightarrow> u8 list \<Rightarrow> u8 list \<Rightarrow>
    mem + (mem \<times> u8 list \<times> nat) \<Rightarrow> bool" where
  "groups_ok m0 target targsize out src res \<longleftrightarrow>
     (case res of
        Inl m1 \<Rightarrow> only_buffer m0 target targsize m1 \<and> targsize < length out + length (base64 src)
      | Inr (m1, rest, datalength) \<Rightarrow>
          length rest < 3 \<and>
          (\<exists>full. base64 src = full @ base64 rest \<and> datalength = length out + length full \<and>
                  written m0 target targsize (out @ full) m1))"

lemma ntop_groups_ok:
  assumes "written m0 target targsize out m" "targsize < 2 ^ 64 - 4"
  shows "groups_ok m0 target targsize out src (ntop_groups m src target targsize (length out))"
  using assms
proof (induction m src target targsize "length out" arbitrary: out rule: ntop_groups.induct)
  case (1 m i0 i1 i2 src target targsize)
  let ?cs = "[Base64 ! unat (sextet0 i0), Base64 ! unat (sextet1 i0 i1),
    Base64 ! unat (sextet2 i1 i2), Base64 ! unat (sextet3 i2)]"
  have len: "length out + 4 < 2 ^ 64"
    using "1.prems" by (simp add: written_def)
  show ?case
  proof (cases "targsize < length out + 4")
    case True
    then show ?thesis
      using "1.prems" len by (simp add: groups_ok_def add64_small written_only_buffer base64_group)
  next
    case False
    then have a: "\<not> targsize < add64 (length out) 4" using len by (simp add: add64_small)
    have "groups_ok m0 target targsize (out @ ?cs) src
       (ntop_groups (put4 m (target + int (length out)) (?cs ! 0) (?cs ! 1) (?cs ! 2) (?cs ! 3))
          src target targsize (length out + 4))"
      using "1.hyps" [OF a length_append_four [symmetric]] written_put4 [OF "1.prems"(1)] False "1.prems"(2)
      unfolding length_append_four by simp
    then show ?thesis
      using a by (auto simp: groups_ok_def base64_group split: sum.splits)
  qed
qed (auto simp: groups_ok_def)

lemma ntop_padding_ok:
  assumes "written m0 target targsize out m" "targsize < 2 ^ 64 - 4" "length src < 3"
  shows "case ntop_padding m src target targsize (length out) of
      Inl m1 \<Rightarrow> only_buffer m0 target targsize m1 \<and> targsize < length out + length (base64 src)
    | Inr (m1, datalength) \<Rightarrow> datalength = length (out @ base64 src) \<and>
        written m0 target targsize (out @ base64 src) m1"
proof -
  have len: "length out + 4 < 2 ^ 64"
    using assms by (simp add: written_def)
  consider "src = []" | a where "src = [a]" | a b where "src = [a, b]"
    using assms(3) by (cases src; cases "tl src"; cases "tl (tl src)"; auto)
  then show ?thesis
    using assms len written_put4 [OF assms(1)]
    by cases (auto simp: ntop_padding_def add64_small written_only_buffer base64_short not_less)
qed

lemma written_nul:
  assumes "written m0 target targsize out m" "length out < targsize"
  shows "written m0 target targsize (out @ [0]) (m(target + int (length out) := 0))"
proof -
  have "rd_bytes (m(target + int (length out) := 0)) target (length out) = rd_bytes m target (length out)"
    by (rule rd_bytes_cong) simp
  then have "rd_bytes (m(target + int (length out) := 0)) target (length out + 1) = out @ [0]"
    unfolding rd_bytes_append using assms(1) by (simp add: written_def rd_bytes_Suc)
  then show ?thesis
    using assms by (auto simp: written_def)
qed

lemma f_b64_ntop_result:
  assumes "targsize < 2 ^ 64 - 4"
  shows "if length (base64 src) < targsize
    then \<exists>m1. f_b64_ntop m src target targsize = (as_int (length (base64 src)), m1) \<and>
           written m target targsize (base64 src @ [0]) m1
    else \<exists>m1. f_b64_ntop m src target targsize = (-1, m1) \<and> only_buffer m target targsize m1"
proof -
  have w0: "written m target targsize [] m" by (simp add: written_def)
  show ?thesis
  proof (cases "ntop_groups m src target targsize 0")
    case (Inl m1)
    then show ?thesis
      using ntop_groups_ok [OF w0 assms, of src] by (auto simp: groups_ok_def f_b64_ntop_def)
  next
    case (Inr r)
    obtain m1 rest d where r: "r = (m1, rest, d)" by (cases r)
    then obtain full where full: "length rest < 3" "base64 src = full @ base64 rest" "d = length full"
        "written m target targsize full m1"
      using ntop_groups_ok [OF w0 assms, of src] Inr by (auto simp: groups_ok_def)
    note p = ntop_padding_ok [OF full(4) assms full(1)]
    show ?thesis
    proof (cases "ntop_padding m1 rest target targsize (length full)")
      case (Inl m2)
      with p show ?thesis by (auto simp: f_b64_ntop_def Inr[unfolded r] full(2,3))
    next
      case (Inr r2)
      obtain m2 where r2: "r2 = (m2, length (full @ base64 rest))"
          and w: "written m target targsize (full @ base64 rest) m2"
        using p Inr by (cases r2) auto
      show ?thesis
        using w
        by (auto simp: f_b64_ntop_def \<open>ntop_groups m src target targsize 0 = Inr r\<close>[unfolded r] Inr[unfolded r2] full(2,3)
            written_only_buffer intro: written_nul [of _ _ _ "full @ base64 rest", simplified])
    qed
  qed
qed

subsection \<open>White space is ignored\<close>

definition strip :: "u8 list \<Rightarrow> u8 list" where
  "strip cs = filter (\<lambda>ch. \<not> isspace ch) cs"

lemma strip_Cons: "strip (ch # cs) = (if isspace ch then strip cs else ch # strip cs)"
  by (simp add: strip_def)

lemma strip_Nil [simp]: "strip [] = []"
  by (simp add: strip_def)

lemma skip_spaces_strip:
  "strip (skip_spaces cs) = strip cs"
  "skip_spaces (strip cs) = strip cs"
  "skip_spaces cs = [] \<longleftrightarrow> strip cs = []"
  "skip_spaces cs = ch # cs1 \<Longrightarrow> strip cs = ch # strip cs1"
  by (induction cs) (auto simp: strip_Cons split: if_splits)

lemma strip_strip [simp]: "strip (strip cs) = strip cs"
  by (simp add: strip_def)

lemma strip_fix: "strip cs = cs \<longleftrightarrow> (\<forall>ch \<in> set cs. \<not> isspace ch)"
  by (simp add: strip_def filter_id_conv)

lemma skip_spaces_hd: "skip_spaces cs = ch # cs1 \<Longrightarrow> \<not> isspace ch"
  by (induction cs) (auto split: if_splits)

lemma pton_loop_strip:
  "pton_loop target targsize (strip cs) st =
     map_sum id (map_prod (map_option strip) id) (pton_loop target targsize cs st)"
  by (induction cs arbitrary: st) (auto simp: strip_Cons split: option.splits)

lemma pton_end_strip:
  "pton_end target (map_option strip after_pad) m state tarindex = pton_end target after_pad m state tarindex"
proof (cases after_pad)
  case (Some src)
  show ?thesis
  proof (cases "skip_spaces src")
    case Nil
    then have "strip src = []" by (simp add: skip_spaces_strip(3))
    with Nil Some show ?thesis by (simp add: pton_end_def)
  next
    case (Cons ch src1)
    note s = skip_spaces_strip(4) [OF Cons]
    have "skip_spaces (strip src) = ch # strip src1"
      unfolding skip_spaces_strip(2) by (rule s)
    with Cons Some skip_spaces_hd [OF Cons] show ?thesis
      by (simp add: pton_end_def skip_spaces_strip(2,3))
  qed
qed simp

lemma f_b64_pton_strip: "f_b64_pton m (strip cs) target targsize = f_b64_pton m cs target targsize"
  unfolding f_b64_pton_def pton_loop_strip
  by (auto simp: pton_end_strip split: sum.splits)

subsection \<open>The decoder stays inside its buffer\<close>

definition inside :: "mem \<Rightarrow> addr \<Rightarrow> nat \<Rightarrow> mem \<times> nat \<times> nat \<Rightarrow> bool" where
  "inside m0 target targsize = (\<lambda>(m, state, tarindex).
     only_buffer m0 target targsize m \<and>
     (if target = 0 then m = m0 else state \<noteq> 0 \<longrightarrow> tarindex < targsize))"

lemma only_buffer_upd:
  "only_buffer m0 target targsize m \<Longrightarrow> i < targsize \<Longrightarrow>
     only_buffer m0 target targsize (m(target + int i := v))"
  by (simp add: only_buffer_def)

lemma pton_digit_inside:
  assumes "inside m0 target targsize st" "pton_digit target targsize pos st = Some st1"
  shows "inside m0 target targsize st1"
proof -
  obtain m state tarindex where st: "st = (m, state, tarindex)" by (cases st)
  show ?thesis
    using assms unfolding st pton_digit_def Let_def inside_def
    by (auto split: if_splits simp: only_buffer_upd not_le)
qed

lemma pton_loop_inside:
  "inside m0 target targsize st \<Longrightarrow>
     (case pton_loop target targsize cs st of
        Inl m1 \<Rightarrow> only_buffer m0 target targsize m1 \<and> (target = 0 \<longrightarrow> m1 = m0)
      | Inr (_, st1) \<Rightarrow> inside m0 target targsize st1)"
proof (induction cs arbitrary: st)
  case (Cons ch cs)
  have "only_buffer m0 target targsize (fst st) \<and> (target = 0 \<longrightarrow> fst st = m0)"
    using Cons.prems by (auto simp: inside_def split: if_splits)
  then show ?case
    using Cons pton_digit_inside [OF Cons.prems] by (auto split: option.splits)
qed simp

lemma f_b64_pton_inside:
  "f_b64_pton m cs target targsize = (r, m1) \<Longrightarrow>
     only_buffer m target targsize m1 \<and> (target = 0 \<longrightarrow> m1 = m)"
  using pton_loop_inside [of m target targsize "(m, 0, 0)" cs]
  by (auto simp: f_b64_pton_def inside_def only_buffer_def split: sum.splits if_splits)

subsection \<open>One group of four characters\<close>

definition put3 :: "mem \<Rightarrow> addr \<Rightarrow> u8 \<Rightarrow> u8 \<Rightarrow> u8 \<Rightarrow> u8 \<Rightarrow> mem" where
  "put3 m a p0 p1 p2 p3 = m(a := push_bit 2 p0 OR drop_bit 4 p1,
     a + 1 := push_bit 4 (p1 AND 0x0f) OR drop_bit 2 p2,
     a + 2 := push_bit 6 (p2 AND 0x03) OR p3)"

abbreviation digit_char :: "u8 \<Rightarrow> u8" where "digit_char p \<equiv> Base64 ! unat p"

lemma pton_loop_digit:
  assumes "unat p < 64"
  shows "pton_loop target targsize (digit_char p # cs) st =
    (case pton_digit target targsize (unat p) st of
       None \<Rightarrow> Inl (fst st) | Some st1 \<Rightarrow> pton_loop target targsize cs st1)"
  using Base64_not_special [OF assms] strchr_Base64 [OF assms] by simp

lemma add32_small: "a + b < 2 ^ 32 \<Longrightarrow> add32 a b = a + b"
  by (simp add: add32_def)

lemma pton_digits:
  assumes "target \<noteq> 0" "i + 3 < 2 ^ 32"
  shows
    "pton_digit target targsize (unat p) (m, 0, i) =
       (if targsize \<le> i then None else Some (m(target + int i := push_bit 2 p), 1, i))"
    "pton_digit target targsize (unat p) (m, 1, i) =
       (if targsize \<le> i + 1 then None
        else Some (m(target + int i := m (target + int i) OR drop_bit 4 p,
                     target + int i + 1 := push_bit 4 (p AND 0x0f)), 2, i + 1))"
    "pton_digit target targsize (unat p) (m, 2, i) =
       (if targsize \<le> i + 1 then None
        else Some (m(target + int i := m (target + int i) OR drop_bit 2 p,
                     target + int i + 1 := push_bit 6 (p AND 0x03)), 3, i + 1))"
    "pton_digit target targsize (unat p) (m, 3, i) =
       (if targsize \<le> i then None
        else Some (m(target + int i := m (target + int i) OR p), 0, i + 1))"
  using assms by (simp_all add: pton_digit_def add32_small Let_def algebra_simps)

text \<open>What the loop and the final check accept: the memory and the number of bytes.\<close>

definition accepts :: "addr \<Rightarrow> nat \<Rightarrow> u8 list \<Rightarrow> mem \<times> nat \<times> nat \<Rightarrow> mem \<Rightarrow> nat \<Rightarrow> bool" where
  "accepts target targsize cs st m1 n \<longleftrightarrow>
     (case pton_loop target targsize cs st of
        Inl _ \<Rightarrow> False
      | Inr (after_pad, m2, state, tarindex) \<Rightarrow>
          m2 = m1 \<and> tarindex = n \<and> pton_end target after_pad m1 state tarindex)"

lemma accepts_Nil: "accepts target targsize [] (m, state, i) m1 n \<longleftrightarrow> m1 = m \<and> n = i \<and> state = 0"
  by (auto simp: accepts_def pton_end_def)

lemma pad_not_space: "\<not> isspace Pad64"
  by (simp add: isspace_def Pad64_def)

lemma accepts_pad:
  assumes "strip cs = cs"
  shows "accepts target targsize (Pad64 # cs) (m, state, i) m1 n \<longleftrightarrow>
     m1 = m \<and> n = i \<and> pton_end target (Some cs) m state i"
  using Base64_not_special [of 0] by (auto simp: accepts_def isspace_def Pad64_def)

lemma accepts_digit:
  assumes "unat p < 64"
  shows "accepts target targsize (digit_char p # cs) st m1 n \<longleftrightarrow>
     (\<exists>st1. pton_digit target targsize (unat p) st = Some st1 \<and> accepts target targsize cs st1 m1 n)"
  unfolding accepts_def pton_loop_digit [OF assms] by (auto split: option.splits)

lemma accepts_ConsE:
  assumes "accepts target targsize (ch # cs) st m1 n" "strip (ch # cs) = ch # cs"
  obtains "ch = Pad64"
    | p where "unat p < 64" "ch = digit_char p"
proof -
  have ns: "\<not> isspace ch" using assms(2)
    unfolding strip_fix by simp
  show thesis
  proof (cases "ch = Pad64")
    case False
    with assms(1) ns obtain pos where "strchr Base64 ch = Some pos"
      by (auto simp: accepts_def split: option.splits)
    then have "pos < 64" "ch = Base64 ! pos" using strchr_SomeD by fastforce+
    with that(2) [of "of_nat pos"] show thesis by (simp add: unat_of_nat)
  qed (rule that)
qed

lemma f_b64_pton_accepts:
  "f_b64_pton m cs target targsize = (r, m1) \<and> r \<noteq> -1 \<Longrightarrow>
     \<exists>n. accepts target targsize cs (m, 0, 0) m1 n \<and> r = as_int n"
  "accepts target targsize cs (m, 0, 0) m1 n \<Longrightarrow> f_b64_pton m cs target targsize = (as_int n, m1)"
  by (auto simp: f_b64_pton_def accepts_def split: sum.splits if_splits)

lemma accepts_step:
  assumes "target \<noteq> 0" "i + 1 < 2 ^ 32" "unat p < 64"
  shows
    "accepts target targsize (digit_char p # cs) (m, 0, i) m1 n \<longleftrightarrow> i < targsize \<and>
       accepts target targsize cs (m(target + int i := push_bit 2 p), Suc 0, i) m1 n"
    "accepts target targsize (digit_char p # cs) (m, Suc 0, i) m1 n \<longleftrightarrow> Suc i < targsize \<and>
       accepts target targsize cs
         (m(target + int i := m (target + int i) OR drop_bit 4 p,
            target + int (Suc i) := push_bit 4 (p AND 0x0f)), 2, Suc i) m1 n"
    "accepts target targsize (digit_char p # cs) (m, 2, i) m1 n \<longleftrightarrow> Suc i < targsize \<and>
       accepts target targsize cs
         (m(target + int i := m (target + int i) OR drop_bit 2 p,
            target + int (Suc i) := push_bit 6 (p AND 0x03)), 3, Suc i) m1 n"
    "accepts target targsize (digit_char p # cs) (m, 3, i) m1 n \<longleftrightarrow> i < targsize \<and>
       accepts target targsize cs (m(target + int i := m (target + int i) OR p), 0, Suc i) m1 n"
  using assms(1,2) unfolding accepts_digit [OF assms(3)]
  by (auto simp: pton_digit_def add32_small Let_def not_le split: if_splits)

lemma accepts_two:
  assumes "target \<noteq> 0" "i + 3 < 2 ^ 32" "unat p0 < 64" "unat p1 < 64"
  shows "accepts target targsize (digit_char p0 # digit_char p1 # cs) (m, 0, i) m1 n \<longleftrightarrow>
     Suc i < targsize \<and>
     accepts target targsize cs
       (m(target + int i := push_bit 2 p0 OR drop_bit 4 p1,
          target + int (Suc i) := push_bit 4 (p1 AND 0x0f)), 2, Suc i) m1 n"
proof -
  have "i + 1 < 2 ^ 32" using assms(2) by simp
  note s = accepts_step [OF assms(1) this]
  show ?thesis
    unfolding s(1) [OF assms(3)] s(2) [OF assms(4)] by (simp add: fun_upd_same) linarith
qed

lemma accepts_three:
  assumes "target \<noteq> 0" "i + 3 < 2 ^ 32" "unat p0 < 64" "unat p1 < 64" "unat p2 < 64"
  shows "accepts target targsize (digit_char p0 # digit_char p1 # digit_char p2 # cs) (m, 0, i) m1 n \<longleftrightarrow>
     Suc (Suc i) < targsize \<and>
     accepts target targsize cs
       (m(target + int i := push_bit 2 p0 OR drop_bit 4 p1,
          target + int (Suc i) := push_bit 4 (p1 AND 0x0f) OR drop_bit 2 p2,
          target + int (Suc (Suc i)) := push_bit 6 (p2 AND 0x03)), 3, Suc (Suc i)) m1 n"
proof -
  have "Suc i + 1 < 2 ^ 32" using assms(2) by simp
  note s = accepts_step [OF assms(1) this]
  show ?thesis
    unfolding accepts_two [OF assms(1-4)] s(3) [OF assms(5)]
    by (simp only: fun_upd_same fun_upd_upd) linarith
qed

lemma accepts_group:
  assumes "target \<noteq> 0" "i + 3 < 2 ^ 32" "unat p0 < 64" "unat p1 < 64" "unat p2 < 64" "unat p3 < 64"
  shows "accepts target targsize
      (digit_char p0 # digit_char p1 # digit_char p2 # digit_char p3 # cs) (m, 0, i) m1 n \<longleftrightarrow>
    i + 2 < targsize \<and> accepts target targsize cs (put3 m (target + int i) p0 p1 p2 p3, 0, i + 3) m1 n"
proof -
  have "Suc (Suc i) + 1 < 2 ^ 32" using assms(2) by simp
  note s = accepts_step [OF assms(1) this]
  have a: "target + int (Suc i) = target + int i + 1" "target + int (Suc (Suc i)) = target + int i + 2"
    "target + int (i + 2) = target + int i + 2"
    "Suc (i + 2) = i + 3" "Suc (Suc i) = i + 2" by simp_all
  show ?thesis
    unfolding accepts_three [OF assms(1-5)] s(4) [OF assms(6)] put3_def
    by (simp only: fun_upd_same fun_upd_upd a) blast
qed

lemma pton_end_final:
  assumes "target \<noteq> 0" "strip cs = cs"
  shows "pton_end target (Some cs) m 2 i \<longleftrightarrow> cs = [Pad64] \<and> m (target + int i) = 0"
    and "pton_end target (Some cs) m 3 i \<longleftrightarrow> cs = [] \<and> m (target + int i) = 0"
    and "\<not> pton_end target (Some cs) m 0 i" and "\<not> pton_end target (Some cs) m (Suc 0) i"
proof -
  have k: "skip_spaces cs = cs" using skip_spaces_strip(2) [of cs] assms(2) by simp
  have k1: "skip_spaces c1 = c1" if "cs = c # c1" for c c1
  proof -
    have "strip c1 = c1" using assms(2) unfolding that strip_fix by simp
    with skip_spaces_strip(2) [of c1] show ?thesis by simp
  qed
  show "pton_end target (Some cs) m 2 i \<longleftrightarrow> cs = [Pad64] \<and> m (target + int i) = 0"
    using assms k1 pad_not_space by (cases cs) (auto simp: pton_end_def k extra_bits_def strip_fix)
  show "pton_end target (Some cs) m 3 i \<longleftrightarrow> cs = [] \<and> m (target + int i) = 0"
    using assms(1) by (auto simp: pton_end_def k extra_bits_def)
qed (simp_all add: pton_end_def)

lemma rd_put3:
  assumes "rd_bytes m1 (a + 3) k = bs" "\<forall>p < a + 3. m1 p = put3 m a p0 p1 p2 p3 p"
  shows "rd_bytes m1 a (k + 3) =
    (push_bit 2 p0 OR drop_bit 4 p1) # (push_bit 4 (p1 AND 0x0f) OR drop_bit 2 p2) #
    (push_bit 6 (p2 AND 0x03) OR p3) # bs"
  using assms by (simp add: eval_nat_numeral rd_bytes_Suc put3_def add.assoc)

text \<open>The decoder accepts the reference encoding and restores the bytes.\<close>

lemma accepts_base64:
  assumes "target \<noteq> 0" "i + length bs < targsize" "i + length bs < 2 ^ 31"
  shows "\<exists>m1. accepts target targsize (base64 bs) (m, 0, i) m1 (i + length bs) \<and>
     rd_bytes m1 (target + int i) (length bs) = bs \<and> (\<forall>p < target + int i. m1 p = m p)"
  using assms(2,3)
proof (induction bs arbitrary: m i rule: base64.induct)
  case 1
  then show ?case by (auto simp: accepts_Nil)
next
  case (2 a)
  have z: "push_bit 4 (sextet1 a 0 AND 0x0f) = 0"
    using group_of_sextets(2) [of a 0 0] by (simp add: or_eq_0_iff)
  let ?m = "m(target + int i := push_bit 2 (sextet0 a) OR drop_bit 4 (sextet1 a 0),
    target + int (Suc i) := push_bit 4 (sextet1 a 0 AND 0x0f))"
  have acc: "accepts target targsize (base64 [a]) (m, 0, i) ?m (i + length [a])"
    using 2 assms(1) unfolding base64_short
    by (subst accepts_two)
      (simp_all add: unat_sextet_less accepts_pad pton_end_final strip_fix pad_not_space, use z in simp)
  have "rd_bytes ?m (target + int i) (length [a]) = [a]" "\<forall>p < target + int i. ?m p = m p"
    unfolding group_of_sextets by (simp_all add: rd_bytes_Suc)
  with acc show ?case by blast
next
  case (3 a b)
  have z: "push_bit 6 (sextet2 b 0 AND 0x03) = 0"
    using group_of_sextets(3) [of b 0] by (simp add: or_eq_0_iff)
  let ?m = "m(target + int i := push_bit 2 (sextet0 a) OR drop_bit 4 (sextet1 a b),
    target + int (Suc i) := push_bit 4 (sextet1 a b AND 0x0f) OR drop_bit 2 (sextet2 b 0),
    target + int (Suc (Suc i)) := push_bit 6 (sextet2 b 0 AND 0x03))"
  have acc: "accepts target targsize (base64 [a, b]) (m, 0, i) ?m (i + length [a, b])"
    using 3 assms(1) unfolding base64_short
    by (subst accepts_three)
      (simp_all add: unat_sextet_less accepts_pad pton_end_final strip_fix pad_not_space, use z in simp)
  have "rd_bytes ?m (target + int i) (length [a, b]) = [a, b]" "\<forall>p < target + int i. ?m p = m p"
    unfolding group_of_sextets by (simp_all add: rd_bytes_Suc)
  with acc show ?case by blast
next
  case (4 a b c bs)
  let ?m = "put3 m (target + int i) (sextet0 a) (sextet1 a b) (sextet2 b c) (sextet3 c)"
  have shift: "target + int (i + 3) = target + int i + 3" by simp
  obtain m1 where m1: "accepts target targsize (base64 bs) (?m, 0, i + 3) m1 (i + 3 + length bs)"
      "rd_bytes m1 (target + int (i + 3)) (length bs) = bs" "\<forall>p < target + int (i + 3). m1 p = ?m p"
    using "4.IH" [of "i + 3" ?m] "4.prems" by auto
  have "accepts target targsize (base64 (a # b # c # bs)) (m, 0, i) m1 (i + length (a # b # c # bs))"
    using "4.prems" m1(1) unfolding base64_group append.simps
    by (subst accepts_group [OF assms(1)]) (simp_all add: unat_sextet_less numeral_3_eq_3)
  moreover have "rd_bytes m1 (target + int i) (length bs + 3) = a # b # c # bs"
    using rd_put3 [OF m1(2,3) [unfolded shift], unfolded group_of_sextets] .
  moreover have "\<forall>p < target + int i. m1 p = m p" using m1(3) by (simp add: put3_def)
  ultimately show ?case by (auto simp: numeral_3_eq_3)
qed

lemma u8_less_64_iff: "p < (64 :: u8) \<longleftrightarrow> unat p < 64"
  by (simp add: word_less_nat_alt)

lemma base64_of_digits:
  assumes "unat p0 < 64" "unat p1 < 64"
  shows "push_bit 4 (p1 AND 0x0f) = 0 \<Longrightarrow>
      base64 [push_bit 2 p0 OR drop_bit 4 p1] = [digit_char p0, digit_char p1, Pad64, Pad64]"
    and "unat p2 < 64 \<Longrightarrow> push_bit 6 (p2 AND 0x03) = 0 \<Longrightarrow>
      base64 [push_bit 2 p0 OR drop_bit 4 p1, push_bit 4 (p1 AND 0x0f) OR drop_bit 2 p2] =
        [digit_char p0, digit_char p1, digit_char p2, Pad64]"
    and "unat p2 < 64 \<Longrightarrow> unat p3 < 64 \<Longrightarrow>
      base64 ((push_bit 2 p0 OR drop_bit 4 p1) # (push_bit 4 (p1 AND 0x0f) OR drop_bit 2 p2) #
          (push_bit 6 (p2 AND 0x03) OR p3) # bs) =
        digit_char p0 # digit_char p1 # digit_char p2 # digit_char p3 # base64 bs"
proof -
  note s = sextets_of_group [unfolded u8_less_64_iff, OF assms]
  show "base64 [push_bit 2 p0 OR drop_bit 4 p1] = [digit_char p0, digit_char p1, Pad64, Pad64]"
    if "push_bit 4 (p1 AND 0x0f) = 0"
    using s(1) [of 0 0] s(2) [of 0 0, unfolded that] unfolding base64_short by simp
  show "base64 [push_bit 2 p0 OR drop_bit 4 p1, push_bit 4 (p1 AND 0x0f) OR drop_bit 2 p2] =
        [digit_char p0, digit_char p1, digit_char p2, Pad64]"
    if "unat p2 < 64" "push_bit 6 (p2 AND 0x03) = 0"
    using s(1,2) [OF that(1), of 0] s(3) [OF that(1), of 0, unfolded that(2)]
    unfolding base64_short by simp
  show "base64 ((push_bit 2 p0 OR drop_bit 4 p1) # (push_bit 4 (p1 AND 0x0f) OR drop_bit 2 p2) #
          (push_bit 6 (p2 AND 0x03) OR p3) # bs) =
        digit_char p0 # digit_char p1 # digit_char p2 # digit_char p3 # base64 bs"
    if "unat p2 < 64" "unat p3 < 64"
    using s [OF that] unfolding base64_group by simp
qed

lemma accepts_sound:
  assumes "target \<noteq> 0" "strip cs = cs" "i + length cs < 2 ^ 31"
    and "accepts target targsize cs (m, 0, i) m1 n"
  shows "\<exists>bs. cs = base64 bs \<and> n = i + length bs \<and>
     rd_bytes m1 (target + int i) (length bs) = bs \<and> (\<forall>p < target + int i. m1 p = m p)"
  using assms(2-4)
proof (induction "length cs" arbitrary: cs m i rule: less_induct)
  case less
  have bound: "i + 3 < 2 ^ 32" "i + 1 < 2 ^ 32" using less.prems(2) by simp_all
  have ns: "\<And>ys cs1. cs = ys @ cs1 \<Longrightarrow> strip cs1 = cs1"
    using less.prems(1) unfolding strip_fix by simp
  note one = accepts_step(1) [OF assms(1) bound(2)] and two = accepts_two [OF assms(1) bound(1)]
    and three = accepts_three [OF assms(1) bound(1)]
    and group = accepts_group [OF assms(1) bound(1)] and final = pton_end_final [OF assms(1)]
  have head: thesis
    if "accepts target targsize (c # ds) (m', s, j) m1 n" "cs = ys @ c # ds"
      "c = Pad64 \<Longrightarrow> m1 = m' \<Longrightarrow> n = j \<Longrightarrow> pton_end target (Some ds) m' s j \<Longrightarrow> strip ds = ds \<Longrightarrow> thesis"
      "\<And>p. unat p < 64 \<Longrightarrow> c = digit_char p \<Longrightarrow> thesis"
    for c ds m' s j ys thesis
  proof -
    have d: "strip ds = ds" by (rule ns [of "ys @ [c]"]) (simp add: that(2))
    show thesis
    proof (rule accepts_ConsE [OF that(1) ns [OF that(2)]])
      assume "c = Pad64"
      with that(1) d show thesis by (intro that(3)) (simp_all add: accepts_pad)
    qed (rule that(4))
  qed
  have shift: "target + int (i + 3) = target + int i + 3" by simp
  show ?case
  proof (cases cs)
    case Nil
    then show ?thesis
      using less.prems(3) by (intro exI [of _ "[]"]) (simp add: accepts_Nil)
  next
    case (Cons c0 cs0)
    note a0 = less.prems(3) [unfolded Cons]
    obtain p0 where p0: "unat p0 < 64" "c0 = digit_char p0"
    proof (rule head [OF a0, of "[]"])
      show "cs = [] @ c0 # cs0" by (simp add: Cons)
    qed (use final(3) in blast)+
    note a1 = a0 [unfolded p0(2) one [OF p0(1)], THEN conjunct2]
    obtain c1 cs1 where c1: "cs0 = c1 # cs1" using a1 by (cases cs0) (simp_all add: accepts_Nil)
    obtain p1 where p1: "unat p1 < 64" "c1 = digit_char p1"
    proof (rule head [OF a1 [unfolded c1], of "[c0]"])
      show "cs = [c0] @ c1 # cs1" by (simp add: Cons c1)
    qed (use final(4) in blast)+
    note a2 = a0 [unfolded c1 p0(2) p1(2) two [OF p0(1) p1(1)], THEN conjunct2]
    obtain c2 cs2 where c2: "cs1 = c2 # cs2" using a2 by (cases cs1) (simp_all add: accepts_Nil)
    have cs2: "cs = [c0, c1] @ c2 # cs2" "cs = [c0, c1, c2] @ cs2" by (simp_all add: Cons c1 c2)
    show ?thesis
    proof (rule head [OF a2 [unfolded c2] cs2(1)])
      assume "c2 = Pad64" and m1: "m1 = m(target + int i := push_bit 2 p0 OR drop_bit 4 p1,
          target + int (Suc i) := push_bit 4 (p1 AND 0x0f))" and n: "n = Suc i"
        and e: "pton_end target (Some cs2) (m(target + int i := push_bit 2 p0 OR drop_bit 4 p1,
          target + int (Suc i) := push_bit 4 (p1 AND 0x0f))) 2 (Suc i)" and "strip cs2 = cs2"
      let ?b = "push_bit 2 p0 OR drop_bit 4 p1"
      have z: "cs2 = [Pad64]" "push_bit 4 (p1 AND 0x0f) = 0"
        using final(1) [OF \<open>strip cs2 = cs2\<close>, of _ "Suc i"] e by (simp_all only: fun_upd_same)
      have "cs = base64 [?b]"
        unfolding base64_of_digits(1) [OF p0(1) p1(1) z(2)]
        by (simp add: cs2(2) z(1) p0 p1 \<open>c2 = Pad64\<close>)
      moreover have "rd_bytes m1 (target + int i) (length [?b]) = [?b]" "\<forall>p < target + int i. m1 p = m p"
        by (simp_all add: m1 rd_bytes_Suc)
      ultimately show ?thesis using n by (intro exI [of _ "[?b]"]) simp
    next
      fix p2 assume p2: "unat p2 < 64" "c2 = digit_char p2"
      note a3 = a0 [unfolded c1 c2 p0(2) p1(2) p2(2) three [OF p0(1) p1(1) p2(1)], THEN conjunct2]
      obtain c3 cs3 where c3: "cs2 = c3 # cs3" using a3 by (cases cs2) (simp_all add: accepts_Nil)
      have cs3: "cs = [c0, c1, c2] @ c3 # cs3" "cs = [c0, c1, c2, c3] @ cs3" by (simp_all add: cs2 c3)
      let ?b0 = "push_bit 2 p0 OR drop_bit 4 p1"
      let ?b1 = "push_bit 4 (p1 AND 0x0f) OR drop_bit 2 p2"
      let ?m = "m(target + int i := ?b0, target + int (Suc i) := ?b1,
        target + int (Suc (Suc i)) := push_bit 6 (p2 AND 0x03))"
      show ?thesis
      proof (rule head [OF a3 [unfolded c3] cs3(1)])
        assume "c3 = Pad64" and m1: "m1 = ?m" and n: "n = Suc (Suc i)"
          and e: "pton_end target (Some cs3) ?m 3 (Suc (Suc i))" and "strip cs3 = cs3"
        have z: "cs3 = []" "push_bit 6 (p2 AND 0x03) = 0"
          using final(2) [OF \<open>strip cs3 = cs3\<close>, of _ "Suc (Suc i)"] e by (simp_all only: fun_upd_same)
        have "cs = base64 [?b0, ?b1]"
          unfolding base64_of_digits(2) [OF p0(1) p1(1) p2(1) z(2)]
          by (simp add: cs3(2) z(1) p0 p1 p2 \<open>c3 = Pad64\<close>)
        moreover have "rd_bytes m1 (target + int i) (length [?b0, ?b1]) = [?b0, ?b1]"
          "\<forall>p < target + int i. m1 p = m p"
          by (simp_all add: m1 rd_bytes_Suc)
        ultimately show ?thesis using n by (intro exI [of _ "[?b0, ?b1]"]) simp
      next
        fix p3 assume p3: "unat p3 < 64" "c3 = digit_char p3"
        let ?p = "put3 m (target + int i) p0 p1 p2 p3"
        note a4 = a0 [unfolded c1 c2 c3 p0(2) p1(2) p2(2) p3(2)
            group [OF p0(1) p1(1) p2(1) p3(1)], THEN conjunct2]
        obtain bs where bs: "cs3 = base64 bs" "n = i + 3 + length bs"
            "rd_bytes m1 (target + int (i + 3)) (length bs) = bs"
            "\<forall>p < target + int (i + 3). m1 p = ?p p"
          using less.hyps [OF _ ns [OF cs3(2)] _ a4] less.prems(2) cs3(2) by auto
        let ?bs = "?b0 # ?b1 # (push_bit 6 (p2 AND 0x03) OR p3) # bs"
        have "cs = base64 ?bs"
          unfolding base64_of_digits(3) [OF p0(1) p1(1) p2(1) p3(1)]
          by (simp add: cs3(2) bs(1) p0 p1 p2 p3)
        moreover have "rd_bytes m1 (target + int i) (length ?bs) = ?bs"
          using rd_put3 [OF bs(3,4) [unfolded shift]] by (simp only: list.size add_0 numeral_3_eq_3 add_Suc_right add_0_right)
        moreover have "\<forall>p < target + int i. m1 p = m p" using bs(4) by (simp add: put3_def)
        ultimately show ?thesis using bs(2) by (intro exI [of _ ?bs]) simp
      qed
    qed
  qed
qed

subsection \<open>The result of the encoder as an \<open>int\<close>\<close>

lemma as_int_small: "n < 2 ^ 31 \<Longrightarrow> as_int n = int n"
  by (simp add: as_int_def signed_take_bit_int_eq_self)

lemma set_base64: "ch \<in> set (base64 bs) \<Longrightarrow> \<not> isspace ch"
  by (induction bs rule: base64.induct)
    (auto simp: base64_sextets Base64_not_special unat_sextet_less pad_not_space)

lemma strip_base64: "strip (base64 bs) = base64 bs"
  using set_base64 by (simp add: strip_fix)

lemma f_b64_pton_base64:
  assumes "strip cs = base64 bs" "target \<noteq> 0" "length bs < targsize" "length bs < 2 ^ 31"
  shows "\<exists>m1. f_b64_pton m cs target targsize = (int (length bs), m1) \<and>
     rd_bytes m1 target (length bs) = bs"
  using accepts_base64 [of target 0 bs targsize m] assms(2-4)
    f_b64_pton_accepts(2) [of target targsize "base64 bs" m]
    f_b64_pton_strip [of m cs target targsize] assms(1)
  by (auto simp: as_int_small)

lemma f_b64_pton_canonical:
  assumes "f_b64_pton m cs target targsize = (r, m1)" "r \<noteq> -1" "target \<noteq> 0" "length cs < 2 ^ 31"
  shows "\<exists>bs. strip cs = base64 bs \<and> r = int (length bs) \<and> rd_bytes m1 target (length bs) = bs"
proof -
  have l: "length (strip cs) < 2 ^ 31"
    using length_filter_le [of "\<lambda>ch. \<not> isspace ch" cs] assms(4) unfolding strip_def by linarith
  obtain n where n: "accepts target targsize (strip cs) (m, 0, 0) m1 n" "r = as_int n"
    using f_b64_pton_accepts(1) [of m "strip cs" target targsize r m1] assms(1,2)
    unfolding f_b64_pton_strip by blast
  obtain bs where "strip cs = base64 bs" "n = length bs" "rd_bytes m1 target (length bs) = bs"
    using accepts_sound [OF assms(3) _ _ n(1)] l by auto
  moreover have "length bs \<le> length (base64 bs)" by (simp add: length_base64)
  ultimately show ?thesis using n(2) l by (auto simp: as_int_small)
qed

end
