(* ===== verification/Ldb_Coding.thy ===== *)
theory Ldb_Coding
  imports Varint
begin

text \<open>
  LevelDB's byte encodings (\<open>util/coding.h\<close>, \<open>util/coding.cc\<close>): fixed-width integers in
  little-endian order, base-128 varints and length-prefixed slices. A \<open>Slice\<close> or a pointer
  range \<open>[p, limit)\<close> is the list of the bytes it covers; a routine that returns the pointer
  past what it has parsed returns the rest of the list, and \<open>NULL\<close> is \<open>None\<close>. A routine that
  appends to \<open>*dst\<close> is given by \<open>dst @ bytes\<close>.
\<close>

type_synonym slice = "u8 list"

subsection \<open>Fixed-width integers\<close>

text \<open>
  The code copies the object representation when the machine is little-endian
  (\<open>port::kLittleEndian\<close>, the first argument) and writes the bytes one by one otherwise.
\<close>

definition EncodeFixed32 :: "bool \<Rightarrow> u32 \<Rightarrow> u8 list" where
  "EncodeFixed32 le value =
     (if le then le_bytes 4 value
      else [ucast (value AND 0xff), ucast (drop_bit 8 value AND 0xff),
            ucast (drop_bit 16 value AND 0xff), ucast (drop_bit 24 value AND 0xff)])"

definition EncodeFixed64 :: "bool \<Rightarrow> u64 \<Rightarrow> u8 list" where
  "EncodeFixed64 le value =
     (if le then le_bytes 8 value
      else [ucast (value AND 0xff), ucast (drop_bit 8 value AND 0xff),
            ucast (drop_bit 16 value AND 0xff), ucast (drop_bit 24 value AND 0xff),
            ucast (drop_bit 32 value AND 0xff), ucast (drop_bit 40 value AND 0xff),
            ucast (drop_bit 48 value AND 0xff), ucast (drop_bit 56 value AND 0xff)])"

definition DecodeFixed32 :: "bool \<Rightarrow> u8 list \<Rightarrow> u32" where
  "DecodeFixed32 le ptr =
     (if le then le_val (take 4 ptr)
      else ucast (ptr ! 0) OR push_bit 8 (ucast (ptr ! 1)) OR push_bit 16 (ucast (ptr ! 2)) OR
           push_bit 24 (ucast (ptr ! 3)))"

definition DecodeFixed64 :: "bool \<Rightarrow> u8 list \<Rightarrow> u64" where
  "DecodeFixed64 le ptr =
     (if le then le_val (take 8 ptr)
      else let lo = ucast (DecodeFixed32 le ptr); hi = ucast (DecodeFixed32 le (drop 4 ptr))
           in push_bit 32 hi OR lo)"

text \<open>The targets of the application are little-endian (\<open>PLATFORM_IS_LITTLE_ENDIAN\<close>).\<close>

definition kLittleEndian :: bool where "kLittleEndian = True"

definition PutFixed32 :: "u8 list \<Rightarrow> u32 \<Rightarrow> u8 list" where
  "PutFixed32 dst value = dst @ EncodeFixed32 kLittleEndian value"

definition PutFixed64 :: "u8 list \<Rightarrow> u64 \<Rightarrow> u8 list" where
  "PutFixed64 dst value = dst @ EncodeFixed64 kLittleEndian value"

subsection \<open>Varints\<close>

definition EncodeVarint32 :: "u32 \<Rightarrow> u8 list" where
  "EncodeVarint32 v =
     (if v < 2 ^ 7 then [ucast v]
      else if v < 2 ^ 14 then [ucast (v OR 128), ucast (drop_bit 7 v)]
      else if v < 2 ^ 21 then
        [ucast (v OR 128), ucast (drop_bit 7 v OR 128), ucast (drop_bit 14 v)]
      else if v < 2 ^ 28 then
        [ucast (v OR 128), ucast (drop_bit 7 v OR 128), ucast (drop_bit 14 v OR 128),
         ucast (drop_bit 21 v)]
      else
        [ucast (v OR 128), ucast (drop_bit 7 v OR 128), ucast (drop_bit 14 v OR 128),
         ucast (drop_bit 21 v OR 128), ucast (drop_bit 28 v)])"

definition PutVarint32 :: "u8 list \<Rightarrow> u32 \<Rightarrow> u8 list" where
  "PutVarint32 dst v = dst @ EncodeVarint32 v"

function EncodeVarint64 :: "u64 \<Rightarrow> u8 list" where
  "EncodeVarint64 v =
     (if 128 \<le> v then ucast ((v AND 127) OR 128) # EncodeVarint64 (drop_bit 7 v) else [ucast v])"
  by pat_completeness auto
termination
proof (relation "measure unat")
  fix v :: u64 assume "128 \<le> v"
  then show "(drop_bit 7 v, v) \<in> measure unat" by (simp add: unat_drop7 word_le_nat_alt)
qed simp

declare EncodeVarint64.simps [simp del]

definition PutVarint64 :: "u8 list \<Rightarrow> u64 \<Rightarrow> u8 list" where
  "PutVarint64 dst v = dst @ EncodeVarint64 v"

function VarintLength :: "u64 \<Rightarrow> nat" where
  "VarintLength v = (if 128 \<le> v then Suc (VarintLength (drop_bit 7 v)) else 1)"
  by pat_completeness auto
termination
proof (relation "measure unat")
  fix v :: u64 assume "128 \<le> v"
  then show "(drop_bit 7 v, v) \<in> measure unat" by (simp add: unat_drop7 word_le_nat_alt)
qed simp

declare VarintLength.simps [simp del]

text \<open>The decoding loops; \<open>shift\<close> grows by 7, so it never wraps.\<close>

fun get32_loop :: "nat \<Rightarrow> u32 \<Rightarrow> slice \<Rightarrow> (u32 \<times> slice) option" where
  "get32_loop shift result [] = None"
| "get32_loop shift result (b # p) =
     (if shift \<le> 28 then
        let byte = ucast b in
        if byte AND 128 \<noteq> 0 then get32_loop (shift + 7) (result OR push_bit shift (byte AND 127)) p
        else Some (result OR push_bit shift byte, p)
      else None)"

definition GetVarint32PtrFallback :: "slice \<Rightarrow> (u32 \<times> slice) option" where
  "GetVarint32PtrFallback p = get32_loop 0 0 p"

definition GetVarint32Ptr :: "slice \<Rightarrow> (u32 \<times> slice) option" where
  "GetVarint32Ptr p =
     (if p \<noteq> [] then
        let result = ucast (hd p) in
        if result AND 128 = 0 then Some (result, tl p) else GetVarint32PtrFallback p
      else GetVarint32PtrFallback p)"

fun get64_loop :: "nat \<Rightarrow> u64 \<Rightarrow> slice \<Rightarrow> (u64 \<times> slice) option" where
  "get64_loop shift result [] = None"
| "get64_loop shift result (b # p) =
     (if shift \<le> 63 then
        let byte = ucast b in
        if byte AND 128 \<noteq> 0 then get64_loop (shift + 7) (result OR push_bit shift (byte AND 127)) p
        else Some (result OR push_bit shift byte, p)
      else None)"

definition GetVarint64Ptr :: "slice \<Rightarrow> (u64 \<times> slice) option" where
  "GetVarint64Ptr p = get64_loop 0 0 p"

text \<open>
  The slice-based variants return the value parsed, if any, and the slice \<open>*input\<close> after the
  call; a failed call leaves it unchanged.
\<close>

definition GetVarint32 :: "slice \<Rightarrow> u32 option \<times> slice" where
  "GetVarint32 input =
     (case GetVarint32Ptr input of None \<Rightarrow> (None, input) | Some (v, q) \<Rightarrow> (Some v, q))"

definition GetVarint64 :: "slice \<Rightarrow> u64 option \<times> slice" where
  "GetVarint64 input =
     (case GetVarint64Ptr input of None \<Rightarrow> (None, input) | Some (v, q) \<Rightarrow> (Some v, q))"

subsection \<open>Length-prefixed slices\<close>

definition PutLengthPrefixedSlice :: "u8 list \<Rightarrow> slice \<Rightarrow> u8 list" where
  "PutLengthPrefixedSlice dst s = PutVarint32 dst (of_nat (length s)) @ s"

definition GetLengthPrefixedSlicePtr :: "slice \<Rightarrow> (slice \<times> slice) option" where
  "GetLengthPrefixedSlicePtr p =
     (case GetVarint32Ptr p of
        None \<Rightarrow> None
      | Some (len, p1) \<Rightarrow>
          if length p1 < unat len then None else Some (take (unat len) p1, drop (unat len) p1))"

text \<open>
  When the length is read but the bytes are missing, \<open>*input\<close> has already been advanced past
  the length.
\<close>

definition GetLengthPrefixedSlice :: "slice \<Rightarrow> slice option \<times> slice" where
  "GetLengthPrefixedSlice input =
     (case GetVarint32 input of
        (None, input1) \<Rightarrow> (None, input1)
      | (Some len, input1) \<Rightarrow>
          if unat len \<le> length input1 then (Some (take (unat len) input1), drop (unat len) input1)
          else (None, input1))"

subsection \<open>Fixed-width integers are endian-neutral\<close>

lemma ucast_and_0xff: "8 \<le> LENGTH('a) \<Longrightarrow> (ucast (v AND 0xff :: 'a::len word) :: u8) = ucast v"
proof -
  assume "8 \<le> LENGTH('a)"
  have "v AND 0xff = take_bit 8 v" by (simp add: take_bit_eq_mask mask_eq_exp_minus_1)
  then show ?thesis using \<open>8 \<le> LENGTH('a)\<close> by (auto simp: bit_eq_iff bit_simps)
qed

lemma EncodeFixed_neutral:
  "EncodeFixed32 le v = le_bytes 4 v" "EncodeFixed64 le w = le_bytes 8 w"
  by (simp_all add: EncodeFixed32_def EncodeFixed64_def ucast_and_0xff eval_nat_numeral)

lemma bit_le_val:
  "bit (le_val bs :: 'a::len word) k \<longleftrightarrow>
     k < LENGTH('a) \<and> k div 8 < length bs \<and> bit (bs ! (k div 8)) (k mod 8)"
proof (induction bs arbitrary: k)
  case (Cons b bs)
  show ?case
  proof (cases "k < 8")
    case True
    then show ?thesis by (auto simp: bit_simps)
  next
    case False
    then obtain j where k: "k = j + 8" by (metis add.commute le_Suc_ex not_less)
    have "\<not> bit b k" using False bit_imp_le_length [of b k] by auto
    moreover have "(j + 8) div 8 = Suc (j div 8)" by simp
    ultimately show ?thesis using Cons.IH [of j] by (auto simp: k bit_simps dest: bit_imp_le_length)
  qed
qed simp

lemma le_val_append:
  "le_val (bs @ cs) = (le_val bs OR push_bit (8 * length bs) (le_val cs) :: 'a::len word)"
  by (induction bs) (simp_all add: push_bit_or or.assoc)

lemma ucast_le_val:
  "8 * length bs \<le> LENGTH('a) \<Longrightarrow> (ucast (le_val bs :: 'a::len word) :: 'b::len word) = le_val bs"
  by (rule bit_word_eqI) (auto simp: bit_le_val bit_ucast_iff)

lemma take_nths:
  "4 \<le> length p \<Longrightarrow> take 4 p = [p ! 0, p ! 1, p ! 2, p ! 3]"
  by (rule nth_equalityI) (auto simp: less_Suc_eq numeral_eq_Suc)

lemma DecodeFixed32_le: "4 \<le> length p \<Longrightarrow> DecodeFixed32 le p = le_val (take 4 p)"
  by (simp add: DecodeFixed32_def take_nths push_bit_or)

lemma DecodeFixed64_le:
  assumes "8 \<le> length p"
  shows "DecodeFixed64 le p = le_val (take 8 p)"
proof -
  have t: "take 8 p = take 4 p @ take 4 (drop 4 p)"
    using take_add [of 4 4 p] by simp
  show ?thesis
    using assms by (simp add: DecodeFixed64_def Let_def DecodeFixed32_le ucast_le_val t le_val_append or.commute)
qed

lemma DecodeFixed32_Encode [simp]: "DecodeFixed32 le (EncodeFixed32 le' v @ r) = v"
  by (subst DecodeFixed32_le) (simp_all add: EncodeFixed_neutral le_simps)

lemma DecodeFixed64_Encode [simp]: "DecodeFixed64 le (EncodeFixed64 le' v @ r) = v"
  by (subst DecodeFixed64_le) (simp_all add: EncodeFixed_neutral le_simps)

lemma length_EncodeFixed [simp]:
  "length (EncodeFixed32 le v) = 4" "length (EncodeFixed64 le w) = 8"
  by (simp_all add: EncodeFixed_neutral)

subsection \<open>Varints are the reference encoding\<close>

lemma cont_byte64: "(ucast ((v AND 127) OR 128 :: u64) :: u8) = of_nat (unat v mod 128 + 128)"
  by (rule cont_byte) simp

lemma EncodeVarint64_vbytes: "EncodeVarint64 v = vbytes (unat v)"
proof (induction v rule: EncodeVarint64.induct)
  case (1 v)
  show ?case
  proof (cases "128 \<le> v")
    case True
    then have "\<not> unat v < 128" by (simp add: word_le_nat_alt)
    with True 1 show ?thesis
      unfolding EncodeVarint64.simps [of v] vbytes.simps [of "unat v"]
      by (simp only: if_True if_False cont_byte64 unat_drop7)
  next
    case False
    then have "unat v < 128" by (simp add: word_le_nat_alt)
    with False show ?thesis
      unfolding EncodeVarint64.simps [of v] vbytes.simps [of "unat v"] by (simp only: if_True if_False ucast_byte_of_nat)
  qed
qed

lemma VarintLength_vbytes: "VarintLength v = length (vbytes (unat v))"
proof (induction v rule: VarintLength.induct)
  case (1 v)
  then show ?case
    by (subst VarintLength.simps, subst vbytes.simps) (auto simp: word_le_nat_alt unat_drop7)
qed

lemma ucast_or_128: "(ucast (v OR 128 :: u32) :: u8) = of_nat (unat v mod 128 + 128)"
proof -
  have "(ucast (v OR 128 :: u32) :: u8) = ucast ((v AND 0x7F) OR 0x80)"
    by (rule u8_eqI, unfold all_less_8) (simp add: bit_simps)
  then show ?thesis by (simp add: cont_byte)
qed

lemma EncodeVarint32_vbytes: "EncodeVarint32 v = vbytes (unat v)"
proof -
  let ?n = "unat v"
  have d: "unat (drop_bit (7 * k) v) = ?n div 128 ^ k" for k
  proof -
    have "unat (drop_bit (7 * k) v) = ?n div 2 ^ (7 * k)"
      unfolding unat_drop_bit_eq by (rule drop_bit_eq_div)
    then show ?thesis by (simp add: power_mult)
  qed
  have c: "ucast (drop_bit (7 * k) v) = (of_nat (?n div 128 ^ k) :: u8)"
    "(ucast (drop_bit (7 * k) v OR 128) :: u8) = of_nat (?n div 128 ^ k mod 128 + 128)" for k
    by (simp_all only: ucast_or_128 d) (simp only: ucast_byte_of_nat d)
  note cs = c [of 1, simplified] c [of 2, simplified] c [of 3, simplified] c [of 4, simplified]
  have less: "v < 2 ^ 7 \<longleftrightarrow> ?n < 128" "v < 2 ^ 14 \<longleftrightarrow> ?n < 128 ^ 2" "v < 2 ^ 21 \<longleftrightarrow> ?n < 128 ^ 3"
    "v < 2 ^ 28 \<longleftrightarrow> ?n < 128 ^ 4"
    by (simp_all add: word_less_nat_alt)
  have "?n < 128 ^ 5" using unsigned_less [of v, where ?'a = nat] by simp
  then have b5: "?n div 128 div 128 div 128 div 128 < 128" by simp
  have b: "?n < 128 ^ 2 \<longleftrightarrow> ?n div 128 < 128" "?n < 128 ^ 3 \<longleftrightarrow> ?n div 128 div 128 < 128"
    "?n < 128 ^ 4 \<longleftrightarrow> ?n div 128 div 128 div 128 < 128"
    by (simp_all add: div_less_iff_less_mult)
  have s: "?n div 128 ^ 2 = ?n div 128 div 128" "?n div 128 ^ 3 = ?n div 128 div 128 div 128"
    "?n div 128 ^ 4 = ?n div 128 div 128 div 128 div 128"
    by (simp_all flip: div_mult2_eq)
  note c0 = ucast_byte_of_nat [of v] ucast_or_128 [of v]
  note V = vbytes.simps [of ?n] vbytes.simps [of "?n div 128"] vbytes.simps [of "?n div 128 div 128"]
    vbytes.simps [of "?n div 128 div 128 div 128"] vbytes.simps [of "?n div 128 div 128 div 128 div 128"]
  consider "?n < 128" | "\<not> ?n < 128" "?n div 128 < 128"
    | "\<not> ?n < 128" "\<not> ?n div 128 < 128" "?n div 128 div 128 < 128"
    | "\<not> ?n < 128" "\<not> ?n div 128 < 128" "\<not> ?n div 128 div 128 < 128" "?n div 128 div 128 div 128 < 128"
    | "\<not> ?n < 128" "\<not> ?n div 128 < 128" "\<not> ?n div 128 div 128 < 128"
      "\<not> ?n div 128 div 128 div 128 < 128" by blast
  then show ?thesis
    unfolding EncodeVarint32_def less b c0 cs s
    by cases (simp_all only: V b5 if_True if_False, simp_all flip: div_mult2_eq)
qed

subsection \<open>Decoding\<close>

lemma byte_more:
  assumes "8 \<le> LENGTH('a)"
  shows "(ucast (b :: u8) AND 128 :: 'a::len word) = 0 \<longleftrightarrow> unat b < 128"
proof -
  have e: "(128 :: 'a word) = 2 ^ 7" "(0x80 :: u8) = 2 ^ 7" by simp_all
  have "(ucast b AND 128 :: 'a word) = 0 \<longleftrightarrow> \<not> bit (ucast b :: 'a word) 7"
    unfolding e(1) by (rule and_exp_eq_0_iff_not_bit)
  also have "\<dots> \<longleftrightarrow> \<not> bit b 7" using assms by (simp add: bit_ucast_iff)
  also have "\<dots> \<longleftrightarrow> b AND 0x80 = 0"
    unfolding e(2) by (rule and_exp_eq_0_iff_not_bit [symmetric])
  finally show ?thesis by (simp only: top_bit_u8)
qed

lemma byte_low7:
  assumes "8 \<le> LENGTH('a)"
  shows "(ucast (b :: u8) AND 127 :: 'a::len word) = of_nat (unat b mod 128)"
proof -
  have "unat b < 2 ^ 8" using unsigned_less [of b, where ?'a = nat] by simp
  also have "(2 :: nat) ^ 8 \<le> 2 ^ LENGTH('a)" using assms by (rule power_increasing) simp
  finally have "unat (ucast b :: 'a word) = unat b"
    unfolding unsigned_ucast_eq by (rule take_bit_nat_eq_self)
  then have "unat (ucast b AND 0x7F :: 'a word) = unat b mod 128"
    unfolding unat_and_mask7 [OF assms] by simp
  then have "of_nat (unat (ucast b AND 0x7F :: 'a word)) = (of_nat (unat b mod 128) :: 'a word)"
    by (simp only:)
  then show ?thesis by (simp only: of_nat_unat ucast_id)
qed

lemma byte_of_vbyte:
  "n < 128 \<Longrightarrow> 8 \<le> LENGTH('a) \<Longrightarrow> (ucast (of_nat n :: u8) :: 'a::len word) = of_nat n"
  by (simp add: ucast_eq_of_nat [of "of_nat n :: u8"] unat_u8_of_nat)

lemma get32_loop_vbytes:
  "shift + 7 * length (vbytes n) \<le> 35 \<Longrightarrow>
     get32_loop shift r (vbytes n @ rest) = Some (r OR push_bit shift (of_nat n), rest)"
proof (induction n arbitrary: shift r rule: vbytes.induct)
  case (1 n)
  have sh: "shift \<le> 28" using "1.prems" by (subst (asm) vbytes.simps) (auto split: if_splits)
  show ?case
  proof (cases "n < 128")
    case True
    then have u: "unat (of_nat n :: u8) < 128" by (simp add: unat_u8_of_nat)
    have v: "vbytes n = [of_nat n]" using True by (subst vbytes.simps) simp
    have "(ucast (of_nat n :: u8) AND 128 :: u32) = 0" using u by (subst byte_more) simp_all
    then show ?thesis using sh True by (simp add: v Let_def byte_of_vbyte)
  next
    case False
    let ?b = "of_nat (n mod 128 + 128) :: u8"
    have u: "unat ?b = n mod 128 + 128" by (rule unat_u8_of_nat) simp
    have v: "vbytes n = ?b # vbytes (n div 128)" using False by (subst vbytes.simps) simp
    have a: "(ucast ?b AND 128 :: u32) \<noteq> 0" by (subst byte_more) (simp_all only: u, simp_all)
    have l: "(ucast ?b AND 127 :: u32) = of_nat (n mod 128)"
      by (subst byte_low7) (simp_all only: u, simp_all)
    have "shift + 7 + 7 * length (vbytes (n div 128)) \<le> 35" using "1.prems" by (simp add: v)
    note IH = "1.IH" [OF False this]
    show ?thesis
      unfolding v append_Cons get32_loop.simps Let_def if_P [OF sh] if_P [OF a] l IH
      by (simp only: or.assoc push_of_nat_mod_div7)
  qed
qed
lemma get64_loop_vbytes:
  "shift + 7 * length (vbytes n) \<le> 70 \<Longrightarrow>
     get64_loop shift r (vbytes n @ rest) = Some (r OR push_bit shift (of_nat n), rest)"
proof (induction n arbitrary: shift r rule: vbytes.induct)
  case (1 n)
  have sh: "shift \<le> 63" using "1.prems" by (subst (asm) vbytes.simps) (auto split: if_splits)
  show ?case
  proof (cases "n < 128")
    case True
    then have u: "unat (of_nat n :: u8) < 128" by (simp add: unat_u8_of_nat)
    have v: "vbytes n = [of_nat n]" using True by (subst vbytes.simps) simp
    have "(ucast (of_nat n :: u8) AND 128 :: u64) = 0" using u by (subst byte_more) simp_all
    then show ?thesis using sh True by (simp add: v Let_def byte_of_vbyte)
  next
    case False
    let ?b = "of_nat (n mod 128 + 128) :: u8"
    have u: "unat ?b = n mod 128 + 128" by (rule unat_u8_of_nat) simp
    have v: "vbytes n = ?b # vbytes (n div 128)" using False by (subst vbytes.simps) simp
    have a: "(ucast ?b AND 128 :: u64) \<noteq> 0" by (subst byte_more) (simp_all only: u, simp_all)
    have l: "(ucast ?b AND 127 :: u64) = of_nat (n mod 128)"
      by (subst byte_low7) (simp_all only: u, simp_all)
    have "shift + 7 + 7 * length (vbytes (n div 128)) \<le> 70" using "1.prems" by (simp add: v)
    note IH = "1.IH" [OF False this]
    show ?thesis
      unfolding v append_Cons get64_loop.simps Let_def if_P [OF sh] if_P [OF a] l IH
      by (simp only: or.assoc push_of_nat_mod_div7)
  qed
qed

lemma vbytes_hd:
  "unat (hd (vbytes n)) < 128 \<longleftrightarrow> n < 128"
proof (cases "n < 128")
  case False
  have "unat (of_nat (n mod 128 + 128) :: u8) = n mod 128 + 128" by (rule unat_u8_of_nat) simp
  with False show ?thesis by (subst vbytes.simps) (simp del: of_nat_add)
qed (subst vbytes.simps, simp add: unat_u8_of_nat)

lemma GetVarint32Ptr_vbytes: "GetVarint32Ptr (vbytes (unat v) @ rest) = Some (v, rest)"
proof -
  have l: "get32_loop 0 0 (vbytes (unat v) @ rest) = Some (v, rest)"
    using get32_loop_vbytes [of 0 "unat v" 0 rest] length_vbytes_u32 [of v] by simp
  show ?thesis
  proof (cases "unat v < 128")
    case True
    then have vb: "vbytes (unat v) = [of_nat (unat v)]" by (subst vbytes.simps) simp
    have u: "unat (of_nat (unat v) :: u8) < 128" using True by (subst unat_u8_of_nat) simp_all
    have "(ucast (of_nat (unat v) :: u8) AND 128 :: u32) = 0" using u by (subst byte_more) simp_all
    moreover have "(ucast (of_nat (unat v) :: u8) :: u32) = v"
      using True by (subst byte_of_vbyte) simp_all
    ultimately show ?thesis
      unfolding GetVarint32Ptr_def vb by (simp only: Let_def append.simps list.sel list.distinct simp_thms if_True)
  next
    case False
    then have "(ucast (hd (vbytes (unat v) @ rest)) AND 128 :: u32) \<noteq> 0"
      by (subst byte_more) (simp_all add: vbytes_hd hd_append)
    then show ?thesis
      by (simp add: GetVarint32Ptr_def GetVarint32PtrFallback_def l Let_def)
  qed
qed

lemma GetVarint64Ptr_vbytes: "GetVarint64Ptr (vbytes (unat v) @ rest) = Some (v, rest)"
  using get64_loop_vbytes [of 0 "unat v" 0 rest] length_vbytes_u64 [of v]
  by (simp add: GetVarint64Ptr_def)

interpretation varint32: codec EncodeVarint32 GetVarint32Ptr "\<lambda>_. True"
  by unfold_locales (simp add: EncodeVarint32_vbytes GetVarint32Ptr_vbytes)

interpretation varint64: codec EncodeVarint64 GetVarint64Ptr "\<lambda>_. True"
  by unfold_locales (simp add: EncodeVarint64_vbytes GetVarint64Ptr_vbytes)

lemma GetVarint32_Encode [simp]: "GetVarint32 (EncodeVarint32 v @ rest) = (Some v, rest)"
  by (simp add: GetVarint32_def varint32.dec_enc)

lemma GetVarint64_Encode [simp]: "GetVarint64 (EncodeVarint64 v @ rest) = (Some v, rest)"
  by (simp add: GetVarint64_def varint64.dec_enc)

definition prefixed :: "slice \<Rightarrow> u8 list" where
  "prefixed s = EncodeVarint32 (of_nat (length s)) @ s"

lemma PutLengthPrefixedSlice_prefixed: "PutLengthPrefixedSlice dst s = dst @ prefixed s"
  by (simp add: PutLengthPrefixedSlice_def PutVarint32_def prefixed_def)

interpretation prefixed: codec prefixed GetLengthPrefixedSlicePtr "\<lambda>s. length s < 2 ^ 32"
  by unfold_locales
    (simp add: prefixed_def GetLengthPrefixedSlicePtr_def varint32.dec_enc unat_of_nat)

lemma GetLengthPrefixedSlice_prefixed:
  "length s < 2 ^ 32 \<Longrightarrow> GetLengthPrefixedSlice (prefixed s @ rest) = (Some s, rest)"
  by (simp add: GetLengthPrefixedSlice_def prefixed_def unat_of_nat)

subsection \<open>What a failed or successful read consumes\<close>

lemma get32_loop_le:
  "get32_loop shift r p = Some (v, q) \<Longrightarrow> \<exists>n. 0 < n \<and> shift + 7 * n \<le> 35 \<and> q = drop n p \<and> n \<le> length p"
proof (induction shift r p rule: get32_loop.induct)
  case (2 shift r b p)
  show ?case
  proof (cases "(ucast b AND 128 :: u32) = 0")
    case True
    with 2 show ?thesis by (intro exI [of _ 1]) (auto split: if_splits)
  next
    case False
    with 2 obtain n where "0 < n" "shift + 7 + 7 * n \<le> 35" "q = drop n p" "n \<le> length p"
      by (auto simp: Let_def split: if_splits)
    then show ?thesis by (intro exI [of _ "Suc n"]) auto
  qed
qed simp

end
