(* ===== verification/Ldb_Status.thy ===== *)
theory Ldb_Status
  imports Ldb_Coding
begin

text \<open>
  The result type of LevelDB's operations (\<open>include/leveldb/status.h\<close>, \<open>util/status.cc\<close>).
  A \<open>Status\<close> holds \<open>state_\<close>: null for success, otherwise an array with the length of the
  message in four bytes, the code in one byte, and the message.
\<close>

abbreviation str :: "string \<Rightarrow> u8 list" where "str s \<equiv> map of_char s"

type_synonym status = "u8 list option"

definition OK :: status where "OK = None"

definition kOk :: u8 where "kOk = 0"
definition kNotFound :: u8 where "kNotFound = 1"
definition kCorruption :: u8 where "kCorruption = 2"
definition kNotSupported :: u8 where "kNotSupported = 3"
definition kInvalidArgument :: u8 where "kInvalidArgument = 4"
definition kIOError :: u8 where "kIOError = 5"

lemmas code_defs = kOk_def kNotFound_def kCorruption_def kNotSupported_def kInvalidArgument_def kIOError_def

definition make_status :: "u8 \<Rightarrow> slice \<Rightarrow> slice \<Rightarrow> status" where
  "make_status code msg msg2 =
     (let len1 = (of_nat (length msg) :: u32);
          len2 = (of_nat (length msg2) :: u32);
          size = len1 + (if len2 \<noteq> 0 then 2 + len2 else 0)
      in Some (le_bytes 4 size @ [code] @ take (unat len1) msg @
           (if len2 \<noteq> 0 then str '': '' @ take (unat len2) msg2 else [])))"

definition NotFound :: "slice \<Rightarrow> slice \<Rightarrow> status" where
  "NotFound msg msg2 = make_status kNotFound msg msg2"
definition Corruption :: "slice \<Rightarrow> slice \<Rightarrow> status" where
  "Corruption msg msg2 = make_status kCorruption msg msg2"
definition NotSupported :: "slice \<Rightarrow> slice \<Rightarrow> status" where
  "NotSupported msg msg2 = make_status kNotSupported msg msg2"
definition InvalidArgument :: "slice \<Rightarrow> slice \<Rightarrow> status" where
  "InvalidArgument msg msg2 = make_status kInvalidArgument msg msg2"
definition IOError :: "slice \<Rightarrow> slice \<Rightarrow> status" where
  "IOError msg msg2 = make_status kIOError msg msg2"

definition ok :: "status \<Rightarrow> bool" where "ok s \<longleftrightarrow> s = None"

definition status_code :: "status \<Rightarrow> u8" where
  "status_code s = (case s of None \<Rightarrow> kOk | Some state \<Rightarrow> state ! 4)"

definition IsNotFound :: "status \<Rightarrow> bool" where "IsNotFound s \<longleftrightarrow> status_code s = kNotFound"
definition IsCorruption :: "status \<Rightarrow> bool" where "IsCorruption s \<longleftrightarrow> status_code s = kCorruption"
definition IsIOError :: "status \<Rightarrow> bool" where "IsIOError s \<longleftrightarrow> status_code s = kIOError"
definition IsNotSupportedError :: "status \<Rightarrow> bool" where
  "IsNotSupportedError s \<longleftrightarrow> status_code s = kNotSupported"
definition IsInvalidArgument :: "status \<Rightarrow> bool" where
  "IsInvalidArgument s \<longleftrightarrow> status_code s = kInvalidArgument"

text \<open>\<open>CopyState\<close> copies as many bytes as the length field of the array says.\<close>

definition CopyState :: "u8 list \<Rightarrow> u8 list" where
  "CopyState state = take (unat (le_val (take 4 state) :: u32) + 5) state"

definition copy_status :: "status \<Rightarrow> status" where
  "copy_status s = (case s of None \<Rightarrow> None | Some state \<Rightarrow> Some (CopyState state))"

text \<open>The decimal notation of \<open>printf\<close>.\<close>

fun decimal :: "nat \<Rightarrow> u8 list" where
  "decimal n = (if n < 10 then [of_nat (48 + n)] else decimal (n div 10) @ [of_nat (48 + n mod 10)])"

declare decimal.simps [simp del]

definition ToString :: "status \<Rightarrow> u8 list" where
  "ToString s =
     (case s of
        None \<Rightarrow> str ''OK''
      | Some state \<Rightarrow>
          (let code = status_code s;
               type = (if code = kOk then str ''OK''
                  else if code = kNotFound then str ''NotFound: ''
                  else if code = kCorruption then str ''Corruption: ''
                  else if code = kNotSupported then str ''Not implemented: ''
                  else if code = kInvalidArgument then str ''Invalid argument: ''
                  else if code = kIOError then str ''IO error: ''
                  else str ''Unknown code('' @
                    (if code < 128 then decimal (unat code) else str ''-'' @ decimal (256 - unat code)) @
                    str ''): '')
           in type @ take (unat (le_val (take 4 state) :: u32)) (drop 5 state)))"

subsection \<open>Every error keeps its code and its message\<close>

text \<open>The message of a status made from two slices.\<close>

definition message_of :: "slice \<Rightarrow> slice \<Rightarrow> u8 list" where
  "message_of msg msg2 = (if msg2 = [] then msg else msg @ str '': '' @ msg2)"

lemma make_status_eq:
  assumes "length msg + length msg2 + 2 < 2 ^ 32"
  shows "make_status code msg msg2 =
    Some (le_bytes 4 (of_nat (length (message_of msg msg2)) :: u32) @ [code] @ message_of msg msg2)"
proof -
  have u: "unat (of_nat (length msg) :: u32) = length msg" "unat (of_nat (length msg2) :: u32) = length msg2"
    using assms by (simp_all add: unat_of_nat)
  have z: "(of_nat (length msg2) :: u32) = 0 \<longleftrightarrow> msg2 = []"
    unfolding word_unat_eq_iff u(2) by simp
  have s: "(of_nat (length msg) :: u32) + (2 + of_nat (length msg2)) = of_nat (length msg + (2 + length msg2))"
    by simp
  show ?thesis
  proof (cases "msg2 = []")
    case True
    then show ?thesis by (simp add: make_status_def Let_def message_of_def u)
  next
    case False
    then show ?thesis
      unfolding make_status_def Let_def message_of_def u s z if_not_P [OF False] if_P [OF False]
      by simp
  qed
qed

lemma status_code_make [simp]: "status_code (make_status code msg msg2) = code"
  by (simp add: status_code_def make_status_def Let_def nth_append)

lemma ok_make [simp]: "\<not> ok (make_status code msg msg2)"
  by (simp add: ok_def make_status_def Let_def)

lemma ok_OK [simp]: "ok OK" by (simp add: ok_def OK_def)

lemma copy_status_make:
  assumes "length msg + length msg2 + 2 < 2 ^ 32"
  shows "copy_status (make_status code msg msg2) = make_status code msg msg2"
proof -
  have "length (message_of msg msg2) < 2 ^ 32" using assms by (simp add: message_of_def)
  then have "unat (of_nat (length (message_of msg msg2)) :: u32) = length (message_of msg msg2)"
    by (simp add: unat_of_nat)
  then show ?thesis
    unfolding make_status_eq [OF assms] by (simp add: copy_status_def CopyState_def le_simps)
qed

text \<open>The name that \<open>ToString\<close> prints for each code.\<close>

lemma ToString_make:
  assumes "length msg + length msg2 + 2 < 2 ^ 32"
    and "(code, name) \<in> {(kNotFound, ''NotFound: ''), (kCorruption, ''Corruption: ''),
      (kNotSupported, ''Not implemented: ''), (kInvalidArgument, ''Invalid argument: ''), (kIOError, ''IO error: '')}"
  shows "ToString (make_status code msg msg2) = str name @ message_of msg msg2"
proof -
  have "length (message_of msg msg2) < 2 ^ 32" using assms by (simp add: message_of_def)
  then have u: "unat (of_nat (length (message_of msg msg2)) :: u32) = length (message_of msg msg2)"
    by (simp add: unat_of_nat)
  have c: "status_code (Some (le_bytes 4 (of_nat (length (message_of msg msg2)) :: u32) @ [code] @
      message_of msg msg2)) = code"
    by (simp add: status_code_def nth_append)
  show ?thesis
    unfolding make_status_eq [OF assms(1)] ToString_def option.case c Let_def
    using assms(2) u by (auto simp: code_defs le_simps)
qed

lemmas status_makers = NotFound_def Corruption_def NotSupported_def InvalidArgument_def IOError_def

lemmas status_tests = IsNotFound_def IsCorruption_def IsNotSupportedError_def IsInvalidArgument_def IsIOError_def

end
