(* ===== verification/Ldb_Env.thy ===== *)
theory Ldb_Env
  imports Ldb_Status
begin

text \<open>
  The files of the storage engine: the interfaces \<open>WritableFile\<close>, \<open>SequentialFile\<close> and
  \<open>RandomAccessFile\<close> (\<open>include/leveldb/env.h\<close>) as records of operations, the contracts their clients rely on as
  locales, and the POSIX implementations (\<open>util/env_posix.cc\<close>) over the C library's \<open>FILE\<close>.
\<close>

subsection \<open>The interfaces\<close>

record 'f writable_file =
  wf_append :: "'f \<Rightarrow> slice \<Rightarrow> status \<times> 'f"
  wf_flush :: "'f \<Rightarrow> status \<times> 'f"

record 'f sequential_file =
  sf_read :: "'f \<Rightarrow> nat \<Rightarrow> status \<times> slice \<times> 'f"
  sf_skip :: "'f \<Rightarrow> nat \<Rightarrow> status \<times> 'f"

text \<open>A file that appends what it is given, and a file that is read from front to back.\<close>

locale appending_file =
  fixes W :: "'f writable_file"
    and good :: "'f \<Rightarrow> bool"
    and contents :: "'f \<Rightarrow> u8 list"
  assumes append_law: "good f \<Longrightarrow>
      \<exists>f1. wf_append W f s = (OK, f1) \<and> good f1 \<and> contents f1 = contents f @ s"
    and flush_law: "good f \<Longrightarrow> \<exists>f1. wf_flush W f = (OK, f1) \<and> good f1 \<and> contents f1 = contents f"

locale reading_file =
  fixes F :: "'f sequential_file"
    and good :: "'f \<Rightarrow> bool"
    and rest :: "'f \<Rightarrow> u8 list"
  assumes read_law: "good f \<Longrightarrow>
      \<exists>f1. sf_read F f n = (OK, take n (rest f), f1) \<and> good f1 \<and> rest f1 = drop n (rest f)"
    and skip_law: "good f \<Longrightarrow>
      \<exists>s f1. sf_skip F f n = (s, f1) \<and> good f1 \<and> length (rest f1) \<le> length (rest f)"

subsection \<open>The C library's \<open>FILE\<close>\<close>

text \<open>
  The bytes of the file and the position; how many more bytes can be written before the
  device is full (\<open>None\<close>: no limit); the position at which a read fails (\<open>None\<close>: never); what
  \<open>fflush\<close> and \<open>fseek\<close> return; and the message of \<open>errno\<close> after a failure.
\<close>

record FILE =
  fdata :: "u8 list"
  fpos :: nat
  fspace :: "nat option"
  fbad :: "nat option"
  fflush_result :: int
  fseek_result :: int
  errno_message :: "u8 list"

definition fwrite_unlocked :: "u8 list \<Rightarrow> FILE \<Rightarrow> nat \<times> FILE" where
  "fwrite_unlocked data f =
     (let r = (case fspace f of None \<Rightarrow> length data | Some k \<Rightarrow> min k (length data))
      in (r, f\<lparr>fdata := fdata f @ take r data, fspace := map_option (\<lambda>k. k - r) (fspace f)\<rparr>))"

text \<open>The bytes read, and whether the end of the file was met.\<close>

definition fread_unlocked :: "nat \<Rightarrow> FILE \<Rightarrow> u8 list \<times> bool \<times> FILE" where
  "fread_unlocked n f =
     (let avail = (case fbad f of None \<Rightarrow> fdata f | Some k \<Rightarrow> take k (fdata f));
          got = take n (drop (fpos f) avail)
      in (got, length got < n \<and> length (fdata f) \<le> fpos f + length got, f\<lparr>fpos := fpos f + length got\<rparr>))"

definition fseek_cur :: "nat \<Rightarrow> FILE \<Rightarrow> int \<times> FILE" where
  "fseek_cur n f = (fseek_result f, if fseek_result f = 0 then f\<lparr>fpos := fpos f + n\<rparr> else f)"

subsection \<open>The POSIX files\<close>

record posix_file =
  filename :: "u8 list"
  stdio :: FILE

definition posix_IOError :: "u8 list \<Rightarrow> FILE \<Rightarrow> status" where
  "posix_IOError context f = IOError context (errno_message f)"

definition PosixSequentialFile_Read :: "posix_file \<Rightarrow> nat \<Rightarrow> status \<times> slice \<times> posix_file" where
  "PosixSequentialFile_Read p n =
     (let (got, eof, f) = fread_unlocked n (stdio p);
          s = (if length got < n then if eof then OK else posix_IOError (filename p) f else OK)
      in (s, got, p\<lparr>stdio := f\<rparr>))"

definition PosixSequentialFile_Skip :: "posix_file \<Rightarrow> nat \<Rightarrow> status \<times> posix_file" where
  "PosixSequentialFile_Skip p n =
     (let (r, f) = fseek_cur n (stdio p)
      in (if r \<noteq> 0 then posix_IOError (filename p) f else OK, p\<lparr>stdio := f\<rparr>))"

definition PosixWritableFile_Append :: "posix_file \<Rightarrow> slice \<Rightarrow> status \<times> posix_file" where
  "PosixWritableFile_Append p data =
     (let (r, f) = fwrite_unlocked data (stdio p)
      in (if r \<noteq> length data then posix_IOError (filename p) f else OK, p\<lparr>stdio := f\<rparr>))"

definition PosixWritableFile_Flush :: "posix_file \<Rightarrow> status \<times> posix_file" where
  "PosixWritableFile_Flush p =
     (if fflush_result (stdio p) \<noteq> 0 then posix_IOError (filename p) (stdio p) else OK, p)"

definition PosixSequentialFile :: "posix_file sequential_file" where
  "PosixSequentialFile = \<lparr>sf_read = PosixSequentialFile_Read, sf_skip = PosixSequentialFile_Skip\<rparr>"

definition PosixWritableFile :: "posix_file writable_file" where
  "PosixWritableFile = \<lparr>wf_append = PosixWritableFile_Append, wf_flush = PosixWritableFile_Flush\<rparr>"

text \<open>A device with room and without read errors.\<close>

definition writable :: "posix_file \<Rightarrow> bool" where
  "writable p \<longleftrightarrow> fspace (stdio p) = None \<and> fflush_result (stdio p) = 0"

definition readable :: "posix_file \<Rightarrow> bool" where
  "readable p \<longleftrightarrow> fbad (stdio p) = None"

definition posix_contents :: "posix_file \<Rightarrow> u8 list" where
  "posix_contents p = fdata (stdio p)"

definition posix_rest :: "posix_file \<Rightarrow> u8 list" where
  "posix_rest p = drop (fpos (stdio p)) (fdata (stdio p))"

text \<open>A file with the given bytes, opened at its start, on such a device.\<close>

definition good_file :: "u8 list \<Rightarrow> posix_file" where
  "good_file bs = \<lparr>filename = [], stdio = \<lparr>fdata = bs, fpos = 0, fspace = None, fbad = None,
     fflush_result = 0, fseek_result = 0, errno_message = []\<rparr>\<rparr>"

lemma good_file_simps [simp]:
  "writable (good_file bs)" "readable (good_file bs)" "posix_contents (good_file bs) = bs"
  "posix_rest (good_file bs) = bs"
  by (simp_all add: good_file_def writable_def readable_def posix_contents_def posix_rest_def)

interpretation posix_w: appending_file PosixWritableFile writable posix_contents
  by unfold_locales
    (auto simp: PosixWritableFile_def PosixWritableFile_Append_def PosixWritableFile_Flush_def
      fwrite_unlocked_def writable_def posix_contents_def Let_def)

interpretation posix_r: reading_file PosixSequentialFile readable posix_rest
proof unfold_locales
  fix f n assume g: "readable f"
  let ?got = "take n (drop (fpos (stdio f)) (fdata (stdio f)))"
  have e: "length ?got < n \<Longrightarrow> length (fdata (stdio f)) \<le> fpos (stdio f) + length ?got"
    by auto
  have "drop (fpos (stdio f) + length ?got) (fdata (stdio f)) = drop n (posix_rest f)"
    by (auto simp: posix_rest_def min_def add.commute)
  then show "\<exists>f1. sf_read PosixSequentialFile f n = (OK, take n (posix_rest f), f1) \<and>
      readable f1 \<and> posix_rest f1 = drop n (posix_rest f)"
    using g e by (auto simp: PosixSequentialFile_def PosixSequentialFile_Read_def fread_unlocked_def
        readable_def posix_rest_def Let_def)
next
  fix f n assume "readable f"
  then show "\<exists>s f1. sf_skip PosixSequentialFile f n = (s, f1) \<and> readable f1 \<and>
      length (posix_rest f1) \<le> length (posix_rest f)"
    by (auto simp: PosixSequentialFile_def PosixSequentialFile_Skip_def fseek_cur_def readable_def
        posix_rest_def)
qed

subsection \<open>Files that are read at any offset\<close>

text \<open>
  \<open>Read(offset, n, result, scratch)\<close>: the status, the slice, and whether the slice points into
  \<open>scratch\<close>. A read outside the memory of the process is undefined.
\<close>

record 'f random_access_file =
  raf_read :: "'f \<Rightarrow> u64 \<Rightarrow> u64 \<Rightarrow> (status \<times> slice \<times> bool) exec"

locale random_file =
  fixes R :: "'f random_access_file"
    and good :: "'f \<Rightarrow> bool"
    and contents :: "'f \<Rightarrow> u8 list"
  assumes read_law: "good f \<Longrightarrow> unat offset + unat n \<le> length (contents f) \<Longrightarrow>
      \<exists>sc. raf_read R f offset n = Done (OK, take (unat n) (drop (unat offset) (contents f)), sc)"

text \<open>The limiter of file descriptors and maps: the number of resources that are left.\<close>

definition Limiter_Acquire :: "int \<Rightarrow> bool \<times> int" where
  "Limiter_Acquire allowed = (if allowed \<le> 0 then (False, allowed) else (True, allowed - 1))"

definition Limiter_Release :: "int \<Rightarrow> int" where
  "Limiter_Release allowed = allowed + 1"

text \<open>
  The file behind a descriptor: its bytes, and the message of \<open>errno\<close> if \<open>open\<close> or \<open>pread\<close> fails.
  An offset that is negative as a 64-bit \<open>off_t\<close> makes \<open>pread\<close> fail.
\<close>

record posix_ra =
  ra_filename :: "u8 list"
  ra_temporary_fd :: bool
  ra_data :: "u8 list"
  ra_open_error :: "u8 list option"
  ra_pread_error :: "u8 list option"

definition einval :: "u8 list" where "einval = str ''Invalid argument''"

definition PosixRandomAccessFile_new :: "u8 list \<Rightarrow> u8 list \<Rightarrow> int \<Rightarrow> posix_ra \<times> int" where
  "PosixRandomAccessFile_new fname bytes limiter =
     (case Limiter_Acquire limiter of (acquired, limiter) \<Rightarrow>
        (\<lparr>ra_filename = fname, ra_temporary_fd = \<not> acquired, ra_data = bytes, ra_open_error = None, ra_pread_error = None\<rparr>,
         limiter))"

definition pread :: "posix_ra \<Rightarrow> u64 \<Rightarrow> u64 \<Rightarrow> u8 list + u8 list" where
  "pread f n offset =
     (case ra_pread_error f of
        Some msg \<Rightarrow> Inl msg
      | None \<Rightarrow>
          if 2 ^ 63 \<le> unat offset then Inl einval else Inr (take (unat n) (drop (unat offset) (ra_data f))))"

definition PosixRandomAccessFile_Read :: "posix_ra \<Rightarrow> u64 \<Rightarrow> u64 \<Rightarrow> (status \<times> slice \<times> bool) exec" where
  "PosixRandomAccessFile_Read f offset n =
     (if ra_temporary_fd f \<and> ra_open_error f \<noteq> None
      then Done (IOError (ra_filename f) (the (ra_open_error f)), [], False)
      else
        (case pread f n offset of
           Inl msg \<Rightarrow> Done (IOError (ra_filename f) msg, [], True)
         | Inr data \<Rightarrow> Done (OK, data, True)))"

text \<open>The mapped file: the bytes of the map. The check of the bounds is a 64-bit sum.\<close>

record posix_mmap =
  mm_filename :: "u8 list"
  mm_region :: "u8 list"

definition PosixMmapReadableFile_Read :: "posix_mmap \<Rightarrow> u64 \<Rightarrow> u64 \<Rightarrow> (status \<times> slice \<times> bool) exec" where
  "PosixMmapReadableFile_Read f offset n =
     (if of_nat (length (mm_region f)) < offset + n then Done (IOError (mm_filename f) einval, [], False)
      else if length (mm_region f) < unat offset + unat n then Undefined
      else Done (OK, take (unat n) (drop (unat offset) (mm_region f)), False))"

definition PosixRandomAccessFile :: "posix_ra random_access_file" where
  "PosixRandomAccessFile = \<lparr>raf_read = PosixRandomAccessFile_Read\<rparr>"

definition PosixMmapReadableFile :: "posix_mmap random_access_file" where
  "PosixMmapReadableFile = \<lparr>raf_read = PosixMmapReadableFile_Read\<rparr>"

text \<open>A file without read errors, of a size that an \<open>off_t\<close> can hold.\<close>

definition ra_good :: "posix_ra \<Rightarrow> bool" where
  "ra_good f \<longleftrightarrow> ra_open_error f = None \<and> ra_pread_error f = None \<and> length (ra_data f) < 2 ^ 63"

definition mm_good :: "posix_mmap \<Rightarrow> bool" where
  "mm_good f \<longleftrightarrow> length (mm_region f) < 2 ^ 64"

interpretation posix_ra: random_file PosixRandomAccessFile ra_good ra_data
proof
  fix f :: posix_ra and offset n :: u64
  assume g: "ra_good f" and l: "unat offset + unat n \<le> length (ra_data f)"
  then have "\<not> 2 ^ 63 \<le> unat offset" by (simp add: ra_good_def)
  then show "\<exists>sc. raf_read PosixRandomAccessFile f offset n = Done (OK, take (unat n) (drop (unat offset) (ra_data f)), sc)"
    using g by (intro exI [of _ True]) (simp add: PosixRandomAccessFile_def PosixRandomAccessFile_Read_def pread_def ra_good_def)
qed

interpretation posix_mmap: random_file PosixMmapReadableFile mm_good mm_region
proof
  fix f :: posix_mmap and offset n :: u64
  assume g: "mm_good f" and l: "unat offset + unat n \<le> length (mm_region f)"
  then have "unat (offset + n) = unat offset + unat n"
    by (simp add: mm_good_def unat_word_ariths)
  then have "\<not> of_nat (length (mm_region f)) < offset + n"
    using g l by (simp add: mm_good_def word_less_nat_alt unat_of_nat)
  then show "\<exists>sc. raf_read PosixMmapReadableFile f offset n = Done (OK, take (unat n) (drop (unat offset) (mm_region f)), sc)"
    using l by (intro exI [of _ False]) (simp add: PosixMmapReadableFile_def PosixMmapReadableFile_Read_def)
qed

end
