(* ===== verification/Ldb_Log.thy ===== *)
theory Ldb_Log
  imports Ldb_Crc32c Ldb_Env
begin

text \<open>
  The write-ahead log of LevelDB: the format (\<open>db/log_format.h\<close>), the writer
  (\<open>db/log_writer.h\<close>, \<open>db/log_writer.cc\<close>) and the reader (\<open>db/log_reader.h\<close>,
  \<open>db/log_reader.cc\<close>). A file is a sequence of blocks of 32768 bytes; a record is cut into
  fragments that do not cross a block boundary, each with a checksum, a length and a type.
  Writer and reader are parameterised by the operations of the file they use.
\<close>

subsection \<open>Format\<close>

definition kZeroType :: u8 where "kZeroType = 0"
definition kFullType :: u8 where "kFullType = 1"
definition kFirstType :: u8 where "kFirstType = 2"
definition kMiddleType :: u8 where "kMiddleType = 3"
definition kLastType :: u8 where "kLastType = 4"
definition kMaxRecordType :: u8 where "kMaxRecordType = kLastType"

lemmas type_defs = kZeroType_def kFullType_def kFirstType_def kMiddleType_def kLastType_def

definition kBlockSize :: nat where "kBlockSize = 32768"
definition kHeaderSize :: nat where "kHeaderSize = 4 + 2 + 1"

subsection \<open>The writer\<close>

record 'f writer =
  dest :: 'f
  block_offset :: nat
  type_crc :: "u32 list"

text \<open>
  The checksum routine is given an address for its alignment loop; its result does not
  depend on it (\<open>Extend_crc32c\<close>), so the model passes 0.
\<close>

definition InitTypeCrc :: "u32 list" where
  "InitTypeCrc = map (\<lambda>i. Value 0 [of_nat i]) [0..<Suc (unat kMaxRecordType)]"

definition Writer :: "'f \<Rightarrow> 'f writer" where
  "Writer d = \<lparr>dest = d, block_offset = 0, type_crc = InitTypeCrc\<rparr>"

definition Writer_at :: "'f \<Rightarrow> nat \<Rightarrow> 'f writer" where
  "Writer_at d dest_length =
     \<lparr>dest = d, block_offset = dest_length mod kBlockSize, type_crc = InitTypeCrc\<rparr>"

definition EmitPhysicalRecord ::
    "'f writable_file \<Rightarrow> 'f writer \<Rightarrow> u8 \<Rightarrow> slice \<Rightarrow> status \<times> 'f writer" where
  "EmitPhysicalRecord W w t ptr =
     (let n = length ptr;
          crc = Mask (Extend 0 (type_crc w ! unat t) ptr);
          buf = EncodeFixed32 kLittleEndian crc @ [of_nat (n mod 256), of_nat (n div 256), t];
          (s, d) = wf_append W (dest w) buf;
          (s, d) = (if ok s then
                      let (s, d) = wf_append W d ptr
                      in if ok s then wf_flush W d else (s, d)
                    else (s, d))
      in (s, w\<lparr>dest := d, block_offset := block_offset w + kHeaderSize + n\<rparr>))"

lemma block_offset_Emit:
  "EmitPhysicalRecord W w t ptr = (s, w1) \<Longrightarrow> block_offset w1 = block_offset w + kHeaderSize + length ptr"
  by (auto simp: EmitPhysicalRecord_def Let_def split: prod.splits)

text \<open>
  The start of a turn: a new block when the header does not fit. The asserted
  \<open>leftover >= 0\<close> is an invariant of the writer, so the subtraction is the one of the code.
\<close>

definition switch_block :: "'f writable_file \<Rightarrow> 'f writer \<Rightarrow> 'f writer" where
  "switch_block W w =
     (let leftover = kBlockSize - block_offset w
      in if leftover < kHeaderSize then
           (if leftover > 0 then w\<lparr>dest := snd (wf_append W (dest w) (replicate leftover 0))\<rparr> else w)
             \<lparr>block_offset := 0\<rparr>
         else w)"

definition record_type :: "bool \<Rightarrow> bool \<Rightarrow> u8" where
  "record_type first fin =
     (if first \<and> fin then kFullType else if first then kFirstType
      else if fin then kLastType else kMiddleType)"

definition fragment_length :: "nat \<Rightarrow> nat \<Rightarrow> nat" where
  "fragment_length left offset =
     (let avail = kBlockSize - offset - kHeaderSize in if left < avail then left else avail)"

lemma block_offset_switch:
  "block_offset (switch_block W w) =
     (if kBlockSize - block_offset w < kHeaderSize then 0 else block_offset w)"
  by (simp add: switch_block_def Let_def)

function add_loop :: "'f writable_file \<Rightarrow> 'f writer \<Rightarrow> slice \<Rightarrow> bool \<Rightarrow> status \<times> 'f writer" where
  "add_loop W w ptr first =
     (let w1 = switch_block W w;
          n = fragment_length (length ptr) (block_offset w1);
          fin = (length ptr = n);
          (s, w2) = EmitPhysicalRecord W w1 (record_type first fin) (take n ptr)
      in if ok s \<and> length ptr - n > 0 then add_loop W w2 (drop n ptr) False else (s, w2))"
  by pat_completeness auto
termination
proof (relation "measure (\<lambda>(W, w, ptr, first).
    2 * length ptr + (if kBlockSize - block_offset w = kHeaderSize then 1 else 0))")
  fix W :: "'f writable_file" and w ptr first w1 n e x s w2
  assume a: "w1 = switch_block W w" "n = fragment_length (length ptr) (block_offset w1)"
    "x = EmitPhysicalRecord W w1 (record_type first e) (take n ptr)" "(s, w2) = x"
    "ok s \<and> 0 < length ptr - n"
  have o: "block_offset w2 = block_offset w1 + kHeaderSize + min (length ptr) n"
    using block_offset_Emit [of W w1 "record_type first e" "take n ptr" s w2] a(3,4) by simp
  show "((W, w2, drop n ptr, False), W, w, ptr, first) \<in> measure (\<lambda>(W, w, ptr, first).
      2 * length ptr + (if kBlockSize - block_offset w = kHeaderSize then 1 else 0))"
  proof (cases "n = 0")
    case True
    with a(2,5) have "kBlockSize - block_offset w1 - kHeaderSize = 0"
      by (auto simp: fragment_length_def Let_def split: if_splits)
    moreover from this have "kBlockSize - block_offset w = kHeaderSize"
      unfolding a(1) block_offset_switch by (auto simp: kBlockSize_def kHeaderSize_def split: if_splits)
    ultimately show ?thesis
      using True o by (auto simp: kBlockSize_def kHeaderSize_def)
  next
    case False
    with a(5) show ?thesis by auto
  qed
qed simp

declare add_loop.simps [simp del]

definition AddRecord :: "'f writable_file \<Rightarrow> 'f writer \<Rightarrow> slice \<Rightarrow> status \<times> 'f writer" where
  "AddRecord W w s = add_loop W w s True"

subsection \<open>The reader\<close>

record 'f reader =
  rfile :: 'f
  has_reporter :: bool
  reports :: "(u64 \<times> status) list"
  verify_checksum :: bool
  buffer :: slice
  eof :: bool
  last_record_offset :: u64
  end_of_buffer_offset :: u64
  initial_offset :: u64
  resyncing :: bool

definition Reader :: "'f \<Rightarrow> bool \<Rightarrow> bool \<Rightarrow> u64 \<Rightarrow> 'f reader" where
  "Reader f reporter checksum offset =
     \<lparr>rfile = f, has_reporter = reporter, reports = [], verify_checksum = checksum, buffer = [],
      eof = False, last_record_offset = 0, end_of_buffer_offset = 0, initial_offset = offset,
      resyncing = 0 < offset\<rparr>"

text \<open>The special results of \<open>ReadPhysicalRecord\<close>; the type of a record is an \<open>unsigned int\<close>.\<close>

definition kEof :: u32 where "kEof = ucast kMaxRecordType + 1"
definition kBadRecord :: u32 where "kBadRecord = ucast kMaxRecordType + 2"

definition size64 :: "slice \<Rightarrow> u64" where "size64 s = of_nat (length s)"

definition ReportDrop :: "'f reader \<Rightarrow> u64 \<Rightarrow> status \<Rightarrow> 'f reader" where
  "ReportDrop r bytes reason =
     (if has_reporter r \<and> initial_offset r \<le> end_of_buffer_offset r - size64 (buffer r) - bytes
      then r\<lparr>reports := reports r @ [(bytes, reason)]\<rparr> else r)"

definition ReportCorruption :: "'f reader \<Rightarrow> u64 \<Rightarrow> string \<Rightarrow> 'f reader" where
  "ReportCorruption r bytes reason = ReportDrop r bytes (Corruption (str reason) [])"

text \<open>Returns whether the skip succeeded.\<close>

definition SkipToInitialBlock :: "'f sequential_file \<Rightarrow> 'f reader \<Rightarrow> bool \<times> 'f reader" where
  "SkipToInitialBlock F r =
     (let offset_in_block = initial_offset r mod of_nat kBlockSize;
          start = initial_offset r - offset_in_block;
          start = (if of_nat (kBlockSize - 6) < offset_in_block then start + of_nat kBlockSize else start);
          r = r\<lparr>end_of_buffer_offset := start\<rparr>
      in if 0 < start then
           let (s, f) = sf_skip F (rfile r) (unat start);
               r = r\<lparr>rfile := f\<rparr>
           in if \<not> ok s then (False, ReportDrop r start s) else (True, r)
         else (True, r))"

text \<open>
  \<open>fill\<close> is the part of the loop of \<open>ReadPhysicalRecord\<close> that refills the buffer until it
  holds a header: \<open>None\<close> when the loop returns \<open>kEof\<close>.
\<close>

function fill :: "'f sequential_file \<Rightarrow> 'f reader \<Rightarrow> bool \<times> 'f reader" where
  "fill F r =
     (if length (buffer r) < kHeaderSize then
        if \<not> eof r then
          let (s, got, f) = sf_read F (rfile r) kBlockSize;
              r1 = r\<lparr>rfile := f, buffer := got,
                     end_of_buffer_offset := end_of_buffer_offset r + size64 got\<rparr>
          in if \<not> ok s then
               (False, (ReportDrop (r1\<lparr>buffer := []\<rparr>) (of_nat kBlockSize) s)\<lparr>eof := True\<rparr>)
             else if length got < kBlockSize then fill F (r1\<lparr>eof := True\<rparr>)
             else fill F r1
        else (False, r\<lparr>buffer := []\<rparr>)
      else (True, r))"
  by pat_completeness auto
termination
  by (relation "measure (\<lambda>(F, r). if eof r \<or> kHeaderSize \<le> length (buffer r) then 0 else 1)")
    (auto simp: kBlockSize_def kHeaderSize_def not_less)

declare fill.simps [simp del]

text \<open>
  The result is the type and the new contents of \<open>*result\<close>, or \<open>None\<close> where the code leaves
  \<open>*result\<close> as it was. The header bytes are \<open>char\<close>s, which are signed on the targets.
\<close>

definition ReadPhysicalRecord ::
    "'f sequential_file \<Rightarrow> 'f reader \<Rightarrow> u32 \<times> slice option \<times> 'f reader" where
  "ReadPhysicalRecord F r0 =
     (case fill F r0 of
        (False, r) \<Rightarrow> (kEof, None, r)
      | (True, r) \<Rightarrow>
          (let header = buffer r;
               type = (scast (header ! 6) :: u32);
               len = unat (header ! 4) + 256 * unat (header ! 5);
               drop_size = size64 (buffer r)
           in if length (buffer r) < kHeaderSize + len then
                let r = r\<lparr>buffer := []\<rparr>
                in if \<not> eof r then (kBadRecord, None, ReportCorruption r drop_size ''bad record length'')
                   else (kEof, None, r)
              else if type = ucast kZeroType \<and> len = 0 then (kBadRecord, None, r\<lparr>buffer := []\<rparr>)
              else if verify_checksum r \<and>
                  Value 0 (take (1 + len) (drop 6 header)) \<noteq> Unmask (DecodeFixed32 kLittleEndian header)
                then (kBadRecord, None, ReportCorruption (r\<lparr>buffer := []\<rparr>) drop_size ''checksum mismatch'')
              else
                let r = r\<lparr>buffer := drop (kHeaderSize + len) (buffer r)\<rparr>
                in if end_of_buffer_offset r - size64 (buffer r) - of_nat kHeaderSize - of_nat len <
                      initial_offset r
                   then (kBadRecord, Some [], r)
                   else (type, Some (take len (drop kHeaderSize header)), r)))"

text \<open>
  The loop of \<open>ReadRecord\<close> over physical records. Its locals: the fragment, the partial record
  in \<open>scratch\<close>, whether a record has begun and its offset. \<open>None\<close>: the fuel is used up;
  \<open>Some (found, record, scratch, r)\<close>: the call returned.
\<close>

record locals =
  fragment :: slice
  scratch :: slice
  in_fragmented :: bool
  prospective :: u64

definition unknown_type :: "u32 \<Rightarrow> string \<Rightarrow> status" where
  "unknown_type type msg = Corruption (str msg @ decimal (unat type)) []"

text \<open>\<open>partial\<close>: the check shared by \<open>kFullType\<close> and \<open>kFirstType\<close>.\<close>

definition partial_record :: "'f reader \<Rightarrow> locals \<Rightarrow> string \<Rightarrow> 'f reader \<times> locals" where
  "partial_record r v reason =
     (if in_fragmented v then
        if scratch v = [] then (r, v\<lparr>in_fragmented := False\<rparr>)
        else (ReportCorruption r (size64 (scratch v)) reason, v)
      else (r, v))"

fun read_loop :: "nat \<Rightarrow> 'f sequential_file \<Rightarrow> 'f reader \<Rightarrow> locals \<Rightarrow>
    (bool \<times> slice \<times> slice \<times> 'f reader) option" where
  "read_loop 0 F r v = None"
| "read_loop (Suc fuel) F r v =
     (let (type, res, r) = ReadPhysicalRecord F r;
          v = (case res of None \<Rightarrow> v | Some s \<Rightarrow> v\<lparr>fragment := s\<rparr>);
          offset = end_of_buffer_offset r - size64 (buffer r) - of_nat kHeaderSize - size64 (fragment v)
      in if resyncing r \<and> type = ucast kMiddleType then read_loop fuel F r v
         else if resyncing r \<and> type = ucast kLastType then read_loop fuel F (r\<lparr>resyncing := False\<rparr>) v
         else
           let r = r\<lparr>resyncing := False\<rparr>
           in if type = ucast kFullType then
                let (r, v) = partial_record r v ''partial record without end(1)''
                in Some (True, fragment v, [], r\<lparr>last_record_offset := offset\<rparr>)
              else if type = ucast kFirstType then
                let (r, v) = partial_record r v ''partial record without end(2)''
                in read_loop fuel F r
                     (v\<lparr>prospective := offset, scratch := fragment v, in_fragmented := True\<rparr>)
              else if type = ucast kMiddleType then
                if \<not> in_fragmented v then
                  read_loop fuel F (ReportCorruption r (size64 (fragment v))
                    ''missing start of fragmented record(1)'') v
                else read_loop fuel F r (v\<lparr>scratch := scratch v @ fragment v\<rparr>)
              else if type = ucast kLastType then
                if \<not> in_fragmented v then
                  read_loop fuel F (ReportCorruption r (size64 (fragment v))
                    ''missing start of fragmented record(2)'') v
                else
                  let rec = scratch v @ fragment v
                  in Some (True, rec, rec, r\<lparr>last_record_offset := prospective v\<rparr>)
              else if type = kEof then
                Some (False, [], if in_fragmented v then [] else scratch v, r)
              else if type = kBadRecord then
                if in_fragmented v then
                  read_loop fuel F (ReportCorruption r (size64 (scratch v)) ''error in middle of record'')
                    (v\<lparr>in_fragmented := False, scratch := []\<rparr>)
                else read_loop fuel F r v
              else
                read_loop fuel F
                  (ReportDrop r (size64 (fragment v) + (if in_fragmented v then size64 (scratch v) else 0))
                     (unknown_type type ''unknown record type ''))
                  (v\<lparr>in_fragmented := False, scratch := []\<rparr>))"

text \<open>
  \<open>ReadRecord\<close>, given the contents of \<open>*record\<close> and \<open>*scratch\<close>: both are cleared after the
  skip; a failed skip leaves them as they are.
\<close>

definition ReadRecord :: "nat \<Rightarrow> 'f sequential_file \<Rightarrow> 'f reader \<Rightarrow> slice \<Rightarrow> slice \<Rightarrow>
    (bool \<times> slice \<times> slice \<times> 'f reader) option" where
  "ReadRecord fuel F r rec scr =
     (let (skipped, r) = (if last_record_offset r < initial_offset r then SkipToInitialBlock F r else (True, r))
      in if \<not> skipped then Some (False, rec, scr, r)
         else read_loop fuel F r
                \<lparr>fragment = [], scratch = [], in_fragmented = False, prospective = 0\<rparr>)"

definition LastRecordOffset :: "'f reader \<Rightarrow> u64" where
  "LastRecordOffset r = last_record_offset r"

end
