(* ===== verification/Ldb_Log_Proofs.thy ===== *)
theory Ldb_Log_Proofs
  imports Ldb_Log
begin

text \<open>
  What the log guarantees. The bytes that \<open>AddRecord\<close> writes are described as fragments that
  fit into their blocks; the reader, placed at the same offset, takes them back one by one,
  and takes a fragment that is cut short for the end of the file. From this: everything
  written is read back, a log that is cut at any byte gives the records before the cut and no
  report, and reading ends on any file.
\<close>

subsection \<open>Fragments\<close>

text \<open>A fragment: the zero bytes before it, its type and its payload.\<close>

type_synonym frag = "nat \<times> u8 \<times> slice"

definition phys :: "u8 \<Rightarrow> slice \<Rightarrow> u8 list" where
  "phys t p = le_bytes 4 (Mask (crc32c 0 (t # p))) @
     [of_nat (length p mod 256), of_nat (length p div 256), t] @ p"

fun frag_bytes :: "frag \<Rightarrow> u8 list" where "frag_bytes (pad, t, p) = replicate pad 0 @ phys t p"
fun frag_type :: "frag \<Rightarrow> u8" where "frag_type (pad, t, p) = t"
fun payload :: "frag \<Rightarrow> slice" where "payload (pad, t, p) = p"

definition start_offset :: "nat \<Rightarrow> nat" where
  "start_offset off = (if kBlockSize - off < kHeaderSize then 0 else off)"

definition padding :: "nat \<Rightarrow> nat" where
  "padding off = (if kBlockSize - off < kHeaderSize then kBlockSize - off else 0)"

fun next_offset :: "nat \<Rightarrow> frag \<Rightarrow> nat" where
  "next_offset off (pad, t, p) = start_offset off + kHeaderSize + length p"

fun frag_at :: "nat \<Rightarrow> frag \<Rightarrow> bool" where
  "frag_at off (pad, t, p) \<longleftrightarrow> off \<le> kBlockSize \<and> pad = padding off \<and>
     t \<in> {kFullType, kFirstType, kMiddleType, kLastType} \<and>
     start_offset off + kHeaderSize + length p \<le> kBlockSize"

fun tail_frags :: "nat \<Rightarrow> frag list \<Rightarrow> bool" where
  "tail_frags off [] \<longleftrightarrow> False"
| "tail_frags off (f # fs) \<longleftrightarrow> frag_at off f \<and>
     (if fs = [] then frag_type f = kLastType
      else frag_type f = kMiddleType \<and> tail_frags (next_offset off f) fs)"

fun record_frags :: "nat \<Rightarrow> frag list \<Rightarrow> bool" where
  "record_frags off [] \<longleftrightarrow> False"
| "record_frags off (f # fs) \<longleftrightarrow> frag_at off f \<and>
     (if fs = [] then frag_type f = kFullType
      else frag_type f = kFirstType \<and> tail_frags (next_offset off f) fs)"

definition frags_bytes :: "frag list \<Rightarrow> u8 list" where
  "frags_bytes fs = concat (map frag_bytes fs)"

definition payloads :: "frag list \<Rightarrow> slice" where
  "payloads fs = concat (map payload fs)"

fun end_offset :: "nat \<Rightarrow> frag list \<Rightarrow> nat" where
  "end_offset off [] = off"
| "end_offset off (f # fs) = end_offset (next_offset off f) fs"

lemma length_phys [simp]: "length (phys t p) = kHeaderSize + length p"
  by (simp add: phys_def kHeaderSize_def)

lemma frags_simps [simp]:
  "frags_bytes [] = []" "frags_bytes (f # fs) = frag_bytes f @ frags_bytes fs"
  "payloads [] = []" "payloads (f # fs) = payload f @ payloads fs"
  by (simp_all add: frags_bytes_def payloads_def)

lemma next_offset_le: "frag_at off f \<Longrightarrow> next_offset off f \<le> kBlockSize"
  by (cases f) simp

subsection \<open>The writer\<close>

lemma InitTypeCrc_nth: "unat t \<le> 4 \<Longrightarrow> InitTypeCrc ! unat t = crc32c 0 [t]"
proof -
  assume "unat t \<le> 4"
  then have "unat t < Suc (unat kMaxRecordType)" by (simp add: kMaxRecordType_def kLastType_def)
  then have "InitTypeCrc ! unat t = crc32c 0 [of_nat (unat t)]"
    unfolding InitTypeCrc_def by (subst nth_map) (simp_all add: Value_def Extend_crc32c del: upt_Suc)
  then show ?thesis by simp
qed

lemma record_type_cases: "record_type a b \<in> {kFullType, kFirstType, kMiddleType, kLastType}"
  by (simp add: record_type_def)

context appending_file
begin

definition writer_ok :: "'f writer \<Rightarrow> bool" where
  "writer_ok w \<longleftrightarrow> good (dest w) \<and> type_crc w = InitTypeCrc \<and> block_offset w \<le> kBlockSize"

lemma Emit_phys:
  assumes "good (dest w)" "type_crc w = InitTypeCrc" "t \<in> {kFullType, kFirstType, kMiddleType, kLastType}"
  shows "\<exists>d. EmitPhysicalRecord W w t p =
      (OK, w\<lparr>dest := d, block_offset := block_offset w + kHeaderSize + length p\<rparr>) \<and>
    good d \<and> contents d = contents (dest w) @ phys t p"
proof -
  have "unat t \<le> 4" using assms(3) by (auto simp: type_defs)
  then have c: "Mask (Extend 0 (type_crc w ! unat t) p) = Mask (crc32c 0 (t # p))"
    using crc32c_append [of 0 "[t]" p] by (simp add: Extend_crc32c assms(2) InitTypeCrc_nth)
  let ?buf = "EncodeFixed32 kLittleEndian (Mask (crc32c 0 (t # p))) @
    [of_nat (length p mod 256), of_nat (length p div 256), t]"
  obtain d1 where d1: "wf_append W (dest w) ?buf = (OK, d1)" "good d1"
      "contents d1 = contents (dest w) @ ?buf"
    using append_law [OF assms(1)] by blast
  obtain d2 where d2: "wf_append W d1 p = (OK, d2)" "good d2" "contents d2 = contents d1 @ p"
    using append_law [OF d1(2)] by blast
  obtain d3 where d3: "wf_flush W d2 = (OK, d3)" "good d3" "contents d3 = contents d2"
    using flush_law [OF d2(2)] by blast
  show ?thesis
    unfolding EmitPhysicalRecord_def Let_def c d1(1) prod.case ok_OK if_True d2(1) d3(1)
    using d1(3) d2(3) d3(2,3) by (auto simp: phys_def EncodeFixed_neutral)
qed

lemma switch_block_ok:
  assumes "writer_ok w"
  shows "writer_ok (switch_block W w)" "block_offset (switch_block W w) = start_offset (block_offset w)"
    "contents (dest (switch_block W w)) = contents (dest w) @ replicate (padding (block_offset w)) 0"
proof -
  obtain d where d: "wf_append W (dest w) (replicate (kBlockSize - block_offset w) 0) = (OK, d)" "good d"
      "contents d = contents (dest w) @ replicate (kBlockSize - block_offset w) 0"
    using assms append_law unfolding writer_ok_def by blast
  show "writer_ok (switch_block W w)" "block_offset (switch_block W w) = start_offset (block_offset w)"
    "contents (dest (switch_block W w)) = contents (dest w) @ replicate (padding (block_offset w)) 0"
    using assms d by (auto simp: switch_block_def Let_def writer_ok_def padding_def start_offset_def)
qed

lemma fragment_fits:
  "off \<le> kBlockSize \<Longrightarrow> start_offset off + kHeaderSize + fragment_length n (start_offset off) \<le> kBlockSize"
  by (auto simp: start_offset_def fragment_length_def Let_def kBlockSize_def kHeaderSize_def)

lemma fragment_length_le: "fragment_length n off \<le> n"
  by (auto simp: fragment_length_def Let_def)

lemma add_loop_frags:
  "writer_ok w \<Longrightarrow> \<exists>w1 fs. add_loop W w ptr first = (OK, w1) \<and> writer_ok w1 \<and>
     contents (dest w1) = contents (dest w) @ frags_bytes fs \<and> payloads fs = ptr \<and>
     block_offset w1 = end_offset (block_offset w) fs \<and>
     (if first then record_frags else tail_frags) (block_offset w) fs"
proof (induction W' \<equiv> W w ptr first rule: add_loop.induct)
  case (1 w ptr first)
  let ?off = "block_offset w"
  let ?w1 = "switch_block W w"
  let ?n = "fragment_length (length ptr) (block_offset ?w1)"
  let ?t = "record_type first (length ptr = ?n)"
  let ?f = "(padding ?off, ?t, take ?n ptr)"
  note sw = switch_block_ok [OF "1.prems"]
  have off: "?off \<le> kBlockSize" using "1.prems" by (simp add: writer_ok_def)
  have n: "length (take ?n ptr) = ?n" using fragment_length_le [of "length ptr"] by simp
  obtain d where d: "EmitPhysicalRecord W ?w1 ?t (take ?n ptr) =
        (OK, ?w1\<lparr>dest := d, block_offset := block_offset ?w1 + kHeaderSize + length (take ?n ptr)\<rparr>)"
      "good d" "contents d = contents (dest ?w1) @ phys ?t (take ?n ptr)"
    using Emit_phys [of ?w1 ?t "take ?n ptr"] sw(1) record_type_cases unfolding writer_ok_def by blast
  let ?w2 = "?w1\<lparr>dest := d, block_offset := block_offset ?w1 + kHeaderSize + length (take ?n ptr)\<rparr>"
  have f: "frag_at ?off ?f"
    using off fragment_fits [OF off, of "length ptr"] record_type_cases n by (simp add: sw(2))
  have w2: "writer_ok ?w2"
    using sw(1) d(2) fragment_fits [OF off, of "length ptr"] n by (simp add: writer_ok_def sw(2))
  have c2: "contents (dest ?w2) = contents (dest w) @ frag_bytes ?f"
    using d(3) sw(3) by simp
  have o2: "block_offset ?w2 = next_offset ?off ?f" using sw(2) by simp
  have step: "add_loop W w ptr first =
      (if length ptr - ?n > 0 then add_loop W ?w2 (drop ?n ptr) False else (OK, ?w2))"
    by (subst add_loop.simps) (simp add: Let_def d(1))
  show ?case
  proof (cases "length ptr - ?n > 0")
    case True
    obtain w3 fs where r: "add_loop W ?w2 (drop ?n ptr) False = (OK, w3)" "writer_ok w3"
        "contents (dest w3) = contents (dest ?w2) @ frags_bytes fs" "payloads fs = drop ?n ptr"
        "block_offset w3 = end_offset (block_offset ?w2) fs" "tail_frags (block_offset ?w2) fs"
      using "1.hyps" [OF refl refl refl refl d(1) [symmetric] _ w2] True by auto
    have "fs \<noteq> []" using r(6) by (cases fs) auto
    then have "(if first then record_frags else tail_frags) ?off (?f # fs)"
      using f r(6) True o2 by (auto simp: record_type_def)
    then show ?thesis
      using True r o2 c2 unfolding step
      by (intro exI [of _ w3] exI [of _ "?f # fs"]) simp
  next
    case False
    then have "length ptr = ?n" using fragment_length_le [of "length ptr" "block_offset ?w1"] by simp
    then have "(if first then record_frags else tail_frags) ?off [?f]" "payloads [?f] = ptr"
      using f by (auto simp: record_type_def)
    then show ?thesis
      using False w2 o2 c2 unfolding step
      by (intro exI [of _ ?w2] exI [of _ "[?f]"]) simp
  qed
qed

end
subsection \<open>The reader\<close>

lemma scast_type:
  "t \<in> {kFullType, kFirstType, kMiddleType, kLastType} \<Longrightarrow> (scast t :: u32) = ucast t \<and> (ucast t :: u32) \<noteq> ucast kZeroType"
  by (auto simp: type_defs)

lemma phys_parts:
  assumes "length p \<le> kBlockSize"
  shows "phys t p ! 6 = t" "unat (phys t p ! 4) + 256 * unat (phys t p ! 5) = length p"
    "drop 6 (phys t p @ S) = t # p @ S" "drop kHeaderSize (phys t p @ S) = p @ S"
    "DecodeFixed32 le (phys t p @ S) = Mask (crc32c 0 (t # p))"
proof -
  let ?h = "le_bytes 4 (Mask (crc32c 0 (t # p)))"
  have h: "phys t p = ?h @ [of_nat (length p mod 256), of_nat (length p div 256), t] @ p"
    by (simp add: phys_def)
  have "length p div 256 < 256" using assms by (simp add: kBlockSize_def)
  then show "phys t p ! 6 = t" "unat (phys t p ! 4) + 256 * unat (phys t p ! 5) = length p"
    unfolding h by (simp_all add: nth_append unat_u8_of_nat)
  show "drop 6 (phys t p @ S) = t # p @ S" "drop kHeaderSize (phys t p @ S) = p @ S"
    unfolding h by (simp_all add: kHeaderSize_def)
  show "DecodeFixed32 le (phys t p @ S) = Mask (crc32c 0 (t # p))"
    unfolding h append_assoc EncodeFixed_neutral [of True, symmetric] by simp
qed

definition undisturbed :: "'f reader \<Rightarrow> 'f reader \<Rightarrow> bool" where
  "undisturbed r r1 \<longleftrightarrow> reports r1 = reports r \<and> verify_checksum r1 = verify_checksum r \<and>
     initial_offset r1 = initial_offset r \<and> resyncing r1 = resyncing r \<and>
     has_reporter r1 = has_reporter r"

lemma undisturbed_refl [simp]: "undisturbed r r" by (simp add: undisturbed_def)
lemma undisturbed_trans: "undisturbed r r1 \<Longrightarrow> undisturbed r1 r2 \<Longrightarrow> undisturbed r r2" by (simp add: undisturbed_def)

context reading_file
begin

text \<open>
  The reader is at offset \<open>off\<close> of a block and \<open>S\<close> is what it has not consumed yet: the rest of
  the block in its buffer, the other blocks in the file.
\<close>

definition at_pos :: "'f reader \<Rightarrow> nat \<Rightarrow> u8 list \<Rightarrow> bool" where
  "at_pos r off S \<longleftrightarrow> good (rfile r) \<and> off \<le> kBlockSize \<and> buffer r = take (kBlockSize - off) S \<and>
     rest (rfile r) = drop (kBlockSize - off) S \<and> (eof r \<longrightarrow> length S \<le> kBlockSize - off) \<and>
     (\<not> eof r \<longrightarrow> kBlockSize - off \<le> length S) \<and> initial_offset r = 0 \<and> \<not> resyncing r"

lemma fill_now: "kHeaderSize \<le> length (buffer r) \<Longrightarrow> fill F r = (True, r)"
  by (subst fill.simps) simp

lemma fill_eof:
  "length (buffer r) < kHeaderSize \<Longrightarrow> eof r \<Longrightarrow> fill F r = (False, r\<lparr>buffer := []\<rparr>)"
  by (subst fill.simps) simp

lemma fill_read:
  assumes "length (buffer r) < kHeaderSize" "\<not> eof r" "good (rfile r)"
  shows "\<exists>r1. fill F r = fill F r1 \<and> undisturbed r r1 \<and> good (rfile r1) \<and>
    buffer r1 = take kBlockSize (rest (rfile r)) \<and> rest (rfile r1) = drop kBlockSize (rest (rfile r)) \<and>
    eof r1 = (length (rest (rfile r)) < kBlockSize)"
proof -
  obtain f1 where "sf_read F (rfile r) kBlockSize = (OK, take kBlockSize (rest (rfile r)), f1)"
      "good f1" "rest f1 = drop kBlockSize (rest (rfile r))"
    using read_law [OF assms(3)] by blast
  then show ?thesis
    using assms by (subst fill.simps) (auto simp: Let_def undisturbed_def)
qed

lemma fill_pos:
  assumes "at_pos r off S"
  shows "if kHeaderSize \<le> length S - padding off
    then \<exists>r1. fill F r = (True, r1) \<and> at_pos r1 (start_offset off) (drop (padding off) S) \<and> undisturbed r r1
    else \<exists>r1. fill F r = (False, r1) \<and> undisturbed r r1"
proof (cases "kBlockSize - off < kHeaderSize")
  case False
  then have p: "padding off = 0" "start_offset off = off" by (simp_all add: padding_def start_offset_def)
  show ?thesis
  proof (cases "kHeaderSize \<le> length S")
    case True
    then have "kHeaderSize \<le> length (buffer r)" using assms False by (simp add: at_pos_def)
    from fill_now [OF this] show ?thesis using assms True p by auto
  next
    case F: False
    then have "length (buffer r) < kHeaderSize" "eof r" using assms False by (auto simp: at_pos_def)
    from fill_eof [OF this] show ?thesis using F p by (simp add: undisturbed_def)
  qed
next
  case True
  then have p: "padding off = kBlockSize - off" "start_offset off = 0"
    by (simp_all add: padding_def start_offset_def)
  have b: "length (buffer r) < kHeaderSize" using assms True by (auto simp: at_pos_def)
  show ?thesis
  proof (cases "eof r")
    case e: True
    then have "length S \<le> padding off" using assms p by (simp add: at_pos_def)
    then show ?thesis using fill_eof [OF b e] by (simp add: undisturbed_def kHeaderSize_def)
  next
    case e: False
    have S: "rest (rfile r) = drop (padding off) S" "good (rfile r)" "initial_offset r = 0" "\<not> resyncing r"
      using assms p by (simp_all add: at_pos_def)
    obtain r1 where r1: "fill F r = fill F r1" "undisturbed r r1" "good (rfile r1)"
        "buffer r1 = take kBlockSize (drop (padding off) S)"
        "rest (rfile r1) = drop kBlockSize (drop (padding off) S)"
        "eof r1 = (length (drop (padding off) S) < kBlockSize)"
      using fill_read [OF b e S(2)] unfolding S(1) by blast
    have a1: "at_pos r1 0 (drop (padding off) S)"
      using r1 S(3,4) by (auto simp: at_pos_def undisturbed_def)
    show ?thesis
    proof (cases "kHeaderSize \<le> length (drop (padding off) S)")
      case True
      then have "kHeaderSize \<le> length (buffer r1)"
        unfolding r1(4) by (simp add: kBlockSize_def kHeaderSize_def)
      from fill_now [OF this] show ?thesis
        using True a1 r1(1,2) p by auto
    next
      case False
      then have "length (buffer r1) < kHeaderSize" "eof r1"
        unfolding r1(4,6) by (auto simp: kBlockSize_def kHeaderSize_def)
      from fill_eof [OF this] show ?thesis using False r1(1,2) by (simp add: undisturbed_def)
    qed
  qed
qed

text \<open>A complete fragment is read as it was written, whatever its type byte.\<close>

lemma read_phys:
  assumes "at_pos r off (replicate (padding off) 0 @ phys t p @ S)" "off \<le> kBlockSize"
    and "start_offset off + kHeaderSize + length p \<le> kBlockSize" "(scast t :: u32) \<noteq> ucast kZeroType"
  shows "\<exists>r1. ReadPhysicalRecord F r = (scast t, Some p, r1) \<and>
    at_pos r1 (start_offset off + kHeaderSize + length p) S \<and> undisturbed r r1"
proof -
  let ?o = "start_offset off"
  obtain r1 where r1: "fill F r = (True, r1)" "at_pos r1 ?o (phys t p @ S)" "undisturbed r r1"
    using fill_pos [OF assms(1)] by auto
  let ?h = "buffer r1"
  have h: "?h = phys t p @ take (kBlockSize - ?o - (kHeaderSize + length p)) S"
    using r1(2) assms(3) by (simp add: at_pos_def)
  have lp: "length p \<le> kBlockSize" using assms(3) by simp
  note parts = phys_parts [OF lp]
  have h6: "?h ! 6 = t" "unat (?h ! 4) + 256 * unat (?h ! 5) = length p"
    unfolding h using parts(1,2) by (simp_all add: nth_append kHeaderSize_def)
  have crc: "Value 0 (take (1 + length p) (drop 6 ?h)) = Unmask (DecodeFixed32 kLittleEndian ?h)"
    unfolding h parts(3,5) by (simp add: Value_def Extend_crc32c)
  have pay: "take (length p) (drop kHeaderSize ?h) = p"
    unfolding h parts(4) by simp
  have len: "\<not> length ?h < kHeaderSize + length p" unfolding h by simp
  have i0: "initial_offset r1 = 0" using r1(2) by (simp add: at_pos_def)
  let ?r2 = "r1\<lparr>buffer := drop (kHeaderSize + length p) ?h\<rparr>"
  have "ReadPhysicalRecord F r = (scast t, Some p, ?r2)"
    unfolding ReadPhysicalRecord_def r1(1) prod.case bool.case Let_def h6 if_not_P [OF len] crc
    using i0 assms(4) pay by simp
  moreover have "at_pos ?r2 (?o + kHeaderSize + length p) S"
    using r1(2) assms(2,3) unfolding at_pos_def h by (auto simp: not_le add.assoc)
  moreover have "undisturbed r ?r2" using r1(3) by (simp add: undisturbed_def)
  ultimately show ?thesis by blast
qed

lemma read_frag:
  assumes "at_pos r off (frag_bytes f @ S)" "frag_at off f"
  shows "\<exists>r1. ReadPhysicalRecord F r = (ucast (frag_type f), Some (payload f), r1) \<and>
    at_pos r1 (next_offset off f) S \<and> undisturbed r r1"
proof -
  obtain pad t p where f: "f = (pad, t, p)" by (cases f)
  have t: "(scast t :: u32) = ucast t \<and> (ucast t :: u32) \<noteq> ucast kZeroType"
    using scast_type [of t] assms(2) by (simp add: f)
  have "at_pos r off (replicate (padding off) 0 @ phys t p @ S)" "off \<le> kBlockSize"
    "start_offset off + kHeaderSize + length p \<le> kBlockSize" "(scast t :: u32) \<noteq> ucast kZeroType"
    using assms t by (auto simp: f)
  from read_phys [OF this] t show ?thesis by (auto simp: f)
qed

text \<open>A fragment that is cut short is the end of the file.\<close>

lemma read_cut_frag:
  assumes "at_pos r off (take k (frag_bytes f))" "frag_at off f" "k < length (frag_bytes f)"
  shows "\<exists>r1. ReadPhysicalRecord F r = (kEof, None, r1) \<and> undisturbed r r1"
proof -
  obtain pad t p where f: "f = (pad, t, p)" by (cases f)
  let ?o = "start_offset off" and ?S = "take k (frag_bytes f)"
  have a: "pad = padding off" "?o + kHeaderSize + length p \<le> kBlockSize"
    using assms(2) by (simp_all add: f)
  show ?thesis
  proof (cases "kHeaderSize \<le> length ?S - padding off")
    case False
    then show ?thesis
      using fill_pos [OF assms(1)] by (auto simp: ReadPhysicalRecord_def)
  next
    case True
    then obtain r1 where r1: "fill F r = (True, r1)" "at_pos r1 ?o (drop (padding off) ?S)" "undisturbed r r1"
      using fill_pos [OF assms(1)] by auto
    let ?j = "k - padding off" and ?h = "buffer r1"
    have pk: "padding off \<le> k" using True by (simp add: kHeaderSize_def)
    then have S: "drop (padding off) ?S = take ?j (phys t p)" by (simp add: f a(1) min_def)
    have len: "length ?S = k" using assms(3) by simp
    have "k < padding off + (kHeaderSize + length p)" using assms(3) by (simp add: f a(1))
    then have j: "kHeaderSize \<le> ?j" "?j < kHeaderSize + length p"
      using True pk unfolding len by linarith+
    have h: "?h = take ?j (phys t p)" "length ?h = ?j"
      using r1(2) j a(2) unfolding at_pos_def S by (auto simp: min_def)
    have e: "eof r1" using r1(2) j a(2) unfolding at_pos_def S by (auto simp: min_def split: if_splits)
    have lp: "length p \<le> kBlockSize" using a(2) by simp
    have h6: "unat (?h ! 4) + 256 * unat (?h ! 5) = length p"
      unfolding h(1) using phys_parts(2) [OF lp, of t] j(1) by (simp add: kHeaderSize_def)
    have len: "length ?h < kHeaderSize + length p" unfolding h(2) by (rule j(2))
    show ?thesis
      unfolding ReadPhysicalRecord_def r1(1) prod.case bool.case Let_def h6 if_P [OF len]
      using e r1(3) by (simp add: undisturbed_def)
  qed
qed

text \<open>The end of the log.\<close>

lemma read_end:
  assumes "at_pos r off []"
  shows "\<exists>r1. ReadPhysicalRecord F r = (kEof, None, r1) \<and> undisturbed r r1"
  using fill_pos [OF assms] by (auto simp: ReadPhysicalRecord_def kHeaderSize_def)

lemma record_codes:
  "(ucast kFullType :: u32) = 1" "(ucast kFirstType :: u32) = 2" "(ucast kMiddleType :: u32) = 3"
  "(ucast kLastType :: u32) = 4" "kEof = 5" "kBadRecord = 6"
  by (simp_all add: type_defs kEof_def kBadRecord_def kMaxRecordType_def)

lemma read_loop_tail:
  assumes "at_pos r off (frags_bytes fs @ S)" "tail_frags off fs" "in_fragmented v" "length fs \<le> fuel"
  shows "\<exists>r1. read_loop fuel F r v =
      Some (True, scratch v @ payloads fs, scratch v @ payloads fs, r1) \<and>
    at_pos r1 (end_offset off fs) S \<and> undisturbed r r1"
  using assms
proof (induction fs arbitrary: r off v fuel)
  case (Cons f fs)
  obtain n where fuel: "fuel = Suc n" using Cons.prems(4) by (cases fuel) auto
  have f: "frag_at off f" using Cons.prems(2) by simp
  obtain r1 where r1: "ReadPhysicalRecord F r = (ucast (frag_type f), Some (payload f), r1)"
      "at_pos r1 (next_offset off f) (frags_bytes fs @ S)" "undisturbed r r1"
    using read_frag [of r off f "frags_bytes fs @ S"] Cons.prems(1) f by auto
  have nr: "\<not> resyncing r1" "r1\<lparr>resyncing := False\<rparr> = r1" using r1(2) by (auto simp: at_pos_def)
  show ?case
  proof (cases "fs = []")
    case True
    then show ?thesis
      using Cons.prems r1 nr
      by (auto simp: fuel record_codes Let_def at_pos_def undisturbed_def)
  next
    case False
    let ?v = "v\<lparr>fragment := payload f, scratch := scratch v @ payload f\<rparr>"
    have "tail_frags (next_offset off f) fs" "length fs \<le> n" using Cons.prems(2,4) False fuel by auto
    then obtain r2 where "read_loop n F r1 ?v =
          Some (True, scratch v @ payload f @ payloads fs, scratch v @ payload f @ payloads fs, r2)"
        "at_pos r2 (end_offset (next_offset off f) fs) S" "undisturbed r1 r2"
      using Cons.IH [OF r1(2), of ?v n] Cons.prems(3) by auto
    then show ?thesis
      using Cons.prems r1 nr(1) False undisturbed_trans [OF r1(3)]
      by (auto simp: fuel record_codes Let_def nr(2))
  qed
qed simp

lemma read_loop_tail_cut:
  assumes "at_pos r off (take k (frags_bytes fs))" "tail_frags off fs" "k < length (frags_bytes fs)"
    and "in_fragmented v" "length fs \<le> fuel"
  shows "\<exists>r1. read_loop fuel F r v = Some (False, [], [], r1) \<and> undisturbed r r1"
  using assms
proof (induction fs arbitrary: r off v fuel k)
  case (Cons f fs)
  obtain n where fuel: "fuel = Suc n" using Cons.prems(5) by (cases fuel) auto
  have f: "frag_at off f" using Cons.prems(2) by simp
  show ?case
  proof (cases "k < length (frag_bytes f)")
    case True
    then obtain r1 where r1: "ReadPhysicalRecord F r = (kEof, None, r1)" "undisturbed r r1"
      using read_cut_frag [of r off k f] Cons.prems(1) f by auto
    have "\<not> resyncing r1" using r1(2) Cons.prems(1) by (simp add: undisturbed_def at_pos_def)
    then show ?thesis
      using Cons.prems(4) r1 by (auto simp: fuel record_codes Let_def undisturbed_def)
  next
    case False
    then obtain r1 where r1: "ReadPhysicalRecord F r = (ucast (frag_type f), Some (payload f), r1)"
        "at_pos r1 (next_offset off f) (take (k - length (frag_bytes f)) (frags_bytes fs))" "undisturbed r r1"
      using read_frag [of r off f "take (k - length (frag_bytes f)) (frags_bytes fs)"] Cons.prems(1) f
      by auto
    have nr: "\<not> resyncing r1" "r1\<lparr>resyncing := False\<rparr> = r1" using r1(2) by (auto simp: at_pos_def)
    have ne: "fs \<noteq> []" using Cons.prems(3) False by auto
    let ?v = "v\<lparr>fragment := payload f, scratch := scratch v @ payload f\<rparr>"
    have kk: "k - length (frag_bytes f) < length (frags_bytes fs)"
      using Cons.prems(3) False unfolding frags_simps length_append by linarith
    have "tail_frags (next_offset off f) fs" "length fs \<le> n" using Cons.prems(2,5) ne fuel by auto
    then obtain r2 where "read_loop n F r1 ?v = Some (False, [], [], r2)" "undisturbed r1 r2"
      using Cons.IH [OF r1(2) _ kk, of ?v n] Cons.prems(4) by auto
    then show ?thesis
      using Cons.prems(2,4) r1 nr(1) ne undisturbed_trans [OF r1(3)]
      by (auto simp: fuel record_codes Let_def nr(2))
  qed
qed simp

abbreviation locals0 :: locals where
  "locals0 \<equiv> \<lparr>fragment = [], scratch = [], in_fragmented = False, prospective = 0\<rparr>"

lemma ReadRecord_loop:
  "at_pos r off S \<Longrightarrow> ReadRecord fuel F r rec scr = read_loop fuel F r locals0"
  by (simp add: ReadRecord_def at_pos_def)

text \<open>
  The special results share the range of the type byte: a record of type 5 with a valid
  checksum is taken for the end of the file.
\<close>

lemma ReadRecord_type_5:
  assumes "at_pos r kBlockSize (phys 5 p @ S)" "kHeaderSize + length p \<le> kBlockSize"
  shows "\<exists>r1. ReadRecord (Suc n) F r rec scr = Some (False, [], [], r1) \<and> reports r1 = reports r"
proof -
  have z: "padding kBlockSize = 0" "start_offset kBlockSize = 0"
    by (simp_all add: padding_def start_offset_def kHeaderSize_def)
  obtain r1 where r1: "ReadPhysicalRecord F r = (5, Some p, r1)" "undisturbed r r1"
    using read_phys [of r kBlockSize 5 p S] assms by (auto simp: z kZeroType_def)
  have "\<not> resyncing r1" using r1(2) assms(1) by (simp add: undisturbed_def at_pos_def)
  then show ?thesis
    using r1 unfolding ReadRecord_loop [OF assms(1)]
    by (auto simp: record_codes Let_def undisturbed_def)
qed

lemma ReadRecord_complete:
  assumes "at_pos r off (frags_bytes fs @ S)" "record_frags off fs" "length fs \<le> fuel"
  shows "\<exists>scr1 r1. ReadRecord fuel F r rec scr = Some (True, payloads fs, scr1, r1) \<and>
    at_pos r1 (end_offset off fs) S \<and> undisturbed r r1"
proof -
  obtain f fs1 where fs: "fs = f # fs1" using assms(2) by (cases fs) auto
  obtain n where fuel: "fuel = Suc n" using assms(3) fs by (cases fuel) auto
  have f: "frag_at off f" using assms(2) fs by simp
  obtain r1 where r1: "ReadPhysicalRecord F r = (ucast (frag_type f), Some (payload f), r1)"
      "at_pos r1 (next_offset off f) (frags_bytes fs1 @ S)" "undisturbed r r1"
    using read_frag [of r off f "frags_bytes fs1 @ S"] assms(1) f by (auto simp: fs)
  have nr: "\<not> resyncing r1" "r1\<lparr>resyncing := False\<rparr> = r1" using r1(2) by (auto simp: at_pos_def)
  show ?thesis
  proof (cases "fs1 = []")
    case True
    then show ?thesis
      using assms(2) r1 nr unfolding ReadRecord_loop [OF assms(1)]
      by (auto simp: fs fuel record_codes Let_def partial_record_def at_pos_def undisturbed_def)
  next
    case False
    have t: "tail_frags (next_offset off f) fs1" "length fs1 \<le> n" "frag_type f = kFirstType"
      using assms(2,3) False fs fuel by auto
    define off1 where "off1 = end_of_buffer_offset r1 - size64 (buffer r1) - of_nat kHeaderSize - size64 (payload f)"
    let ?v = "\<lparr>fragment = payload f, scratch = payload f, in_fragmented = True, prospective = off1\<rparr>"
    obtain r2 where "read_loop n F r1 ?v = Some (True, payload f @ payloads fs1, payload f @ payloads fs1, r2)"
        "at_pos r2 (end_offset (next_offset off f) fs1) S" "undisturbed r1 r2"
      using read_loop_tail [OF r1(2) t(1) _ t(2), of ?v] by auto
    then show ?thesis
      using r1 nr(1) t(3) undisturbed_trans [OF r1(3)] unfolding ReadRecord_loop [OF assms(1)] off1_def
      by (auto simp: fs fuel record_codes Let_def partial_record_def nr(2))
  qed
qed

lemma ReadRecord_cut:
  assumes "at_pos r off (take k (frags_bytes fs))" "record_frags off fs" "k < length (frags_bytes fs)"
    and "length fs \<le> fuel"
  shows "\<exists>r1. ReadRecord fuel F r rec scr = Some (False, [], [], r1) \<and> undisturbed r r1"
proof -
  obtain f fs1 where fs: "fs = f # fs1" using assms(2) by (cases fs) auto
  obtain n where fuel: "fuel = Suc n" using assms(4) fs by (cases fuel) auto
  have f: "frag_at off f" using assms(2) fs by simp
  show ?thesis
  proof (cases "k < length (frag_bytes f)")
    case True
    then obtain r1 where r1: "ReadPhysicalRecord F r = (kEof, None, r1)" "undisturbed r r1"
      using read_cut_frag [of r off k f] assms(1) f by (auto simp: fs)
    have "\<not> resyncing r1" using r1(2) assms(1) by (simp add: undisturbed_def at_pos_def)
    then show ?thesis
      using r1 unfolding ReadRecord_loop [OF assms(1)]
      by (auto simp: fuel record_codes Let_def undisturbed_def)
  next
    case False
    then obtain r1 where r1: "ReadPhysicalRecord F r = (ucast (frag_type f), Some (payload f), r1)"
        "at_pos r1 (next_offset off f) (take (k - length (frag_bytes f)) (frags_bytes fs1))" "undisturbed r r1"
      using read_frag [of r off f "take (k - length (frag_bytes f)) (frags_bytes fs1)"] assms(1) f
      by (auto simp: fs)
    have nr: "\<not> resyncing r1" "r1\<lparr>resyncing := False\<rparr> = r1" using r1(2) by (auto simp: at_pos_def)
    have ne: "fs1 \<noteq> []" using assms(3) False by (auto simp: fs)
    have t: "tail_frags (next_offset off f) fs1" "length fs1 \<le> n" "frag_type f = kFirstType"
      using assms(2,4) ne fs fuel by auto
    have kk: "k - length (frag_bytes f) < length (frags_bytes fs1)"
      using assms(3) False unfolding fs frags_simps length_append by linarith
    define off1 where "off1 = end_of_buffer_offset r1 - size64 (buffer r1) - of_nat kHeaderSize - size64 (payload f)"
    let ?v = "\<lparr>fragment = payload f, scratch = payload f, in_fragmented = True, prospective = off1\<rparr>"
    obtain r2 where "read_loop n F r1 ?v = Some (False, [], [], r2)" "undisturbed r1 r2"
      using read_loop_tail_cut [OF r1(2) t(1) kk _ t(2), of ?v] by auto
    then show ?thesis
      using r1 nr(1) t(3) undisturbed_trans [OF r1(3)] unfolding ReadRecord_loop [OF assms(1)] off1_def
      by (auto simp: fuel record_codes Let_def partial_record_def nr(2))
  qed
qed

lemma ReadRecord_end:
  assumes "at_pos r off []"
  shows "\<exists>r1. ReadRecord (Suc n) F r rec scr = Some (False, [], [], r1) \<and> undisturbed r r1"
proof -
  obtain r1 where r1: "ReadPhysicalRecord F r = (kEof, None, r1)" "undisturbed r r1"
    using read_end [OF assms] by blast
  have "\<not> resyncing r1" using r1(2) assms by (simp add: undisturbed_def at_pos_def)
  then show ?thesis
    using r1 unfolding ReadRecord_loop [OF assms] by (auto simp: record_codes Let_def undisturbed_def)
qed

end
subsection \<open>A log of several records\<close>

fun add_all :: "'f writable_file \<Rightarrow> 'f writer \<Rightarrow> slice list \<Rightarrow> status \<times> 'f writer" where
  "add_all W w [] = (OK, w)"
| "add_all W w (s # ss) =
     (let (st, w1) = AddRecord W w s in if ok st then add_all W w1 ss else (st, w1))"

text \<open>Reading until \<open>ReadRecord\<close> returns false, at most \<open>n\<close> calls.\<close>

fun read_all :: "nat \<Rightarrow> nat \<Rightarrow> 'f sequential_file \<Rightarrow> 'f reader \<Rightarrow> (slice list \<times> 'f reader) option" where
  "read_all 0 fuel F r = None"
| "read_all (Suc n) fuel F r =
     (case ReadRecord fuel F r [] [] of
        None \<Rightarrow> None
      | Some (False, _, _, r1) \<Rightarrow> Some ([], r1)
      | Some (True, rec, _, r1) \<Rightarrow> map_option (\<lambda>(rs, r2). (rec # rs, r2)) (read_all n fuel F r1))"

fun log_frags :: "nat \<Rightarrow> frag list list \<Rightarrow> bool" where
  "log_frags off [] \<longleftrightarrow> True"
| "log_frags off (fs # fss) \<longleftrightarrow> record_frags off fs \<and> log_frags (end_offset off fs) fss"

fun log_end :: "nat \<Rightarrow> frag list list \<Rightarrow> nat" where
  "log_end off [] = off"
| "log_end off (fs # fss) = log_end (end_offset off fs) fss"

lemma log_frags_append:
  "log_frags off (fss @ gss) \<longleftrightarrow> log_frags off fss \<and> log_frags (log_end off fss) gss"
  by (induction fss arbitrary: off) auto

definition log_bytes :: "frag list list \<Rightarrow> u8 list" where
  "log_bytes fss = concat (map frags_bytes fss)"

lemma log_bytes_simps [simp]:
  "log_bytes [] = []" "log_bytes (fs # fss) = frags_bytes fs @ log_bytes fss"
  "log_bytes (fss @ gss) = log_bytes fss @ log_bytes gss"
  by (simp_all add: log_bytes_def)

lemma record_frags_wrap: "record_frags 0 fs = record_frags kBlockSize fs"
  "fs \<noteq> [] \<Longrightarrow> end_offset 0 fs = end_offset kBlockSize fs"
proof -
  have z: "frag_at 0 f = frag_at kBlockSize f" "next_offset 0 f = next_offset kBlockSize f" for f
    by (cases f; simp add: padding_def start_offset_def kBlockSize_def kHeaderSize_def)+
  show "record_frags 0 fs = record_frags kBlockSize fs"
    "fs \<noteq> [] \<Longrightarrow> end_offset 0 fs = end_offset kBlockSize fs"
    by (cases fs; simp add: z)+
qed

lemma log_frags_wrap: "log_frags 0 fss = log_frags kBlockSize fss"
proof (cases fss)
  case (Cons fs gss)
  show ?thesis
  proof (cases "fs = []")
    case False
    then show ?thesis by (simp add: Cons record_frags_wrap)
  qed (simp add: Cons)
qed simp

lemma length_frags_le: "length fs \<le> length (frags_bytes fs)"
proof (induction fs)
  case (Cons f fs)
  then show ?case by (cases f) (simp add: kHeaderSize_def)
qed simp

lemma length_log_le: "fs \<in> set fss \<Longrightarrow> length fs \<le> length (log_bytes fss)"
  using length_frags_le by (induction fss) (auto intro: order_trans le_add1 trans_le_add2)

context appending_file
begin

lemma add_all_frags:
  "writer_ok w \<Longrightarrow> \<exists>w1 fss. add_all W w ss = (OK, w1) \<and> writer_ok w1 \<and>
     contents (dest w1) = contents (dest w) @ log_bytes fss \<and> map payloads fss = ss \<and>
     log_frags (block_offset w) fss \<and> block_offset w1 = log_end (block_offset w) fss"
proof (induction ss arbitrary: w)
  case Nil
  then show ?case by (intro exI [of _ w] exI [of _ "[]"]) simp
next
  case (Cons s ss)
  obtain w1 fs where w1: "add_loop W w s True = (OK, w1)" "writer_ok w1"
      "contents (dest w1) = contents (dest w) @ frags_bytes fs" "payloads fs = s"
      "block_offset w1 = end_offset (block_offset w) fs" "record_frags (block_offset w) fs"
    using add_loop_frags [OF Cons.prems, of s True] by auto
  obtain w2 fss where w2: "add_all W w1 ss = (OK, w2)" "writer_ok w2"
      "contents (dest w2) = contents (dest w1) @ log_bytes fss" "map payloads fss = ss"
      "log_frags (block_offset w1) fss" "block_offset w2 = log_end (block_offset w1) fss"
    using Cons.IH [OF w1(2)] by blast
  show ?case
    using w1 w2 by (intro exI [of _ w2] exI [of _ "fs # fss"]) (simp add: AddRecord_def)
qed

lemma add_all_append:
  "add_all W w ss = (OK, w1) \<Longrightarrow> add_all W w (ss @ ts) = add_all W w1 ts"
  by (induction ss arbitrary: w) (auto simp: Let_def ok_def OK_def split: prod.splits if_splits)

end

context reading_file
begin

lemma read_all_log:
  assumes "at_pos r off (take k (log_bytes fss))" "log_frags off fss" "length fss < n"
    and "length (log_bytes fss) < fuel"
  shows "\<exists>j r1. read_all n fuel F r = Some (take j (map payloads fss), r1) \<and> undisturbed r r1 \<and>
    (\<forall>i \<le> length fss. length (log_bytes (take i fss)) \<le> k \<longrightarrow> i \<le> j)"
  using assms
proof (induction fss arbitrary: r off k n)
  case Nil
  obtain m where n: "n = Suc m" using Nil.prems(3) by (cases n) auto
  obtain g where g: "fuel = Suc g" using Nil.prems(4) by (cases fuel) auto
  obtain r1 where "ReadRecord (Suc g) F r [] [] = Some (False, [], [], r1)" "undisturbed r r1"
    using ReadRecord_end [of r off g "[]" "[]"] Nil.prems(1) by auto
  then show ?case by (simp add: n g)
next
  case (Cons fs fss)
  obtain m where n: "n = Suc m" using Cons.prems(3) by (cases n) auto
  have fuel: "length fs \<le> fuel" "length (log_bytes fss) < fuel"
    using length_frags_le [of fs] Cons.prems(4) by simp_all
  show ?case
  proof (cases "k < length (frags_bytes fs)")
    case True
    obtain r1 where "ReadRecord fuel F r [] [] = Some (False, [], [], r1)" "undisturbed r r1"
      using ReadRecord_cut [OF _ _ True fuel(1), of r off] Cons.prems(1,2) True by auto
    moreover have "i \<le> 0" if "length (log_bytes (take i (fs # fss))) \<le> k" for i
      using that True by (cases i) auto
    ultimately show ?thesis by (intro exI [of _ 0]) (auto simp: n)
  next
    case False
    let ?k = "k - length (frags_bytes fs)"
    obtain scr1 r1 where r1: "ReadRecord fuel F r [] [] = Some (True, payloads fs, scr1, r1)"
        "at_pos r1 (end_offset off fs) (take ?k (log_bytes fss))" "undisturbed r r1"
      using ReadRecord_complete [of r off fs "take ?k (log_bytes fss)" fuel "[]" "[]"] fuel(1)
        Cons.prems(1,2) False by auto
    obtain j r2 where r2: "read_all m fuel F r1 = Some (take j (map payloads fss), r2)" "undisturbed r1 r2"
        "\<And>i. i \<le> length fss \<Longrightarrow> length (log_bytes (take i fss)) \<le> ?k \<Longrightarrow> i \<le> j"
      using Cons.IH [OF r1(2), of m] Cons.prems(2,3) fuel(2) n by auto
    have "i \<le> Suc j" if "i \<le> length (fs # fss)" "length (log_bytes (take i (fs # fss))) \<le> k" for i
      using that r2(3) False by (cases i) auto
    then show ?thesis
      using r1(1) r2(1) undisturbed_trans [OF r1(3) r2(2)] by (intro exI [of _ "Suc j"] exI [of _ r2]) (simp add: n)
  qed
qed

lemma at_pos_Reader:
  "good f \<Longrightarrow> rest f = S \<Longrightarrow> at_pos (Reader f reporter checksum 0) kBlockSize S"
  by (simp add: at_pos_def Reader_def)

end

subsection \<open>Reading any file ends\<close>

context reading_file
begin

definition left_in :: "'f reader \<Rightarrow> nat" where
  "left_in r = length (buffer r) + length (rest (rfile r))"

lemma ReportDrop_fields [simp]:
  "buffer (ReportDrop r b s) = buffer r" "rfile (ReportDrop r b s) = rfile r"
  "buffer (ReportCorruption r b m) = buffer r" "rfile (ReportCorruption r b m) = rfile r"
  by (simp_all add: ReportDrop_def ReportCorruption_def)

lemma left_in_simps [simp]:
  "left_in (ReportDrop r b s) = left_in r" "left_in (ReportCorruption r b m) = left_in r"
  "left_in (r\<lparr>resyncing := x\<rparr>) = left_in r" "left_in (r\<lparr>last_record_offset := y\<rparr>) = left_in r"
  by (simp_all add: left_in_def)

lemma fill_left:
  "good (rfile r) \<Longrightarrow> fill F r = (b, r1) \<Longrightarrow> good (rfile r1) \<and> left_in r1 \<le> left_in r \<and>
     (b \<longrightarrow> kHeaderSize \<le> length (buffer r1))"
proof -
  assume g: "good (rfile r)" and f: "fill F r = (b, r1)"
  show ?thesis
  proof (cases "length (buffer r) < kHeaderSize \<and> \<not> eof r")
    case False
    then show ?thesis
      using g f by (cases "length (buffer r) < kHeaderSize") (auto simp: fill_now fill_eof left_in_def not_less)
  next
    case True
    then obtain r2 where r2: "fill F r = fill F r2" "good (rfile r2)"
        "buffer r2 = take kBlockSize (rest (rfile r))" "rest (rfile r2) = drop kBlockSize (rest (rfile r))"
        "eof r2 = (length (rest (rfile r)) < kBlockSize)"
      using fill_read [of r] g by blast
    have l: "left_in r2 \<le> left_in r" "left_in (r2\<lparr>buffer := []\<rparr>) \<le> left_in r"
      using r2(3,4) by (simp_all add: left_in_def)
    show ?thesis
    proof (cases "length (buffer r2) < kHeaderSize")
      case True
      then have "eof r2" unfolding r2(3,5) by (auto simp: kBlockSize_def kHeaderSize_def)
      then show ?thesis using fill_eof [OF True] f r2(1,2) l(2) by auto
    next
      case False
      then show ?thesis using fill_now [of r2] f r2(1,2) l(1) by auto
    qed
  qed
qed

lemma ReadPhysicalRecord_left:
  assumes "good (rfile r)" "ReadPhysicalRecord F r = (type, res, r1)"
  shows "good (rfile r1) \<and> left_in r1 \<le> left_in r \<and> (type \<noteq> kEof \<longrightarrow> left_in r1 < left_in r)"
proof -
  obtain b r0 where f: "fill F r = (b, r0)" by (cases "fill F r")
  note l = fill_left [OF assms(1) f]
  show ?thesis
  proof (cases b)
    case False
    with f l assms(2) show ?thesis by (simp add: ReadPhysicalRecord_def)
  next
    case True
    then have b: "b = True" by simp
    from True l have h: "kHeaderSize \<le> length (buffer r0)" "left_in r0 \<le> left_in r" "good (rfile r0)" by auto
    have "0 < kHeaderSize" by (simp add: kHeaderSize_def)
    with h(1) have ne: "0 < length (buffer r0)" by linarith
    have "left_in (r0\<lparr>buffer := []\<rparr>) < left_in r"
      "\<And>n. left_in (r0\<lparr>buffer := drop (kHeaderSize + n) (buffer r0)\<rparr>) < left_in r"
      using ne \<open>0 < kHeaderSize\<close> h(2) by (simp_all add: left_in_def del: length_greater_0_conv)
    with h(2,3) assms(2) show ?thesis
      unfolding ReadPhysicalRecord_def f b prod.case bool.case
      by (auto simp: Let_def split: if_splits intro: less_imp_le)
  qed
qed

lemma read_loop_returns:
  "good (rfile r) \<Longrightarrow> left_in r < fuel \<Longrightarrow> read_loop fuel F r v \<noteq> None"
proof (induction fuel arbitrary: r v)
  case (Suc fuel)
  obtain type res r1 where p: "ReadPhysicalRecord F r = (type, res, r1)" by (cases "ReadPhysicalRecord F r")
  note l = ReadPhysicalRecord_left [OF Suc.prems(1) p]
  show ?case
  proof (cases "type = kEof")
    case True
    then show ?thesis by (simp add: p Let_def record_codes)
  next
    case False
    then have "left_in r1 < fuel" "good (rfile r1)" using l Suc.prems(2) by auto
    then show ?thesis
      using False by (simp add: p Let_def partial_record_def Suc.IH del: not_None_eq)
  qed
qed simp

lemma SkipToInitialBlock_left:
  "good (rfile r) \<Longrightarrow> SkipToInitialBlock F r = (b, r1) \<Longrightarrow> good (rfile r1) \<and> left_in r1 \<le> left_in r"
proof -
  assume g: "good (rfile r)" and s: "SkipToInitialBlock F r = (b, r1)"
  have l: "good f1 \<and> length (rest f1) \<le> length (rest (rfile r))" if "sf_skip F (rfile r) n = (st, f1)" for n st f1
    using skip_law [OF g, of n] that by auto
  show ?thesis
    using s g l unfolding SkipToInitialBlock_def Let_def
    by (auto split: prod.splits if_splits simp: left_in_def)
qed

lemma ReadRecord_returns:
  assumes "good (rfile r)" "left_in r < fuel"
  shows "ReadRecord fuel F r rec scr \<noteq> None"
proof -
  obtain b r1 where s: "(if last_record_offset r < initial_offset r then SkipToInitialBlock F r else (True, r)) = (b, r1)"
    by fastforce
  have "good (rfile r1)" "left_in r1 < fuel"
    using s assms SkipToInitialBlock_left [OF assms(1), of b r1] by (auto split: if_splits)
  then show ?thesis
    unfolding ReadRecord_def s Let_def prod.case
    by (cases b) (simp_all add: read_loop_returns del: not_None_eq)
qed

end

text \<open>A log written to one file and read, possibly cut short, from another.\<close>

locale log_files =
  appending_file W wgood contents + reading_file F rgood rest
  for W :: "'f writable_file" and wgood contents and F :: "'g sequential_file" and rgood rest
begin

lemma log_prefix:
  assumes "wgood p" "contents p = []" "add_all W (Writer p) ss1 = (st1, w1)"
    and "add_all W (Writer p) (ss1 @ ss2) = (st, w)"
    and "rgood q" "rest q = take k (contents (dest w))" "length (contents (dest w1)) \<le> k"
    and "length (contents (dest w)) < fuel" "length (ss1 @ ss2) < n"
  shows "st = OK \<and> (\<exists>j r. read_all n fuel F (Reader q reporter checksum 0) = Some (ss1 @ take j ss2, r) \<and>
    reports r = [])"
proof -
  have w0: "writer_ok (Writer p)" using assms(1) by (simp add: writer_ok_def Writer_def)
  obtain fss1 where f1: "st1 = OK" "writer_ok w1" "contents (dest w1) = log_bytes fss1"
      "map payloads fss1 = ss1" "log_frags 0 fss1" "block_offset w1 = log_end 0 fss1"
    using add_all_frags [OF w0, of ss1] assms(2,3) by (auto simp: Writer_def)
  have "add_all W w1 ss2 = (st, w)"
    using add_all_append [of "Writer p" ss1 w1 ss2] assms(3,4) f1(1) by simp
  then obtain fss2 where f2: "st = OK" "contents (dest w) = log_bytes (fss1 @ fss2)"
      "map payloads fss2 = ss2" "log_frags (log_end 0 fss1) fss2"
    using add_all_frags [OF f1(2), of ss2] f1(3,6) by auto
  let ?fss = "fss1 @ fss2"
  have "log_frags 0 ?fss" using f1(5) f2(4) by (simp add: log_frags_append)
  then have lf: "log_frags kBlockSize ?fss" "length ?fss < n" "length (log_bytes ?fss) < fuel"
    using f1(4,5) f2 assms(8,9) by (auto simp: log_frags_wrap [symmetric])
  obtain j r where r: "read_all n fuel F (Reader q reporter checksum 0) = Some (take j (map payloads ?fss), r)"
      "undisturbed (Reader q reporter checksum 0) r"
      "\<And>i. i \<le> length ?fss \<Longrightarrow> length (log_bytes (take i ?fss)) \<le> k \<Longrightarrow> i \<le> j"
    using read_all_log [OF at_pos_Reader [OF assms(5,6)[unfolded f2(2)]] lf] by blast
  have "length fss1 \<le> j" using r(3) [of "length fss1"] f1(3) assms(7) by simp
  then have "take j (map payloads ?fss) = ss1 @ take (j - length ss1) ss2"
    using f1(4) f2(3) by (auto simp flip: f1(4) f2(3))
  moreover have "reports r = []" using r(2) by (simp add: undisturbed_def Reader_def)
  ultimately show ?thesis using f2(1) r(1) by auto
qed

end

subsection \<open>Blocks\<close>

lemma frag_block:
  "frag_at off f \<Longrightarrow> (off + length (frag_bytes f)) mod kBlockSize = next_offset off f mod kBlockSize"
proof -
  obtain pad t p where f: "f = (pad, t, p)" by (cases f)
  assume a: "frag_at off f"
  show ?thesis
  proof (cases "kBlockSize - off < kHeaderSize")
    case True
    then have "off + length (frag_bytes f) = kBlockSize + next_offset off f"
      using a by (simp add: f padding_def start_offset_def)
    then show ?thesis by simp
  next
    case False
    then show ?thesis using a by (simp add: f padding_def start_offset_def add.assoc)
  qed
qed

lemma tail_block:
  "tail_frags off fs \<Longrightarrow>
     end_offset off fs \<le> kBlockSize \<and> (off + length (frags_bytes fs)) mod kBlockSize = end_offset off fs mod kBlockSize"
proof (induction fs arbitrary: off)
  case (Cons f fs)
  then have f: "frag_at off f" by simp
  show ?case
  proof (cases "fs = []")
    case True
    then show ?thesis using frag_block [OF f] next_offset_le [OF f] by simp
  next
    case False
    with Cons have "end_offset (next_offset off f) fs \<le> kBlockSize"
      "(next_offset off f + length (frags_bytes fs)) mod kBlockSize = end_offset (next_offset off f) fs mod kBlockSize"
      by auto
    with frag_block [OF f] show ?thesis
      by simp (metis add.assoc mod_add_left_eq)
  qed
qed simp

lemma record_tail: "record_frags off (f # fs) \<Longrightarrow> fs \<noteq> [] \<Longrightarrow> tail_frags (next_offset off f) fs"
  by simp

lemma record_block:
  assumes "record_frags off fs"
  shows "end_offset off fs \<le> kBlockSize \<and>
    (off + length (frags_bytes fs)) mod kBlockSize = end_offset off fs mod kBlockSize"
proof -
  obtain f gs where fs: "fs = f # gs" using assms by (cases fs) auto
  have f: "frag_at off f" using assms fs by simp
  show ?thesis
  proof (cases "gs = []")
    case True
    then show ?thesis using frag_block [OF f] next_offset_le [OF f] fs by simp
  next
    case False
    have "tail_frags (next_offset off f) gs" using assms fs False by simp
    from tail_block [OF this] frag_block [OF f] show ?thesis
      by (simp add: fs) (metis add.assoc mod_add_left_eq)
  qed
qed

lemma log_block:
  "off \<le> kBlockSize \<Longrightarrow> log_frags off fss \<Longrightarrow>
     (off + length (log_bytes fss)) mod kBlockSize = log_end off fss mod kBlockSize"
proof (induction fss arbitrary: off)
  case (Cons fs fss)
  then have "record_frags off fs" by simp
  from record_block [OF this] Cons show ?case
    by simp (metis add.assoc mod_add_left_eq)
qed simp

context appending_file
begin

lemma add_all_block:
  assumes "good p" "contents p = []" "add_all W (Writer p) ss = (st, w)"
  shows "block_offset w \<le> kBlockSize \<and> length (contents (dest w)) mod kBlockSize = block_offset w mod kBlockSize"
proof -
  have w0: "writer_ok (Writer p)" using assms(1) by (simp add: writer_ok_def Writer_def)
  show ?thesis
    using add_all_frags [OF w0, of ss] assms(2,3) log_block [of 0]
    by (auto simp: Writer_def writer_ok_def)
qed

end

subsection \<open>A damaged record\<close>

context reading_file
begin

text \<open>A record of one fragment at the end of the file, with damage to its payload.\<close>

lemma ReadRecord_damaged:
  assumes "at_pos r off (replicate (padding off) 0 @ take kHeaderSize (phys kFullType (a @ x @ b)) @ a @ y @ b)"
    and "start_offset off + kHeaderSize + length (a @ x @ b) \<le> kBlockSize"
    and "length y = length x" "length x \<le> 4" "y \<noteq> x" "verify_checksum r" "has_reporter r"
  shows "\<exists>r1. ReadRecord (Suc (Suc n)) F r rec scr = Some (False, [], [], r1) \<and>
    reports r1 = reports r @
      [(of_nat (kHeaderSize + length (a @ x @ b)), Corruption (str ''checksum mismatch'') [])]"
proof -
  let ?s = "a @ x @ b" and ?s' = "a @ y @ b" and ?o = "start_offset off"
  let ?S = "take kHeaderSize (phys kFullType ?s) @ ?s'"
  have lS: "length ?S = kHeaderSize + length ?s" using assms(3) by simp
  obtain r1 where r1: "fill F r = (True, r1)" "at_pos r1 ?o ?S" "undisturbed r r1"
    using fill_pos [OF assms(1)] lS by auto
  have h: "buffer r1 = ?S" using r1(2) lS assms(2) by (simp add: at_pos_def)
  have lp: "length ?s \<le> kBlockSize" using assms(2) by simp
  note parts = phys_parts [OF lp, where t = kFullType]
  have h6: "?S ! 6 = kFullType" "unat (?S ! 4) + 256 * unat (?S ! 5) = length ?s"
    using parts(1,2) by (simp_all add: nth_append kHeaderSize_def)
  have hd: "?S = le_bytes 4 (Mask (crc32c 0 (kFullType # ?s))) @
      [of_nat (length ?s mod 256), of_nat (length ?s div 256), kFullType] @ ?s'"
    unfolding phys_def by (simp add: kHeaderSize_def)
  have d6: "drop 6 ?S = kFullType # ?s'" unfolding hd by simp
  have dec: "DecodeFixed32 kLittleEndian ?S = Mask (crc32c 0 (kFullType # ?s))"
    unfolding hd append_assoc EncodeFixed_neutral [of True, symmetric] by simp
  have "crc32c 0 ((kFullType # a) @ y @ b) \<noteq> crc32c 0 ((kFullType # a) @ x @ b)"
    using crc32c_burst [of 0 "kFullType # a" y b x] assms(3-5) by auto
  then have crc: "Value 0 (take (1 + length ?s) (drop 6 ?S)) \<noteq> Unmask (DecodeFixed32 kLittleEndian ?S)"
    unfolding d6 dec using assms(3) by (simp add: Value_def Extend_crc32c)
  have v: "verify_checksum r1" "reports r1 = reports r" "has_reporter r1" "initial_offset r1 = 0" "\<not> resyncing r1"
    using r1(2,3) assms(6,7) by (auto simp: undisturbed_def at_pos_def)
  let ?r2 = "ReportCorruption (r1\<lparr>buffer := []\<rparr>) (size64 ?S) ''checksum mismatch''"
  have len: "\<not> length ?S < kHeaderSize + length ?s" unfolding lS by simp
  have p1: "ReadPhysicalRecord F r = (kBadRecord, None, ?r2)"
    unfolding ReadPhysicalRecord_def r1(1) prod.case bool.case Let_def h h6 if_not_P [OF len]
    using crc v(1) scast_type [of kFullType] by simp
  have rep: "reports ?r2 = reports r @ [(size64 ?S, Corruption (str ''checksum mismatch'') [])]"
    using v by (simp add: ReportCorruption_def ReportDrop_def)
  have at2: "at_pos ?r2 kBlockSize []"
    using r1(2) lS assms(2) by (auto simp: at_pos_def ReportCorruption_def ReportDrop_def)
  then obtain r3 where r3: "ReadPhysicalRecord F ?r2 = (kEof, None, r3)" "undisturbed ?r2 r3"
    using read_end by blast
  have nr: "\<not> resyncing ?r2" "?r2\<lparr>resyncing := False\<rparr> = ?r2" "\<not> resyncing r3"
    using v(5) r3(2) by (auto simp: undisturbed_def ReportCorruption_def ReportDrop_def)
  have "ReadRecord (Suc (Suc n)) F r rec scr = Some (False, [], [], r3)"
    unfolding ReadRecord_loop [OF assms(1)]
    by (simp add: p1 r3(1) record_codes Let_def nr)
  moreover have "reports r3 = reports r @ [(of_nat (kHeaderSize + length ?s), Corruption (str ''checksum mismatch'') [])]"
    using r3(2) rep lS by (simp add: undisturbed_def size64_def)
  ultimately show ?thesis by blast
qed

text \<open>Reading goes through the complete records of a log, whatever follows them.\<close>

lemma read_all_through:
  assumes "at_pos r off (log_bytes fss @ S)" "log_frags off fss" "length (log_bytes fss) \<le> fuel"
  shows "\<exists>r1. at_pos r1 (log_end off fss) S \<and> undisturbed r r1 \<and>
    (\<forall>n. read_all (length fss + n) fuel F r =
       map_option (\<lambda>(rs, r2). (map payloads fss @ rs, r2)) (read_all n fuel F r1))"
  using assms
proof (induction fss arbitrary: r off)
  case Nil
  then show ?case by (intro exI [of _ r]) (simp add: option.map_ident case_prod_beta)
next
  case (Cons fs fss)
  have fuel: "length fs \<le> fuel" "length (log_bytes fss) \<le> fuel"
    using length_frags_le [of fs] Cons.prems(3) by simp_all
  obtain scr1 r1 where r1: "ReadRecord fuel F r [] [] = Some (True, payloads fs, scr1, r1)"
      "at_pos r1 (end_offset off fs) (log_bytes fss @ S)" "undisturbed r r1"
    using ReadRecord_complete [of r off fs "log_bytes fss @ S" fuel "[]" "[]"] fuel(1) Cons.prems(1,2) by auto
  obtain r2 where r2: "at_pos r2 (log_end (end_offset off fs) fss) S" "undisturbed r1 r2"
      "\<And>n. read_all (length fss + n) fuel F r1 =
         map_option (\<lambda>(rs, r2). (map payloads fss @ rs, r2)) (read_all n fuel F r2)"
    using Cons.IH [OF r1(2)] Cons.prems(2) fuel(2) by auto
  show ?case
    using r1(1) r2(1,3) undisturbed_trans [OF r1(3) r2(2)]
    by (intro exI [of _ r2]) (simp add: option.map_comp o_def case_prod_beta)
qed

end

context log_files
begin

text \<open>The last record of a log is written as one fragment if it fits into what is left of the block.\<close>

lemma AddRecord_one_fragment:
  assumes "writer_ok w" "start_offset (block_offset w) + kHeaderSize + length s \<le> kBlockSize"
  shows "\<exists>w1. AddRecord W w s = (OK, w1) \<and>
    contents (dest w1) = contents (dest w) @ replicate (padding (block_offset w)) 0 @ phys kFullType s"
proof -
  let ?w = "switch_block W w"
  note sw = switch_block_ok [OF assms(1)]
  have n: "fragment_length (length s) (block_offset ?w) = length s"
    using assms(2) by (auto simp: fragment_length_def Let_def sw(2))
  obtain d where d: "EmitPhysicalRecord W ?w kFullType s =
      (OK, ?w\<lparr>dest := d, block_offset := block_offset ?w + kHeaderSize + length s\<rparr>)"
      "contents d = contents (dest ?w) @ phys kFullType s"
    using Emit_phys [where w = ?w and t = kFullType and p = s] sw(1) by (auto simp: writer_ok_def)
  have "AddRecord W w s = (OK, ?w\<lparr>dest := d, block_offset := block_offset ?w + kHeaderSize + length s\<rparr>)"
    unfolding AddRecord_def using d(1)
    by (subst add_loop.simps) (simp only: Let_def n record_type_def simp_thms if_True take_all le_refl
        prod.case diff_self_eq_0 less_irrefl if_False)
  with d(2) sw(3) show ?thesis by simp
qed

lemma damaged_record:
  assumes "wgood p" "contents p = []" "add_all W (Writer p) ss = (st0, w0)"
    and "add_all W (Writer p) (ss @ [a @ x @ b]) = (st, w)"
    and "start_offset (block_offset w0) + kHeaderSize + length (a @ x @ b) \<le> kBlockSize"
    and "length y = length x" "length x \<le> 4" "y \<noteq> x"
    and "rgood q"
    and "rest q = take (length (contents (dest w)) - length (a @ x @ b)) (contents (dest w)) @ a @ y @ b"
    and "length (contents (dest w)) < fuel" "length ss < n"
  shows "\<exists>r. read_all n fuel F (Reader q True True 0) = Some (ss, r) \<and>
    reports r = [(of_nat (kHeaderSize + length (a @ x @ b)), Corruption (str ''checksum mismatch'') [])]"
proof -
  let ?s = "a @ x @ b" and ?r = "Reader q True True 0"
  have wr: "writer_ok (Writer p)" using assms(1) by (simp add: writer_ok_def Writer_def)
  obtain fss where f: "st0 = OK" "writer_ok w0" "contents (dest w0) = log_bytes fss"
      "map payloads fss = ss" "log_frags 0 fss" "block_offset w0 = log_end 0 fss"
    using add_all_frags [OF wr, of ss] assms(2,3) by (auto simp: Writer_def)
  let ?pad = "replicate (padding (block_offset w0)) (0 :: u8)"
  obtain w1 where "AddRecord W w0 ?s = (OK, w1)"
      "contents (dest w1) = contents (dest w0) @ ?pad @ phys kFullType ?s"
    using AddRecord_one_fragment [OF f(2) assms(5)] by blast
  then have w: "contents (dest w) = log_bytes fss @ ?pad @ phys kFullType ?s"
    using assms(4) add_all_append [of "Writer p" ss w0 "[?s]"] assms(3) f(1,3) by simp
  let ?S = "?pad @ take kHeaderSize (phys kFullType ?s) @ a @ y @ b"
  have at: "at_pos ?r kBlockSize (log_bytes fss @ ?S)"
    by (rule at_pos_Reader [OF assms(9)]) (simp add: assms(10) w)
  have lf: "log_frags kBlockSize fss" "length (log_bytes fss) \<le> fuel"
    using f(5) assms(11) w by (simp_all add: log_frags_wrap)
  obtain r1 where r1: "at_pos r1 (log_end kBlockSize fss) ?S" "undisturbed ?r r1"
      "\<And>n. read_all (length fss + n) fuel F ?r =
         map_option (\<lambda>(rs, r2). (map payloads fss @ rs, r2)) (read_all n fuel F r1)"
    using read_all_through [OF at lf] by blast
  have o: "padding (log_end kBlockSize fss) = padding (block_offset w0)"
    "start_offset (log_end kBlockSize fss) = start_offset (block_offset w0)"
  proof -
    have "padding (log_end kBlockSize fss) = padding (log_end 0 fss) \<and>
      start_offset (log_end kBlockSize fss) = start_offset (log_end 0 fss)"
    proof (cases fss)
      case Nil
      then show ?thesis by (simp add: padding_def start_offset_def kBlockSize_def kHeaderSize_def)
    next
      case (Cons fs gss)
      then have "fs \<noteq> []" using f(5) by auto
      then show ?thesis by (simp add: Cons record_frags_wrap)
    qed
    then show "padding (log_end kBlockSize fss) = padding (block_offset w0)"
      "start_offset (log_end kBlockSize fss) = start_offset (block_offset w0)"
      by (simp_all add: f(6))
  qed
  have "2 \<le> fuel" using assms(11) w by (simp add: kHeaderSize_def)
  then obtain g where g: "fuel = Suc (Suc g)" by (metis Suc_le_D numeral_2_eq_2 Suc_le_mono)
  obtain m where m: "n = length fss + Suc m"
    using assms(12) f(4) by (metis add_Suc_right less_imp_Suc_add length_map)
  obtain r2 where r2: "ReadRecord fuel F r1 [] [] = Some (False, [], [], r2)"
      "reports r2 = reports r1 @ [(of_nat (kHeaderSize + length ?s), Corruption (str ''checksum mismatch'') [])]"
    using ReadRecord_damaged [of r1 "log_end kBlockSize fss" a x b y g "[]" "[]"] r1(1,2) assms(5-8)
    by (auto simp: o g undisturbed_def Reader_def)
  have "read_all n fuel F ?r = Some (ss, r2)" unfolding m r1(3) by (simp add: r2(1) f(4))
  moreover have "reports r1 = []" using r1(2) by (simp add: undisturbed_def Reader_def)
  ultimately show ?thesis using r2(2) by auto
qed

end

interpretation posix_log: log_files PosixWritableFile writable posix_contents PosixSequentialFile readable posix_rest
  by unfold_locales

end
