(* ===== verification/Ldb_Filter.thy ===== *)
theory Ldb_Filter
  imports Ldb_Status
begin

text \<open>
  The filters of LevelDB's tables: the hash function (\<open>util/hash.cc\<close>), the Bloom filter policy
  (\<open>util/bloom.cc\<close>) and the filter block of a table (\<open>table/filter_block.cc\<close>). A filter may say
  yes for a key it does not hold, but never no for a key it was made from; the contract is a
  locale, the filter block is verified against it and the Bloom filter provides it.
\<close>

unbundle bit_operations_syntax

subsection \<open>The hash function\<close>

definition hash_m :: u32 where "hash_m = 0xc6a4a793"

fun hash_words :: "u32 \<Rightarrow> slice \<Rightarrow> u32 \<times> slice" where
  "hash_words h (a # b # c # d # data) =
     (let w = DecodeFixed32 kLittleEndian [a, b, c, d];
          h = (h + w) * hash_m
      in hash_words (h XOR drop_bit 16 h) data)"
| "hash_words h data = (h, data)"

text \<open>The product \<open>n * m\<close> is computed with 64 bits.\<close>

definition Hash :: "slice \<Rightarrow> u32 \<Rightarrow> u32" where
  "Hash data seed =
     (let h = ucast (ucast seed XOR (of_nat (length data) * ucast hash_m :: u64));
          (h, rest) = hash_words h data;
          h = (if length rest = 3 then h + push_bit 16 (ucast (rest ! 2)) else h);
          h = (if length rest \<ge> 2 then h + push_bit 8 (ucast (rest ! 1)) else h)
      in if length rest \<ge> 1 then
           let h = (h + ucast (rest ! 0)) * hash_m in h XOR drop_bit 24 h
         else h)"

subsection \<open>The interface of a filter policy\<close>

text \<open>\<open>CreateFilter\<close> appends to a string; \<open>KeyMayMatch\<close> is given a key and a filter.\<close>

record filter_policy =
  policy_name :: slice
  CreateFilter :: "slice list \<Rightarrow> u8 list \<Rightarrow> u8 list"
  KeyMayMatch :: "slice \<Rightarrow> slice \<Rightarrow> bool"

locale no_false_negatives =
  fixes P :: filter_policy
  assumes create: "length keys < 2 ^ 31 \<Longrightarrow>
    \<exists>f. CreateFilter P keys dst = dst @ f \<and> (\<forall>key \<in> set keys. KeyMayMatch P key f)"

subsection \<open>The Bloom filter\<close>

definition BloomHash :: "slice \<Rightarrow> u32" where
  "BloomHash key = Hash key 0xbc9f1d34"

text \<open>
  \<open>bits_per_key * 0.69\<close> is a product of \<open>double\<close>s; up to 44 bits per key it rounds down to the
  integer below, and from there on the result is 30. A negative argument is not in the model
  (its conversion to \<open>size_t\<close> is undefined).
\<close>

definition bloom_k :: "nat \<Rightarrow> nat" where
  "bloom_k bits_per_key = (let k = bits_per_key * 69 div 100 in
     let k = (if k < 1 then 1 else k) in if k > 30 then 30 else k)"

definition bloom_delta :: "u32 \<Rightarrow> u32" where
  "bloom_delta h = drop_bit 17 h OR push_bit 15 h"

fun set_probes :: "nat \<Rightarrow> nat \<Rightarrow> u32 \<Rightarrow> u32 \<Rightarrow> u8 list \<Rightarrow> u8 list" where
  "set_probes 0 bits delta h array = array"
| "set_probes (Suc j) bits delta h array =
     (let bitpos = unat h mod bits in
      set_probes j bits delta (h + delta)
        (array[bitpos div 8 := array ! (bitpos div 8) OR push_bit (bitpos mod 8) 1]))"

definition add_bloom_key :: "nat \<Rightarrow> nat \<Rightarrow> slice \<Rightarrow> u8 list \<Rightarrow> u8 list" where
  "add_bloom_key k bits key array =
     (let h = BloomHash key in set_probes k bits (bloom_delta h) h array)"

definition Bloom_CreateFilter :: "nat \<Rightarrow> slice list \<Rightarrow> u8 list \<Rightarrow> u8 list" where
  "Bloom_CreateFilter bits_per_key keys dst =
     (let bits = length keys * bits_per_key;
          bits = (if bits < 64 then 64 else bits);
          bytes = (bits + 7) div 8;
          bits = bytes * 8;
          k = bloom_k bits_per_key
      in dst @ fold (add_bloom_key k bits) keys (replicate bytes 0) @ [of_nat k])"

fun test_probes :: "nat \<Rightarrow> nat \<Rightarrow> u32 \<Rightarrow> u32 \<Rightarrow> u8 list \<Rightarrow> bool" where
  "test_probes 0 bits delta h array = True"
| "test_probes (Suc j) bits delta h array =
     (let bitpos = unat h mod bits in
      if array ! (bitpos div 8) AND push_bit (bitpos mod 8) 1 = 0 then False
      else test_probes j bits delta (h + delta) array)"

text \<open>The number of probes is a \<open>char\<close> converted to \<open>size_t\<close>.\<close>

definition Bloom_KeyMayMatch :: "slice \<Rightarrow> slice \<Rightarrow> bool" where
  "Bloom_KeyMayMatch key bloom_filter =
     (let len = length bloom_filter in
      if len < 2 then False
      else
        let bits = (len - 1) * 8; k = (scast (bloom_filter ! (len - 1)) :: u64)
        in if 30 < k then True
           else let h = BloomHash key in test_probes (unat k) bits (bloom_delta h) h bloom_filter)"

definition BloomFilterPolicy :: "nat \<Rightarrow> filter_policy" where
  "BloomFilterPolicy bits_per_key =
     \<lparr>policy_name = str ''leveldb.BuiltinBloomFilter2'',
      CreateFilter = Bloom_CreateFilter bits_per_key, KeyMayMatch = Bloom_KeyMayMatch\<rparr>"

subsection \<open>The Bloom filter has no false negatives\<close>

definition bit_set :: "u8 list \<Rightarrow> nat \<Rightarrow> bool" where
  "bit_set array i \<longleftrightarrow> bit (array ! (i div 8)) (i mod 8)"

lemmas test_bit = and_exp_eq_0_iff_not_bit

lemma bit_set_update:
  "i div 8 < length array \<Longrightarrow> bit_set array j \<or> j = i \<Longrightarrow>
     bit_set (array[i div 8 := array ! (i div 8) OR 2 ^ (i mod 8)]) j"
  by (cases "j div 8 = i div 8") (auto simp: bit_set_def bit_simps)

lemma length_set_probes [simp]: "length (set_probes k bits delta h array) = length array"
  by (induction k arbitrary: h array) (simp_all add: Let_def)

lemma length_add_bloom_key [simp]: "length (add_bloom_key k bits key array) = length array"
  by (simp add: add_bloom_key_def Let_def)

lemma mod_in_array: "0 < n \<Longrightarrow> n = 8 * length (array :: u8 list) \<Longrightarrow> a mod n div 8 < length array"
  by (simp add: less_mult_imp_div_less mult.commute)

lemma set_probes_keeps:
  "bits = 8 * length array \<Longrightarrow> bit_set array i \<Longrightarrow> array \<noteq> [] \<Longrightarrow> bit_set (set_probes k bits delta h array) i"
proof (induction k arbitrary: h array)
  case (Suc k)
  let ?i = "unat h mod bits"
  let ?a = "array[?i div 8 := array ! (?i div 8) OR 2 ^ (?i mod 8)]"
  have "?i div 8 < length array" using mod_in_array [of bits array "unat h"] Suc.prems by simp
  then have "bit_set ?a i" using bit_set_update Suc.prems(2) by blast
  then have "bit_set (set_probes k bits delta (h + delta) ?a) i"
    using Suc.IH [of ?a] Suc.prems by simp
  then show ?case by (simp add: Let_def)
qed simp

lemma test_probes_mono:
  "test_probes k bits delta h array \<Longrightarrow> (\<And>i. i < bits \<Longrightarrow> bit_set array i \<Longrightarrow> bit_set array' i) \<Longrightarrow>
     0 < bits \<Longrightarrow> test_probes k bits delta h array'"
  by (induction k arbitrary: h) (auto simp: Let_def test_bit bit_set_def split: if_splits)

lemma test_set_probes:
  "bits = 8 * length array \<Longrightarrow> array \<noteq> [] \<Longrightarrow> test_probes k bits delta h (set_probes k bits delta h array)"
proof (induction k arbitrary: h array)
  case (Suc k)
  let ?i = "unat h mod bits"
  let ?a = "array[?i div 8 := array ! (?i div 8) OR 2 ^ (?i mod 8)]"
  have i: "?i div 8 < length array" using mod_in_array [of bits array "unat h"] Suc.prems by simp
  have "bit_set ?a ?i" using bit_set_update [OF i, of ?i] by simp
  then have "bit_set (set_probes k bits delta (h + delta) ?a) ?i"
    using set_probes_keeps [of bits ?a ?i] Suc.prems by simp
  moreover have "test_probes k bits delta (h + delta) (set_probes k bits delta (h + delta) ?a)"
    using Suc.IH [of ?a] Suc.prems by simp
  ultimately show ?case by (simp add: Let_def test_bit bit_set_def)
qed simp

lemma fold_bloom_keys:
  assumes "bits = 8 * length array" "array \<noteq> []"
  shows "length (fold (add_bloom_key k bits) keys array) = length array \<and>
    (\<forall>i. bit_set array i \<longrightarrow> bit_set (fold (add_bloom_key k bits) keys array) i) \<and>
    (\<forall>key \<in> set keys. test_probes k bits (bloom_delta (BloomHash key)) (BloomHash key)
      (fold (add_bloom_key k bits) keys array))"
  using assms
proof (induction keys arbitrary: array)
  case (Cons key keys)
  let ?a = "add_bloom_key k bits key array"
  have ne: "?a \<noteq> []" using Cons.prems(2) by (metis length_0_conv length_add_bloom_key)
  have l: "bits = 8 * length ?a" "0 < bits" using Cons.prems by simp_all
  note IH = Cons.IH [OF l(1) ne]
  have "bit_set array i \<Longrightarrow> bit_set ?a i" for i
    using set_probes_keeps Cons.prems by (simp add: add_bloom_key_def Let_def)
  moreover have "test_probes k bits (bloom_delta (BloomHash key)) (BloomHash key) ?a"
    using test_set_probes Cons.prems by (simp add: add_bloom_key_def Let_def)
  then have "test_probes k bits (bloom_delta (BloomHash key)) (BloomHash key)
      (fold (add_bloom_key k bits) keys ?a)"
    by (rule test_probes_mono) (use IH l(2) in auto)
  ultimately show ?case using IH by simp
qed simp

lemma test_probes_append:
  "bits = 8 * length array \<Longrightarrow> array \<noteq> [] \<Longrightarrow>
     test_probes k bits delta h (array @ rest) = test_probes k bits delta h array"
proof (induction k arbitrary: h)
  case (Suc k)
  then show ?case using mod_in_array [of bits array "unat h"] by (simp add: Let_def nth_append)
qed simp

lemma bloom_k_range: "1 \<le> bloom_k b" "bloom_k b \<le> 30"
  by (simp_all add: bloom_k_def Let_def)

lemma scast_probes:
  assumes "k \<le> 30"
  shows "(scast (of_nat k :: u8) :: u64) = of_nat k"
proof -
  have "int k < 2 ^ 7" using assms by simp
  then have "signed_take_bit 7 (int k) = int k"
    by (simp add: signed_take_bit_int_eq_self)
  then show ?thesis by (simp add: signed_of_nat)
qed

lemma Bloom_create:
  "\<exists>f. Bloom_CreateFilter bits_per_key keys dst = dst @ f \<and>
    (\<forall>key \<in> set keys. Bloom_KeyMayMatch key f)"
proof -
  let ?n = "length keys * bits_per_key"
  let ?bytes = "((if ?n < 64 then 64 else ?n) + 7) div 8" and ?k = "bloom_k bits_per_key"
  let ?array = "fold (add_bloom_key ?k (?bytes * 8)) keys (replicate ?bytes 0)"
  have b: "0 < ?bytes" by auto
  then have ne: "replicate ?bytes (0 :: u8) \<noteq> []" by (metis length_0_conv length_replicate less_numeral_extra(3))
  have a: "length ?array = ?bytes"
    "\<And>key. key \<in> set keys \<Longrightarrow>
       test_probes ?k (?bytes * 8) (bloom_delta (BloomHash key)) (BloomHash key) ?array"
    using fold_bloom_keys [of "?bytes * 8" "replicate ?bytes 0" ?k keys] ne by (simp_all add: mult.commute)
  have ne2: "?array \<noteq> []" using a(1) b by (metis length_0_conv less_numeral_extra(3))
  have k: "(scast (of_nat ?k :: u8) :: u64) = of_nat ?k" "unat (of_nat ?k :: u64) = ?k"
    "\<not> 30 < (of_nat ?k :: u64)"
    using scast_probes bloom_k_range(2) [of bits_per_key] by (simp_all add: word_less_nat_alt unat_of_nat)
  have len: "\<not> length (?array @ [of_nat ?k]) < 2" "length (?array @ [of_nat ?k]) - 1 = ?bytes"
    "(?array @ [of_nat ?k]) ! ?bytes = of_nat ?k"
    using a(1) b by (simp_all add: nth_append)
  have "Bloom_KeyMayMatch key (?array @ [of_nat ?k])" if "key \<in> set keys" for key
    unfolding Bloom_KeyMayMatch_def Let_def len(2,3) if_not_P [OF len(1)] k(1,2) if_not_P [OF k(3)]
    using test_probes_append [OF _ ne2] a that by (simp add: mult.commute)
  then show ?thesis
    by (intro exI [of _ "?array @ [of_nat ?k]"]) (simp add: Bloom_CreateFilter_def Let_def)
qed

interpretation bloom: no_false_negatives "BloomFilterPolicy bits_per_key"
  by unfold_locales (use Bloom_create in \<open>auto simp: BloomFilterPolicy_def\<close>)

subsection \<open>The filter block\<close>

definition kFilterBaseLg :: nat where "kFilterBaseLg = 11"
definition kFilterBase :: u64 where "kFilterBase = push_bit kFilterBaseLg 1"

text \<open>
  The builder keeps the keys of the current filter flattened in one string with their start
  offsets. \<open>tmp_keys_\<close> is empty between calls.
\<close>

record FilterBlockBuilder =
  fb_keys :: "u8 list"
  fb_start :: "nat list"
  fb_result :: "u8 list"
  fb_offsets :: "u32 list"

definition new_FilterBlockBuilder :: FilterBlockBuilder where
  "new_FilterBlockBuilder = \<lparr>fb_keys = [], fb_start = [], fb_result = [], fb_offsets = []\<rparr>"

definition GenerateFilter :: "filter_policy \<Rightarrow> FilterBlockBuilder \<Rightarrow> FilterBlockBuilder" where
  "GenerateFilter P b =
     (let num_keys = length (fb_start b) in
      if num_keys = 0 then b\<lparr>fb_offsets := fb_offsets b @ [of_nat (length (fb_result b))]\<rparr>
      else
        let start = fb_start b @ [length (fb_keys b)];
            tmp_keys = map (\<lambda>i. take (start ! (i + 1) - start ! i) (drop (start ! i) (fb_keys b))) [0..<num_keys]
        in b\<lparr>fb_offsets := fb_offsets b @ [of_nat (length (fb_result b))],
             fb_result := CreateFilter P tmp_keys (fb_result b), fb_keys := [], fb_start := []\<rparr>)"

lemma filter_offsets_Generate [simp]:
  "length (fb_offsets (GenerateFilter P b)) = Suc (length (fb_offsets b))"
  by (simp add: GenerateFilter_def Let_def)

function generate_to :: "filter_policy \<Rightarrow> nat \<Rightarrow> FilterBlockBuilder \<Rightarrow> FilterBlockBuilder" where
  "generate_to P filter_index b =
     (if length (fb_offsets b) < filter_index then generate_to P filter_index (GenerateFilter P b) else b)"
  by pat_completeness auto
termination
  by (relation "measure (\<lambda>(P, n, b). n - length (fb_offsets b))") auto

declare generate_to.simps [simp del]

text \<open>The code asserts that \<open>filter_index\<close> is not below the number of filters.\<close>

definition StartBlock :: "filter_policy \<Rightarrow> u64 \<Rightarrow> FilterBlockBuilder \<Rightarrow> FilterBlockBuilder" where
  "StartBlock P block_offset b = (let filter_index = block_offset div kFilterBase in generate_to P (unat filter_index) b)"

definition AddKey :: "slice \<Rightarrow> FilterBlockBuilder \<Rightarrow> FilterBlockBuilder" where
  "AddKey key b = b\<lparr>fb_start := fb_start b @ [length (fb_keys b)], fb_keys := fb_keys b @ key\<rparr>"

definition Finish_filter :: "filter_policy \<Rightarrow> FilterBlockBuilder \<Rightarrow> slice \<times> FilterBlockBuilder" where
  "Finish_filter P b0 =
     (let b = (if fb_start b0 \<noteq> [] then GenerateFilter P b0 else b0);
          array_offset = (of_nat (length (fb_result b)) :: u32);
          r = fold (\<lambda>off r. PutFixed32 r off) (fb_offsets b) (fb_result b);
          r = PutFixed32 r array_offset @ [of_nat kFilterBaseLg]
      in (r, b\<lparr>fb_result := r\<rparr>))"

text \<open>
  The reader: \<open>offset_\<close> as an index into the contents; \<open>data_\<close> and \<open>offset_\<close> are null while
  \<open>num_\<close> is 0.
\<close>

record FilterBlockReader =
  fr_data :: slice
  fr_offset :: nat
  fr_num :: nat
  fr_base_lg :: u64

definition new_FilterBlockReader :: "slice \<Rightarrow> FilterBlockReader" where
  "new_FilterBlockReader contents =
     (let n = length contents in
      if n < 5 then \<lparr>fr_data = [], fr_offset = 0, fr_num = 0, fr_base_lg = 0\<rparr>
      else
        let base_lg = scast (contents ! (n - 1)); last_word = unat (DecodeFixed32 kLittleEndian (drop (n - 5) contents))
        in if n - 5 < last_word then \<lparr>fr_data = [], fr_offset = 0, fr_num = 0, fr_base_lg = base_lg\<rparr>
           else \<lparr>fr_data = contents, fr_offset = last_word, fr_num = (n - 5 - last_word) div 4, fr_base_lg = base_lg\<rparr>)"

text \<open>A shift by 64 bits or more is undefined; it happens on a damaged block only.\<close>

definition filter_KeyMayMatch :: "filter_policy \<Rightarrow> FilterBlockReader \<Rightarrow> u64 \<Rightarrow> slice \<Rightarrow> bool exec" where
  "filter_KeyMayMatch P r block_offset key =
     (if 64 \<le> fr_base_lg r then Undefined
      else
        let index = unat (drop_bit (unat (fr_base_lg r)) block_offset) in
        if index < fr_num r then
          let start = unat (DecodeFixed32 kLittleEndian (drop (fr_offset r + index * 4) (fr_data r)));
              limit = unat (DecodeFixed32 kLittleEndian (drop (fr_offset r + index * 4 + 4) (fr_data r)))
          in if start \<le> limit \<and> limit \<le> fr_offset r
             then Done (KeyMayMatch P key (take (limit - start) (drop start (fr_data r))))
             else if start = limit then Done False
             else Done True
        else Done True)"

subsection \<open>The filter block has no false negatives\<close>

text \<open>
  The state of the builder in terms of the filters made so far and the keys that wait.
\<close>

definition starts :: "u8 list list \<Rightarrow> nat list" where
  "starts xs = map (\<lambda>i. length (concat (take i xs))) [0..<length xs]"

definition builds :: "FilterBlockBuilder \<Rightarrow> u8 list list \<Rightarrow> slice list \<Rightarrow> bool" where
  "builds b fs ks \<longleftrightarrow> fb_keys b = concat ks \<and> fb_start b = starts ks \<and> fb_result b = concat fs \<and>
     fb_offsets b = map of_nat (starts fs)"

lemma length_starts [simp]: "length (starts xs) = length xs"
  by (simp add: starts_def)

lemma starts_eq_Nil [simp]: "starts xs = [] \<longleftrightarrow> xs = []"
  by (simp add: starts_def)

lemma starts_snoc: "starts (xs @ [x]) = starts xs @ [length (concat xs)]"
  by (simp add: starts_def)

lemma starts_nth: "i < length xs \<Longrightarrow> starts xs ! i = length (concat (take i xs))"
  by (simp add: starts_def)

lemma concat_piece:
  "i < length xs \<Longrightarrow>
     take (length (concat (take (Suc i) xs)) - length (concat (take i xs)))
       (drop (length (concat (take i xs))) (concat xs)) = xs ! i"
proof -
  assume i: "i < length xs"
  have "concat xs = concat (take i xs) @ xs ! i @ concat (drop (Suc i) xs)"
    using id_take_nth_drop [OF i] by (metis concat.simps(2) concat_append)
  moreover have "length (concat (take (Suc i) xs)) - length (concat (take i xs)) = length (xs ! i)"
    using i by (simp add: take_Suc_conv_app_nth)
  ultimately show ?thesis by simp
qed

lemma starts_end:
  "i < length xs \<Longrightarrow> (starts xs @ [length (concat xs)]) ! Suc i = length (concat (take (Suc i) xs))"
  using starts_nth [of "Suc i" "xs @ [[]]"]
  by (simp add: starts_snoc)

lemma cut_pieces:
  "map (\<lambda>i. take ((starts xs @ [length (concat xs)]) ! (i + 1) - (starts xs @ [length (concat xs)]) ! i)
      (drop ((starts xs @ [length (concat xs)]) ! i) (concat xs))) [0..<length xs] = xs"
proof (rule nth_equalityI)
  fix i assume "i < length (map (\<lambda>i. take ((starts xs @ [length (concat xs)]) ! (i + 1) -
      (starts xs @ [length (concat xs)]) ! i) (drop ((starts xs @ [length (concat xs)]) ! i) (concat xs)))
      [0..<length xs])"
  then have i: "i < length xs" by simp
  then have "(starts xs @ [length (concat xs)]) ! i = length (concat (take i xs))"
    by (simp add: nth_append starts_nth)
  with i show "map (\<lambda>i. take ((starts xs @ [length (concat xs)]) ! (i + 1) -
      (starts xs @ [length (concat xs)]) ! i) (drop ((starts xs @ [length (concat xs)]) ! i) (concat xs)))
      [0..<length xs] ! i = xs ! i"
    using starts_end [OF i] concat_piece [OF i] by simp
qed simp

lemma builds_new: "builds new_FilterBlockBuilder [] []"
  by (simp add: builds_def new_FilterBlockBuilder_def starts_def)

lemma builds_AddKey: "builds b fs ks \<Longrightarrow> builds (AddKey k b) fs (ks @ [k])"
  by (simp add: builds_def AddKey_def starts_snoc)

context no_false_negatives
begin

lemma builds_Generate:
  assumes "builds b fs ks" "length ks < 2 ^ 31"
  shows "\<exists>f. builds (GenerateFilter P b) (fs @ [f]) [] \<and> (\<forall>k \<in> set ks. KeyMayMatch P k f)"
proof (cases "ks = []")
  case True
  then show ?thesis
    using assms by (intro exI [of _ "[]"]) (simp add: builds_def GenerateFilter_def starts_snoc)
next
  case False
  have g: "GenerateFilter P b = b\<lparr>fb_offsets := fb_offsets b @ [of_nat (length (fb_result b))],
      fb_result := CreateFilter P ks (fb_result b), fb_keys := [], fb_start := []\<rparr>"
    using assms(1) False cut_pieces [of ks] by (simp add: GenerateFilter_def Let_def builds_def)
  obtain f where f: "CreateFilter P ks (fb_result b) = fb_result b @ f" "\<forall>k \<in> set ks. KeyMayMatch P k f"
    using create [OF assms(2)] by blast
  show ?thesis
    using assms(1) f unfolding g by (intro exI [of _ f]) (simp add: builds_def starts_snoc starts_def)
qed

text \<open>
  \<open>K\<close> is what has been promised: pairs of the index of a filter and a key that it has to match.
\<close>

definition holds :: "FilterBlockBuilder \<Rightarrow> u8 list list \<Rightarrow> slice list \<Rightarrow> (nat \<times> slice) set \<Rightarrow> bool" where
  "holds b fs ks K \<longleftrightarrow> builds b fs ks \<and>
     (\<forall>(i, k) \<in> K. i < length fs \<and> KeyMayMatch P k (fs ! i) \<or> i = length fs \<and> k \<in> set ks)"

lemma holds_AddKey: "holds b fs ks K \<Longrightarrow> holds (AddKey k b) fs (ks @ [k]) (insert (length fs, k) K)"
  by (auto simp: holds_def builds_AddKey)

lemma holds_AddKeys:
  "holds b fs ks K \<Longrightarrow> holds (fold AddKey keys b) fs (ks @ keys) (Pair (length fs) ` set keys \<union> K)"
proof (induction keys arbitrary: b ks K)
  case (Cons k keys)
  from Cons.IH [OF holds_AddKey [OF Cons.prems]] show ?case
    by (simp add: Un_commute insert_commute)
qed simp

lemma holds_Generate:
  assumes "holds b fs ks K" "length ks < 2 ^ 31"
  shows "\<exists>f. holds (GenerateFilter P b) (fs @ [f]) [] K"
proof -
  obtain f where "builds (GenerateFilter P b) (fs @ [f]) []" "\<forall>k \<in> set ks. KeyMayMatch P k f"
    using builds_Generate [OF _ assms(2)] assms(1) unfolding holds_def by blast
  then show ?thesis
    using assms(1) by (intro exI [of _ f]) (fastforce simp: holds_def nth_append)
qed

lemma holds_generate_to:
  "holds b fs ks K \<Longrightarrow> length ks < 2 ^ 31 \<Longrightarrow> length fs \<le> n \<Longrightarrow>
     \<exists>fs1 ks1. holds (generate_to P n b) fs1 ks1 K \<and> length fs1 = n \<and> length ks1 \<le> length ks"
proof (induction P' \<equiv> P n b arbitrary: fs ks rule: generate_to.induct)
  case (1 n b)
  have l: "length (fb_offsets b) = length fs" using "1.prems"(1) by (simp add: holds_def builds_def)
  show ?case
  proof (cases "length fs < n")
    case True
    obtain f where f: "holds (GenerateFilter P b) (fs @ [f]) [] K" using holds_Generate "1.prems" by blast
    show ?thesis
      using "1.hyps" [OF _ f] True l by (subst generate_to.simps) fastforce
  next
    case False
    then show ?thesis
      using "1.prems" l by (subst generate_to.simps) auto
  qed
qed

end

text \<open>The calls that \<open>TableBuilder\<close> makes: for each data block its offset and its keys.\<close>

definition build_filters :: "filter_policy \<Rightarrow> (u64 \<times> slice list) list \<Rightarrow> FilterBlockBuilder \<Rightarrow> FilterBlockBuilder" where
  "build_filters P = fold (\<lambda>(block_offset, keys) b. fold AddKey keys (StartBlock P block_offset b))"

definition all_keys :: "(u64 \<times> slice list) list \<Rightarrow> slice list" where
  "all_keys blocks = concat (map snd blocks)"

definition filter_index :: "u64 \<Rightarrow> nat" where
  "filter_index off = unat off div 2048"

lemma filter_index: "unat (off div kFilterBase) = filter_index off" "unat (drop_bit 11 off) = filter_index off"
  by (simp_all add: filter_index_def kFilterBase_def kFilterBaseLg_def unat_div_distrib unat_drop_bit_eq
      drop_bit_eq_div)

context no_false_negatives
begin

lemma holds_build:
  "holds b fs ks K \<Longrightarrow> sorted (length fs # map (filter_index \<circ> fst) blocks) \<Longrightarrow>
     length ks + length (all_keys blocks) < 2 ^ 31 \<Longrightarrow>
     \<exists>fs1 ks1. holds (build_filters P blocks b) fs1 ks1
       (K \<union> {(filter_index off, key) | off key keys. (off, keys) \<in> set blocks \<and> key \<in> set keys}) \<and>
       length ks1 \<le> length ks + length (all_keys blocks)"
proof (induction blocks arbitrary: b fs ks K)
  case Nil
  then show ?case by (intro exI [of _ fs] exI [of _ ks]) (simp add: build_filters_def)
next
  case (Cons block blocks)
  obtain off keys where bl: "block = (off, keys)" by (cases block)
  obtain fs1 ks1 where 1: "holds (StartBlock P off b) fs1 ks1 K" "length fs1 = filter_index off"
      "length ks1 \<le> length ks"
    using holds_generate_to [OF Cons.prems(1), of "filter_index off"] Cons.prems(2,3)
    by (auto simp: StartBlock_def Let_def filter_index bl)
  let ?K = "Pair (filter_index off) ` set keys \<union> K"
  have 2: "holds (fold AddKey keys (StartBlock P off b)) fs1 (ks1 @ keys) ?K"
    using holds_AddKeys [OF 1(1), of keys] 1(2) by simp
  have 3: "sorted (length fs1 # map (filter_index \<circ> fst) blocks)"
    using Cons.prems(2) 1(2) by (simp add: bl comp_def)
  have 4: "length (ks1 @ keys) + length (all_keys blocks) < 2 ^ 31"
    using Cons.prems(3) 1(3) by (simp add: all_keys_def bl)
  obtain fs2 ks2 where 5: "holds (build_filters P blocks (fold AddKey keys (StartBlock P off b))) fs2 ks2
       (?K \<union> {(filter_index off, key) | off key keys. (off, keys) \<in> set blocks \<and> key \<in> set keys})"
       "length ks2 \<le> length (ks1 @ keys) + length (all_keys blocks)"
    using Cons.IH [OF 2 3 4] by blast
  have e: "K \<union> {(filter_index off, key) | off key keys. (off, keys) \<in> set (block # blocks) \<and> key \<in> set keys} =
      ?K \<union> {(filter_index off, key) | off key keys. (off, keys) \<in> set blocks \<and> key \<in> set keys}"
    by (auto simp: bl)
  show ?case
    unfolding e using 5 1(3)
    by (intro exI [of _ fs2] exI [of _ ks2]) (simp add: build_filters_def bl all_keys_def)
qed

end

definition fixed32s :: "u32 list \<Rightarrow> u8 list" where
  "fixed32s ws = concat (map (EncodeFixed32 kLittleEndian) ws)"

lemma fixed32s_simps [simp]:
  "fixed32s [] = []" "fixed32s (w # ws) = EncodeFixed32 kLittleEndian w @ fixed32s ws"
  "fixed32s (ws @ vs) = fixed32s ws @ fixed32s vs"
  by (simp_all add: fixed32s_def)

lemma length_fixed32s [simp]: "length (fixed32s ws) = 4 * length ws"
  by (induction ws) simp_all

lemma fold_PutFixed32: "fold (\<lambda>off r. PutFixed32 r off) offs r = r @ fixed32s offs"
  by (induction offs arbitrary: r) (simp_all add: PutFixed32_def)

lemma DecodeFixed32_array:
  "i < length ws \<Longrightarrow> DecodeFixed32 le (drop (4 * i) (fixed32s ws @ r)) = ws ! i"
proof (induction ws arbitrary: i)
  case (Cons w ws)
  then show ?case by (cases i) simp_all
qed simp

text \<open>The layout of a filter block, and what the reader finds in it.\<close>

definition filter_block :: "u8 list list \<Rightarrow> u8 list" where
  "filter_block fs = concat fs @ fixed32s (map of_nat (starts fs @ [length (concat fs)])) @ [11]"

lemma Finish_builds:
  "builds b fs ks \<Longrightarrow> ks = [] \<Longrightarrow> fst (Finish_filter P b) = filter_block fs"
  by (simp add: builds_def Finish_filter_def Let_def fold_PutFixed32 filter_block_def kFilterBaseLg_def)
    (simp add: PutFixed32_def)

lemma reader_filter_block:
  assumes "length (concat fs) < 2 ^ 32"
  shows "new_FilterBlockReader (filter_block fs) =
    \<lparr>fr_data = filter_block fs, fr_offset = length (concat fs), fr_num = length fs, fr_base_lg = 11\<rparr>"
proof -
  let ?n = "length (filter_block fs)"
  have n: "?n = length (concat fs) + 4 * length fs + 5"
    by (simp add: filter_block_def)
  have l: "drop (?n - 5) (filter_block fs) = EncodeFixed32 kLittleEndian (of_nat (length (concat fs))) @ [11]"
    unfolding n by (simp add: filter_block_def)
  have b: "filter_block fs ! (?n - 1) = 11"
    unfolding n by (simp add: filter_block_def nth_append)
  have u: "unat (of_nat (length (concat fs)) :: u32) = length (concat fs)"
    using assms by (simp add: unat_of_nat)
  show ?thesis
    unfolding new_FilterBlockReader_def Let_def l b DecodeFixed32_Encode u using n by simp
qed

lemma read_filter_block:
  assumes "length (concat fs) < 2 ^ 32" "filter_index off < length fs"
  shows "filter_KeyMayMatch P (new_FilterBlockReader (filter_block fs)) off key =
    Done (KeyMayMatch P key (fs ! filter_index off))"
proof -
  let ?i = "filter_index off" and ?ws = "map of_nat (starts fs @ [length (concat fs)]) :: u32 list"
  have d: "drop (length (concat fs) + j) (filter_block fs) =
      drop j (fixed32s ?ws @ [11])" for j
    by (simp add: filter_block_def)
  have le: "length (concat (take j fs)) \<le> length (concat fs)" for j
    by (metis append_take_drop_id concat_append length_append le_add1)
  have u: "unat (of_nat (length (concat (take j fs))) :: u32) = length (concat (take j fs))" for j
    using le [of j] assms(1) by (simp add: unat_of_nat)
  have s: "DecodeFixed32 kLittleEndian (drop (length (concat fs) + ?i * 4) (filter_block fs)) =
      of_nat (length (concat (take ?i fs)))"
    unfolding d using DecodeFixed32_array [of ?i ?ws] assms(2) by (simp add: mult.commute nth_append starts_nth)
  have "DecodeFixed32 kLittleEndian (drop (length (concat fs) + ?i * 4 + 4) (filter_block fs)) = ?ws ! Suc ?i"
    unfolding add.assoc d using DecodeFixed32_array [of "Suc ?i" ?ws] assms(2)
    by (simp add: ac_simps del: map_append)
  also have "\<dots> = of_nat (length (concat (take (Suc ?i) fs)))"
    using starts_end [OF assms(2)] assms(2) by (simp del: map_append take_Suc)
  finally have l: "DecodeFixed32 kLittleEndian (drop (length (concat fs) + ?i * 4 + 4) (filter_block fs)) =
      of_nat (length (concat (take (Suc ?i) fs)))" .
  have "take (length (concat (take (Suc ?i) fs)) - length (concat (take ?i fs)))
      (drop (length (concat (take ?i fs))) (filter_block fs)) = fs ! ?i"
    using concat_piece [OF assms(2)] le [of "Suc ?i"]
    by (simp add: filter_block_def del: take_Suc)
  moreover have "length (concat (take ?i fs)) \<le> length (concat (take (Suc ?i) fs))"
    using assms(2) by (simp add: take_Suc_conv_app_nth)
  moreover have b: "unat (11 :: u64) = 11" "\<not> 64 \<le> (11 :: u64)" by simp_all
  ultimately show ?thesis
    unfolding filter_KeyMayMatch_def reader_filter_block [OF assms(1)] FilterBlockReader.select_convs Let_def
      b(1) filter_index(2) s l u if_not_P [OF b(2)] if_P [OF assms(2)]
    using le [of "Suc ?i"] by simp
qed

context no_false_negatives
begin

lemma filter_block_match:
  assumes "sorted (map (filter_index \<circ> fst) blocks)" "length (all_keys blocks) < 2 ^ 31"
    and "fst (Finish_filter P (build_filters P blocks new_FilterBlockBuilder)) = contents" "length contents < 2 ^ 32"
    and "(off, keys) \<in> set blocks" "key \<in> set keys"
  shows "filter_KeyMayMatch P (new_FilterBlockReader contents) off key = Done True"
proof -
  have h0: "holds new_FilterBlockBuilder [] [] {}" by (simp add: holds_def builds_new)
  let ?b = "build_filters P blocks new_FilterBlockBuilder"
  let ?K = "{(filter_index off, key) | off key keys. (off, keys) \<in> set blocks \<and> key \<in> set keys}"
  obtain fs ks where 1: "holds ?b fs ks ?K" "length ks \<le> length (all_keys blocks)"
    using holds_build [OF h0, of blocks] assms(1,2) by auto
  have "\<exists>fs1. holds (if fb_start ?b \<noteq> [] then GenerateFilter P ?b else ?b) fs1 [] ?K"
  proof (cases "ks = []")
    case True
    then show ?thesis using 1(1) by (auto simp: holds_def builds_def starts_def)
  next
    case False
    then have "fb_start ?b \<noteq> []" using 1(1) by (simp add: holds_def builds_def)
    then show ?thesis using holds_Generate [OF 1(1)] 1(2) assms(2) by auto
  qed
  then obtain fs1 where 2: "holds (if fb_start ?b \<noteq> [] then GenerateFilter P ?b else ?b) fs1 [] ?K" by blast
  have "Finish_filter P ?b = Finish_filter P (if fb_start ?b \<noteq> [] then GenerateFilter P ?b else ?b)"
    using 2 by (simp add: Finish_filter_def holds_def builds_def starts_def [of "[]"])
  then have c: "contents = filter_block fs1"
    using Finish_builds 2 assms(3) by (auto simp: holds_def)
  have "(filter_index off, key) \<in> ?K" using assms(5,6) by blast
  then have m: "filter_index off < length fs1" "KeyMayMatch P key (fs1 ! filter_index off)"
    using 2 by (auto simp: holds_def)
  have "length (concat fs1) < 2 ^ 32" using assms(4) by (simp add: c filter_block_def)
  from read_filter_block [OF this m(1)] m(2) show ?thesis by (simp add: c)
qed

end

end
