(* ===== verification/Ldb_Filename.thy ===== *)
theory Ldb_Filename
  imports Ldb_Status
begin

text \<open>
  Text formats of LevelDB: decimal numbers and escaped strings (\<open>util/logging.cc\<close>) and the
  names of the files of a database (\<open>db/filename.h\<close>, \<open>db/filename.cc\<close>), which are generated
  when files are created and parsed when a database is opened.
\<close>

subsection \<open>Numbers and strings\<close>

definition AppendNumberTo :: "u8 list \<Rightarrow> u64 \<Rightarrow> u8 list" where
  "AppendNumberTo dst num = dst @ decimal (unat num)"

definition NumberToString :: "u64 \<Rightarrow> u8 list" where
  "NumberToString num = AppendNumberTo [] num"

definition hex_digit :: "nat \<Rightarrow> u8" where
  "hex_digit n = (if n < 10 then of_nat (48 + n) else of_nat (87 + n))"

definition escape_char :: "u8 \<Rightarrow> u8 list" where
  "escape_char c =
     (if of_char (CHR '' '') \<le> c \<and> c \<le> of_char (CHR ''~'') then [c]
      else [0x5C, of_char (CHR ''x''), hex_digit (unat c div 16), hex_digit (unat c mod 16)])"

definition AppendEscapedStringTo :: "u8 list \<Rightarrow> slice \<Rightarrow> u8 list" where
  "AppendEscapedStringTo dst value = dst @ concat (map escape_char value)"

definition EscapeString :: "slice \<Rightarrow> u8 list" where
  "EscapeString value = AppendEscapedStringTo [] value"

definition is_digit :: "u8 \<Rightarrow> bool" where
  "is_digit c \<longleftrightarrow> of_char (CHR ''0'') \<le> c \<and> c \<le> of_char (CHR ''9'')"

text \<open>The loop: \<open>None\<close> on overflow, and the rest of the input. The number of digits is only compared with
  0; as an \<open>int\<close> it would overflow after \<open>2 ^ 31\<close> (leading) digits.\<close>

fun consume_digits :: "u64 \<Rightarrow> nat \<Rightarrow> slice \<Rightarrow> (u64 \<times> nat) option \<times> slice" where
  "consume_digits v digits [] = (Some (v, digits), [])"
| "consume_digits v digits (c # inp) =
     (if is_digit c then
        let delta = ucast (c - of_char (CHR ''0'')) in
        if (-1) div 10 < v \<or> v = (-1) div 10 \<and> (-1) mod 10 < delta then (None, c # inp)
        else consume_digits (v * 10 + delta) (digits + 1) inp
      else (Some (v, digits), c # inp))"

text \<open>The result, the value stored in \<open>*val\<close> (if any) and the rest of the input.\<close>

definition ConsumeDecimalNumber :: "slice \<Rightarrow> bool \<times> u64 option \<times> slice" where
  "ConsumeDecimalNumber inp =
     (case consume_digits 0 0 inp of
        (None, rest) \<Rightarrow> (False, None, rest)
      | (Some (v, digits), rest) \<Rightarrow> (0 < digits, Some v, rest))"

subsection \<open>File names\<close>

datatype FileType = kLogFile | kDBLockFile | kTableFile | kDescriptorFile | kCurrentFile | kTempFile | kInfoLogFile

text \<open>The format \<open>%06llu\<close>.\<close>

definition decimal6 :: "u64 \<Rightarrow> u8 list" where
  "decimal6 number = (let ds = decimal (unat number) in replicate (6 - length ds) (of_char (CHR ''0'')) @ ds)"

definition MakeFileName :: "u8 list \<Rightarrow> u64 \<Rightarrow> string \<Rightarrow> u8 list" where
  "MakeFileName name number suffix = name @ str ''/'' @ decimal6 number @ str ''.'' @ str suffix"

definition LogFileName :: "u8 list \<Rightarrow> u64 \<Rightarrow> u8 list" where
  "LogFileName name number = MakeFileName name number ''log''"

definition TableFileName :: "u8 list \<Rightarrow> u64 \<Rightarrow> u8 list" where
  "TableFileName name number = MakeFileName name number ''ldb''"

definition SSTTableFileName :: "u8 list \<Rightarrow> u64 \<Rightarrow> u8 list" where
  "SSTTableFileName name number = MakeFileName name number ''sst''"

definition DescriptorFileName :: "u8 list \<Rightarrow> u64 \<Rightarrow> u8 list" where
  "DescriptorFileName dbname number = dbname @ str ''/MANIFEST-'' @ decimal6 number"

definition CurrentFileName :: "u8 list \<Rightarrow> u8 list" where "CurrentFileName dbname = dbname @ str ''/CURRENT''"
definition LockFileName :: "u8 list \<Rightarrow> u8 list" where "LockFileName dbname = dbname @ str ''/LOCK''"

definition TempFileName :: "u8 list \<Rightarrow> u64 \<Rightarrow> u8 list" where
  "TempFileName dbname number = MakeFileName dbname number ''dbtmp''"

definition InfoLogFileName :: "u8 list \<Rightarrow> u8 list" where "InfoLogFileName dbname = dbname @ str ''/LOG''"
definition OldInfoLogFileName :: "u8 list \<Rightarrow> u8 list" where "OldInfoLogFileName dbname = dbname @ str ''/LOG.old''"

definition starts_with :: "slice \<Rightarrow> slice \<Rightarrow> bool" where
  "starts_with s x \<longleftrightarrow> length x \<le> length s \<and> take (length x) s = x"

definition ParseFileName :: "u8 list \<Rightarrow> (u64 \<times> FileType) option" where
  "ParseFileName fname =
     (if fname = str ''CURRENT'' then Some (0, kCurrentFile)
      else if fname = str ''LOCK'' then Some (0, kDBLockFile)
      else if fname = str ''LOG'' \<or> fname = str ''LOG.old'' then Some (0, kInfoLogFile)
      else if starts_with fname (str ''MANIFEST-'') then
        (case ConsumeDecimalNumber (drop (length (str ''MANIFEST-'')) fname) of
           (True, Some num, rest) \<Rightarrow> if rest \<noteq> [] then None else Some (num, kDescriptorFile)
         | _ \<Rightarrow> None)
      else
        (case ConsumeDecimalNumber fname of
           (True, Some num, suffix) \<Rightarrow>
             if suffix = str ''.log'' then Some (num, kLogFile)
             else if suffix = str ''.sst'' \<or> suffix = str ''.ldb'' then Some (num, kTableFile)
             else if suffix = str ''.dbtmp'' then Some (num, kTempFile)
             else None
         | _ \<Rightarrow> None))"

subsection \<open>Numbers are read back, and overflow is detected\<close>

definition digits_value :: "u8 list \<Rightarrow> nat \<Rightarrow> nat" where
  "digits_value ds v = foldl (\<lambda>v c. 10 * v + (unat c - 48)) v ds"

lemma digits_value_simps [simp]:
  "digits_value [] v = v" "digits_value (c # ds) v = digits_value ds (10 * v + (unat c - 48))"
  "digits_value (ds @ es) v = digits_value es (digits_value ds v)"
  by (simp_all add: digits_value_def)

lemma is_digit_iff: "is_digit c \<longleftrightarrow> 48 \<le> unat c \<and> unat c \<le> 57"
  by (simp add: is_digit_def word_le_nat_alt)

lemma digit_of_nat: "n < 10 \<Longrightarrow> is_digit (of_nat (48 + n)) \<and> unat (of_nat (48 + n) :: u8) - 48 = n"
  by (simp add: is_digit_iff unat_u8_of_nat del: of_nat_add)

lemma decimal_digits: "list_all is_digit (decimal n) \<and> decimal n \<noteq> [] \<and> digits_value (decimal n) 0 = n"
proof (induction n rule: decimal.induct)
  case (1 n)
  show ?case
  proof (cases "n < 10")
    case True
    then show ?thesis using digit_of_nat [OF True] by (subst (1 2 3) decimal.simps) (simp del: of_nat_add)
  next
    case False
    have d: "decimal n = decimal (n div 10) @ [of_nat (48 + n mod 10)]"
      using False by (subst decimal.simps) simp
    show ?thesis
      using 1 [OF False] digit_of_nat [of "n mod 10"] unfolding d by (simp del: of_nat_add)
  qed
qed

lemma decimal6_digits:
  "list_all is_digit (decimal6 n) \<and> decimal6 n \<noteq> [] \<and> digits_value (decimal6 n) 0 = unat n"
proof -
  have z: "digits_value (replicate k 48) 0 = 0" for k by (induction k) simp_all
  show ?thesis
    using decimal_digits [of "unat n"]
    by (auto simp: decimal6_def Let_def list_all_iff is_digit_iff z)
qed

lemma digits_value_mono: "v \<le> digits_value ds v"
proof (induction ds arbitrary: v)
  case (Cons c ds)
  have "v \<le> 10 * v + (unat c - 48)" by simp
  also have "\<dots> \<le> digits_value ds (10 * v + (unat c - 48))" by (rule Cons.IH)
  finally show ?case by simp
qed simp

lemma overflow_test:
  assumes "is_digit c"
  shows "((-1) div 10 < (v :: u64) \<or> v = (-1) div 10 \<and> (-1) mod 10 < (ucast (c - 48) :: u64)) \<longleftrightarrow>
      2 ^ 64 \<le> 10 * unat v + (unat c - 48)"
    and "10 * unat v + (unat c - 48) < 2 ^ 64 \<Longrightarrow>
      unat (v * 10 + (ucast (c - 48) :: u64)) = 10 * unat v + (unat c - 48)"
proof -
  have c: "unat c - 48 \<le> 9" "48 \<le> unat c" using assms unfolding is_digit_iff by linarith+
  have d: "unat (ucast (c - 48) :: u64) = unat c - 48"
    using c(2) take_bit_nat_eq_self [of "unat c - 48" 64] c(1)
    by (simp add: unsigned_ucast_eq unat_sub word_le_nat_alt)
  have m: "(-1 :: u64) div 10 = 1844674407370955161" "(-1 :: u64) mod 10 = 5" by simp_all
  show "((-1) div 10 < (v :: u64) \<or> v = (-1) div 10 \<and> (-1) mod 10 < (ucast (c - 48) :: u64)) \<longleftrightarrow>
      2 ^ 64 \<le> 10 * unat v + (unat c - 48)"
    unfolding m word_less_nat_alt word_unat_eq_iff d using c(1) by auto
  show "10 * unat v + (unat c - 48) < 2 ^ 64 \<Longrightarrow>
      unat (v * 10 + (ucast (c - 48) :: u64)) = 10 * unat v + (unat c - 48)"
    by (simp add: unat_word_ariths d mult.commute)
qed

lemma consume_digits_spec:
  assumes "list_all is_digit ds" "rest \<noteq> [] \<Longrightarrow> \<not> is_digit (hd rest)"
  shows "if digits_value ds (unat v) < 2 ^ 64
    then consume_digits v n (ds @ rest) = (Some (of_nat (digits_value ds (unat v)), n + length ds), rest)
    else fst (consume_digits v n (ds @ rest)) = None"
  using assms(1)
proof (induction ds arbitrary: v n)
  case Nil
  then show ?case using assms(2) unsigned_less [of v, where ?'a = nat] by (cases rest) simp_all
next
  case (Cons c ds)
  then have c: "is_digit c" "list_all is_digit ds" by simp_all
  have o: "of_char CHR ''0'' = (48 :: u8)" by simp
  show ?case
  proof (cases "2 ^ 64 \<le> 10 * unat v + (unat c - 48)")
    case True
    then have "\<not> digits_value (c # ds) (unat v) < 2 ^ 64"
      using digits_value_mono [of "10 * unat v + (unat c - 48)" ds] by simp
    then show ?thesis using True c(1) overflow_test(1) [OF c(1), of v] by (simp only: append_Cons consume_digits.simps o Let_def if_True if_False simp_thms fst_conv)
  next
    case False
    then have "unat (v * 10 + (ucast (c - 48) :: u64)) = 10 * unat v + (unat c - 48)"
      using overflow_test(2) [OF c(1)] by simp
    with False show ?thesis
      using Cons.IH [OF c(2), of "v * 10 + ucast (c - 48)" "n + 1"] overflow_test(1) [OF c(1), of v] c(1)
      by (simp only: append_Cons consume_digits.simps o Let_def if_True if_False simp_thms digits_value_simps)
        (auto split: if_splits)
  qed
qed

lemma Consume_digits:
  assumes "list_all is_digit ds" "ds \<noteq> []" "rest \<noteq> [] \<Longrightarrow> \<not> is_digit (hd rest)"
  shows "if digits_value ds 0 < 2 ^ 64
    then ConsumeDecimalNumber (ds @ rest) = (True, Some (of_nat (digits_value ds 0)), rest)
    else \<exists>r. ConsumeDecimalNumber (ds @ rest) = (False, None, r)"
  using consume_digits_spec [OF assms(1,3), of 0 0] assms(2)
  by (cases "consume_digits 0 0 (ds @ rest)") (auto simp: ConsumeDecimalNumber_def split: if_splits)

lemma split_digits: "\<exists>ds rest. inp = ds @ rest \<and> list_all is_digit ds \<and> (rest \<noteq> [] \<longrightarrow> \<not> is_digit (hd rest))"
proof (intro exI conjI)
  show "inp = takeWhile is_digit inp @ dropWhile is_digit inp" by simp
  show "list_all is_digit (takeWhile is_digit inp)" by (auto simp: list_all_iff dest: set_takeWhileD)
  show "dropWhile is_digit inp \<noteq> [] \<longrightarrow> \<not> is_digit (hd (dropWhile is_digit inp))" using hd_dropWhile by blast
qed

lemma Consume_True:
  assumes "ConsumeDecimalNumber inp = (True, Some n, rest)"
  shows "\<exists>ds. inp = ds @ rest \<and> ds \<noteq> [] \<and> list_all is_digit ds \<and> digits_value ds 0 = unat n"
proof -
  obtain ds r where s: "inp = ds @ r" "list_all is_digit ds" "r \<noteq> [] \<longrightarrow> \<not> is_digit (hd r)"
    using split_digits by blast
  show ?thesis
  proof (cases "ds = []")
    case True
    then have "consume_digits 0 0 inp = (Some (0, 0), r)" using s(1,3) by (cases r) auto
    then show ?thesis using assms by (simp add: ConsumeDecimalNumber_def)
  next
    case False
    note c = Consume_digits [OF s(2) this, of r]
    have "digits_value ds 0 < 2 ^ 64"
      using c s(1,3) assms by (cases "digits_value ds 0 < 2 ^ 64") auto
    then have "Some n = Some (of_nat (digits_value ds 0))" "rest = r" "unat n = digits_value ds 0"
      using c s(1,3) assms by (auto simp: unat_of_nat)
    then show ?thesis using s False by auto
  qed
qed

lemma Consume_number:
  "rest \<noteq> [] \<Longrightarrow> \<not> is_digit (hd rest) \<Longrightarrow> ConsumeDecimalNumber (decimal6 n @ rest) = (True, Some n, rest)"
  "ConsumeDecimalNumber (decimal6 n) = (True, Some n, [])"
  using Consume_digits [of "decimal6 n" rest] Consume_digits [of "decimal6 n" "[]"] decimal6_digits [of n]
    unsigned_less [of n, where ?'a = nat] by simp_all

subsection \<open>File names are parsed back\<close>

lemma decimal6_hd: "\<exists>c ds. decimal6 n = c # ds \<and> 48 \<le> unat c \<and> unat c \<le> 57"
  using decimal6_digits [of n] by (cases "decimal6 n") (auto simp: is_digit_iff)

lemma not_keyword:
  "decimal6 n @ rest \<noteq> str ''CURRENT''" "decimal6 n @ rest \<noteq> str ''LOCK''" "decimal6 n @ rest \<noteq> str ''LOG''"
  "decimal6 n @ rest \<noteq> str ''LOG.old''" "\<not> starts_with (decimal6 n @ rest) (str ''MANIFEST-'')"
  using decimal6_hd [of n] by (auto simp: starts_with_def)

lemma ParseFileName_number:
  "rest \<noteq> [] \<Longrightarrow> \<not> is_digit (hd rest) \<Longrightarrow> ParseFileName (decimal6 n @ rest) =
     (if rest = str ''.log'' then Some (n, kLogFile)
      else if rest = str ''.sst'' \<or> rest = str ''.ldb'' then Some (n, kTableFile)
      else if rest = str ''.dbtmp'' then Some (n, kTempFile) else None)"
  unfolding ParseFileName_def Consume_number(1) using not_keyword [of n rest] by simp

lemma ParseFileName_Make:
  "ParseFileName (drop (length name + 1) (MakeFileName name n ''log'')) = Some (n, kLogFile)"
  "ParseFileName (drop (length name + 1) (MakeFileName name n ''sst'')) = Some (n, kTableFile)"
  "ParseFileName (drop (length name + 1) (MakeFileName name n ''ldb'')) = Some (n, kTableFile)"
  "ParseFileName (drop (length name + 1) (MakeFileName name n ''dbtmp'')) = Some (n, kTempFile)"
  by (simp_all add: MakeFileName_def ParseFileName_number is_digit_def)

lemma ParseFileName_Descriptor:
  "ParseFileName (drop (length name + 1) (DescriptorFileName name n)) = Some (n, kDescriptorFile)"
  by (simp add: DescriptorFileName_def ParseFileName_def starts_with_def Consume_number(2))

lemma ParseFileName_number_file:
  assumes "ParseFileName fname = Some (n, t)" "t \<in> {kLogFile, kTableFile, kTempFile}"
  shows "\<exists>ds suffix. fname = ds @ suffix \<and> ds \<noteq> [] \<and> list_all is_digit ds \<and> digits_value ds 0 = unat n \<and>
    (t = kLogFile \<and> suffix = str ''.log'' \<or> t = kTableFile \<and> suffix \<in> {str ''.sst'', str ''.ldb''} \<or>
     t = kTempFile \<and> suffix = str ''.dbtmp'')"
proof -
  have "\<exists>suffix. ConsumeDecimalNumber fname = (True, Some n, suffix) \<and>
    (t = kLogFile \<and> suffix = str ''.log'' \<or> t = kTableFile \<and> suffix \<in> {str ''.sst'', str ''.ldb''} \<or>
     t = kTempFile \<and> suffix = str ''.dbtmp'')"
    using assms unfolding ParseFileName_def
    by (auto split: if_splits prod.splits bool.splits option.splits)
  then show ?thesis using Consume_True by blast
qed

end
