(* ===== verification/Ldb_Dbformat.thy ===== *)
theory Ldb_Dbformat
  imports Ldb_Filter Ldb_Filename
begin

text \<open>
  The order of keys: byte strings (\<open>include/leveldb/slice.h\<close>), the default comparator
  (\<open>util/comparator.cc\<close>) and the internal keys of a database, a user key followed by a sequence
  number and a type (\<open>db/dbformat.h\<close>, \<open>db/dbformat.cc\<close>). The contract of a comparator is a
  locale; the internal comparator keeps it for every user comparator that keeps it.
\<close>

subsection \<open>The interface of a comparator\<close>

record comparator =
  comparator_name :: slice
  Compare :: "slice \<Rightarrow> slice \<Rightarrow> int"
  FindShortestSeparator :: "u8 list \<Rightarrow> slice \<Rightarrow> u8 list"
  FindShortSuccessor :: "u8 list \<Rightarrow> u8 list"

locale key_order =
  fixes C :: comparator
    and valid :: "slice \<Rightarrow> bool"
  assumes compare_swap: "valid a \<Longrightarrow> valid b \<Longrightarrow> Compare C a b < 0 \<longleftrightarrow> 0 < Compare C b a"
    and compare_trans: "valid a \<Longrightarrow> valid b \<Longrightarrow> valid c \<Longrightarrow>
      Compare C a b \<le> 0 \<Longrightarrow> Compare C b c \<le> 0 \<Longrightarrow> Compare C a c \<le> 0"
    and separator: "valid a \<Longrightarrow> valid b \<Longrightarrow> Compare C a b < 0 \<Longrightarrow>
      valid (FindShortestSeparator C a b) \<and> Compare C a (FindShortestSeparator C a b) \<le> 0 \<and>
      Compare C (FindShortestSeparator C a b) b < 0"
    and separator_equal: "valid a \<Longrightarrow> valid b \<Longrightarrow> Compare C a b = 0 \<Longrightarrow> FindShortestSeparator C a b = a"
    and successor: "valid a \<Longrightarrow> valid (FindShortSuccessor C a) \<and> Compare C a (FindShortSuccessor C a) \<le> 0"
begin

lemma compare_refl: "valid a \<Longrightarrow> Compare C a a = 0"
  using compare_swap [of a a] by linarith

lemma compare_le_total: "valid a \<Longrightarrow> valid b \<Longrightarrow> Compare C a b \<le> 0 \<or> Compare C b a \<le> 0"
  using compare_swap [of a b] by linarith

lemma compare_less_trans:
  assumes "valid a" "valid b" "valid c"
  shows "Compare C a b < 0 \<Longrightarrow> Compare C b c \<le> 0 \<Longrightarrow> Compare C a c < 0"
    and "Compare C a b \<le> 0 \<Longrightarrow> Compare C b c < 0 \<Longrightarrow> Compare C a c < 0"
proof -
  show "Compare C a c < 0" if "Compare C a b < 0" "Compare C b c \<le> 0"
  proof (rule ccontr)
    assume "\<not> Compare C a c < 0"
    then have "Compare C c a \<le> 0" using compare_swap [OF assms(1,3)] by linarith
    from compare_trans [OF assms(2,3,1) that(2) this] show False
      using that(1) compare_swap [OF assms(1,2)] by linarith
  qed
  show "Compare C a c < 0" if "Compare C a b \<le> 0" "Compare C b c < 0"
  proof (rule ccontr)
    assume "\<not> Compare C a c < 0"
    then have "Compare C c a \<le> 0" using compare_swap [OF assms(1,3)] by linarith
    from compare_trans [OF assms(3,1,2) this that(1)] show False
      using that(2) compare_swap [OF assms(2,3)] by linarith
  qed
qed

end

subsection \<open>Byte strings\<close>

text \<open>\<open>memcmp\<close> is the difference of the first bytes that differ.\<close>

fun memcmp :: "u8 list \<Rightarrow> u8 list \<Rightarrow> int" where
  "memcmp (a # as) (b # bs) = (if a = b then memcmp as bs else uint a - uint b)"
| "memcmp _ _ = 0"

definition Slice_compare :: "slice \<Rightarrow> slice \<Rightarrow> int" where
  "Slice_compare a b =
     (let min_len = (if length a < length b then length a else length b);
          r = memcmp (take min_len a) (take min_len b)
      in if r = 0 then if length a < length b then -1 else if length b < length a then 1 else r else r)"

fun common_prefix :: "slice \<Rightarrow> slice \<Rightarrow> nat" where
  "common_prefix (a # as) (b # bs) = (if a = b then Suc (common_prefix as bs) else 0)"
| "common_prefix _ _ = 0"

definition Bytewise_FindShortestSeparator :: "u8 list \<Rightarrow> slice \<Rightarrow> u8 list" where
  "Bytewise_FindShortestSeparator start limit =
     (let min_length = min (length start) (length limit);
          diff_index = common_prefix start limit
      in if min_length \<le> diff_index then start
         else
           let diff_byte = start ! diff_index
           in if diff_byte < 0xff \<and> uint diff_byte + 1 < uint (limit ! diff_index)
              then take (diff_index + 1) (start[diff_index := diff_byte + 1])
              else start)"

text \<open>The loop over the bytes of the key: the bytes before the first that can be incremented stay.\<close>

fun Bytewise_FindShortSuccessor :: "u8 list \<Rightarrow> u8 list" where
  "Bytewise_FindShortSuccessor [] = []"
| "Bytewise_FindShortSuccessor (b # key) =
     (if b \<noteq> 0xff then [b + 1] else b # Bytewise_FindShortSuccessor key)"

definition BytewiseComparator :: comparator where
  "BytewiseComparator =
     \<lparr>comparator_name = str ''leveldb.BytewiseComparator'',
      Compare = Slice_compare, FindShortestSeparator = Bytewise_FindShortestSeparator,
      FindShortSuccessor = Bytewise_FindShortSuccessor\<rparr>"

subsection \<open>The byte order is lexicographic\<close>

lemma uint_eq_iff [simp]: "uint a = uint b \<longleftrightarrow> a = b" for a b :: u8
  by (simp add: word_uint_eq_iff)

lemma Slice_compare_simps [simp]:
  "Slice_compare [] [] = 0" "Slice_compare [] (b # bs) = -1" "Slice_compare (a # as) [] = 1"
  "Slice_compare (a # as) (b # bs) = (if a = b then Slice_compare as bs else uint a - uint b)"
  by (auto simp: Slice_compare_def Let_def)

lemma Slice_compare_0: "Slice_compare a b = 0 \<longleftrightarrow> a = b"
proof (induction a arbitrary: b)
  case Nil
  then show ?case by (cases b) simp_all
next
  case (Cons x a)
  then show ?case by (cases b) auto
qed

lemma Slice_compare_swap: "Slice_compare a b < 0 \<longleftrightarrow> 0 < Slice_compare b a"
proof (induction a arbitrary: b)
  case Nil
  then show ?case by (cases b) simp_all
next
  case (Cons x a)
  then show ?case by (cases b) auto
qed

lemma Slice_compare_trans: "Slice_compare a b \<le> 0 \<Longrightarrow> Slice_compare b c \<le> 0 \<Longrightarrow> Slice_compare a c \<le> 0"
proof (induction a arbitrary: b c)
  case Nil
  then show ?case by (cases c) simp_all
next
  case (Cons x a)
  then obtain y b1 z c1 where bc: "b = y # b1" "c = z # c1" by (cases b; cases c) auto
  then show ?case using Cons by (auto split: if_splits)
qed

lemma common_prefix_le: "common_prefix a b \<le> length a" "common_prefix a b \<le> length b"
  by (induction a b rule: common_prefix.induct) auto

lemma common_prefix_take: "take (common_prefix a b) a = take (common_prefix a b) b"
  by (induction a b rule: common_prefix.induct) auto

lemma common_prefix_refl [simp]: "common_prefix a a = length a"
  by (induction a) simp_all

lemma Bytewise_separator_Cons:
  "Bytewise_FindShortestSeparator (x # a) (x # b) = x # Bytewise_FindShortestSeparator a b"
  by (simp add: Bytewise_FindShortestSeparator_def Let_def)

lemma u8_suc: "(x :: u8) < 0xff \<Longrightarrow> uint (x + 1) = uint x + 1"
  by (simp add: word_less_def uint_word_ariths)

lemma Bytewise_separator:
  "Slice_compare a b < 0 \<Longrightarrow> Slice_compare a (Bytewise_FindShortestSeparator a b) \<le> 0 \<and>
     Slice_compare (Bytewise_FindShortestSeparator a b) b < 0"
proof (induction a arbitrary: b)
  case Nil
  then show ?case by (cases b) (simp_all add: Bytewise_FindShortestSeparator_def)
next
  case (Cons x a)
  then obtain y b1 where b: "b = y # b1" by (cases b) auto
  show ?case
  proof (cases "x = y")
    case True
    then show ?thesis using Cons by (simp add: b Bytewise_separator_Cons)
  next
    case False
    then have xy: "uint x < uint y" using Cons.prems by (simp add: b)
    show ?thesis
    proof (cases "x < 0xff \<and> uint x + 1 < uint y")
      case True
      then have s: "Bytewise_FindShortestSeparator (x # a) b = [x + 1]"
        using False by (simp add: b Bytewise_FindShortestSeparator_def)
      show ?thesis using True u8_suc [of x] False unfolding s by (auto simp: b)
    next
      case F: False
      then have s: "Bytewise_FindShortestSeparator (x # a) b = x # a"
        using False by (auto simp: b Bytewise_FindShortestSeparator_def)
      show ?thesis using Cons.prems Slice_compare_0 [of "x # a" "x # a"] unfolding s by simp
    qed
  qed
qed

lemma Bytewise_successor: "Slice_compare a (Bytewise_FindShortSuccessor a) \<le> 0"
proof (induction a)
  case (Cons x a)
  show ?case
  proof (cases "x = 0xff")
    case False
    have "unat x < 256" using unsigned_less [of x, where ?'a = nat] by simp
    then have "x < 0xff" using False by (simp add: order_less_le word_le_nat_alt)
    then show ?thesis using False u8_suc [of x] by simp
  qed (use Cons in simp)
qed simp

interpretation bytewise: key_order BytewiseComparator "\<lambda>_. True"
proof unfold_locales
  fix a b c
  show "Compare BytewiseComparator a b < 0 \<longleftrightarrow> 0 < Compare BytewiseComparator b a"
    by (simp add: BytewiseComparator_def Slice_compare_swap)
  show "Compare BytewiseComparator a b \<le> 0 \<Longrightarrow> Compare BytewiseComparator b c \<le> 0 \<Longrightarrow>
      Compare BytewiseComparator a c \<le> 0"
    using Slice_compare_trans by (simp add: BytewiseComparator_def)
  show "Compare BytewiseComparator a b < 0 \<Longrightarrow> True \<and>
      Compare BytewiseComparator a (FindShortestSeparator BytewiseComparator a b) \<le> 0 \<and>
      Compare BytewiseComparator (FindShortestSeparator BytewiseComparator a b) b < 0"
    using Bytewise_separator by (simp add: BytewiseComparator_def)
  show "Compare BytewiseComparator a b = 0 \<Longrightarrow> FindShortestSeparator BytewiseComparator a b = a"
    using common_prefix_refl by (simp add: BytewiseComparator_def Slice_compare_0 Bytewise_FindShortestSeparator_def)
  show "True \<and> Compare BytewiseComparator a (FindShortSuccessor BytewiseComparator a) \<le> 0"
    using Bytewise_successor by (simp add: BytewiseComparator_def)
qed

subsection \<open>Internal keys\<close>

definition kTypeDeletion :: u8 where "kTypeDeletion = 0"
definition kTypeValue :: u8 where "kTypeValue = 1"
definition kValueTypeForSeek :: u8 where "kValueTypeForSeek = kTypeValue"
definition kMaxSequenceNumber :: u64 where "kMaxSequenceNumber = push_bit 56 1 - 1"

record parsed_key =
  user_key :: slice
  sequence :: u64
  ktype :: u8

definition PackSequenceAndType :: "u64 \<Rightarrow> u8 \<Rightarrow> u64" where
  "PackSequenceAndType s t = push_bit 8 s OR ucast t"

definition InternalKeyEncodingLength :: "parsed_key \<Rightarrow> nat" where
  "InternalKeyEncodingLength key = length (user_key key) + 8"

definition AppendInternalKey :: "u8 list \<Rightarrow> parsed_key \<Rightarrow> u8 list" where
  "AppendInternalKey dst key =
     PutFixed64 (dst @ user_key key) (PackSequenceAndType (sequence key) (ktype key))"

text \<open>\<open>None\<close>: the function returns false (and leaves the result undefined).\<close>

definition ParseInternalKey :: "slice \<Rightarrow> parsed_key option" where
  "ParseInternalKey internal_key =
     (let n = length internal_key in
      if n < 8 then None
      else
        let num = DecodeFixed64 kLittleEndian (drop (n - 8) internal_key); c = ucast (num AND 0xff)
        in if c \<le> kTypeValue
           then Some \<lparr>user_key = take (n - 8) internal_key, sequence = drop_bit 8 num, ktype = c\<rparr>
           else None)"

definition ExtractUserKey :: "slice \<Rightarrow> slice" where
  "ExtractUserKey internal_key = take (length internal_key - 8) internal_key"

definition ExtractValueType :: "slice \<Rightarrow> u8" where
  "ExtractValueType internal_key =
     ucast (DecodeFixed64 kLittleEndian (drop (length internal_key - 8) internal_key) AND 0xff)"

definition internal_num :: "slice \<Rightarrow> u64" where
  "internal_num key = DecodeFixed64 kLittleEndian (drop (length key - 8) key)"

definition Internal_Compare :: "comparator \<Rightarrow> slice \<Rightarrow> slice \<Rightarrow> int" where
  "Internal_Compare U akey bkey =
     (let r = Compare U (ExtractUserKey akey) (ExtractUserKey bkey)
      in if r = 0 then
           let anum = internal_num akey; bnum = internal_num bkey
           in if bnum < anum then -1 else if anum < bnum then 1 else r
         else r)"

definition Internal_FindShortestSeparator :: "comparator \<Rightarrow> u8 list \<Rightarrow> slice \<Rightarrow> u8 list" where
  "Internal_FindShortestSeparator U start limit =
     (let user_start = ExtractUserKey start;
          user_limit = ExtractUserKey limit;
          tmp = FindShortestSeparator U user_start user_limit
      in if length tmp < length user_start \<and> Compare U user_start tmp < 0
         then PutFixed64 tmp (PackSequenceAndType kMaxSequenceNumber kValueTypeForSeek)
         else start)"

definition Internal_FindShortSuccessor :: "comparator \<Rightarrow> u8 list \<Rightarrow> u8 list" where
  "Internal_FindShortSuccessor U key =
     (let user_key = ExtractUserKey key;
          tmp = FindShortSuccessor U user_key
      in if length tmp < length user_key \<and> Compare U user_key tmp < 0
         then PutFixed64 tmp (PackSequenceAndType kMaxSequenceNumber kValueTypeForSeek)
         else key)"

definition InternalKeyComparator :: "comparator \<Rightarrow> comparator" where
  "InternalKeyComparator U =
     \<lparr>comparator_name = str ''leveldb.InternalKeyComparator'',
      Compare = Internal_Compare U, FindShortestSeparator = Internal_FindShortestSeparator U,
      FindShortSuccessor = Internal_FindShortSuccessor U\<rparr>"

text \<open>The filter policy on internal keys: the keys are replaced by their user keys.\<close>

definition InternalFilterPolicy :: "filter_policy \<Rightarrow> filter_policy" where
  "InternalFilterPolicy P =
     \<lparr>policy_name = policy_name P,
      CreateFilter = (\<lambda>keys dst. CreateFilter P (map ExtractUserKey keys) dst),
      KeyMayMatch = (\<lambda>key f. KeyMayMatch P (ExtractUserKey key) f)\<rparr>"

text \<open>A \<open>LookupKey\<close>: the bytes from \<open>start_\<close> to \<open>end_\<close> and the offset of \<open>kstart_\<close>.\<close>

record lookup_key =
  lk_bytes :: "u8 list"
  lk_kstart :: nat

definition LookupKey :: "slice \<Rightarrow> u64 \<Rightarrow> lookup_key" where
  "LookupKey ukey s =
     (let usize = length ukey;
          dst = EncodeVarint32 (of_nat (usize + 8))
      in \<lparr>lk_bytes = dst @ ukey @ EncodeFixed64 kLittleEndian (PackSequenceAndType s kValueTypeForSeek),
          lk_kstart = length dst\<rparr>)"

definition memtable_key :: "lookup_key \<Rightarrow> slice" where "memtable_key l = lk_bytes l"
definition internal_key :: "lookup_key \<Rightarrow> slice" where "internal_key l = drop (lk_kstart l) (lk_bytes l)"

definition lookup_user_key :: "lookup_key \<Rightarrow> slice" where
  "lookup_user_key l = take (length (lk_bytes l) - lk_kstart l - 8) (drop (lk_kstart l) (lk_bytes l))"

subsection \<open>Internal keys are parsed back\<close>

lemma Extract_tag [simp]:
  "ExtractUserKey (u @ EncodeFixed64 le v) = u" "internal_num (u @ EncodeFixed64 le v) = v"
  using DecodeFixed64_Encode [of kLittleEndian le v "[]"]
  by (simp_all add: ExtractUserKey_def internal_num_def del: DecodeFixed64_Encode)

lemma Pack_parts:
  "ucast (PackSequenceAndType s t AND 0xff) = t"
  "s \<le> kMaxSequenceNumber \<Longrightarrow> drop_bit 8 (PackSequenceAndType s t) = s"
proof -
  show "ucast (PackSequenceAndType s t AND 0xff) = t"
    by (rule u8_eqI, unfold all_less_8) (simp add: PackSequenceAndType_def bit_simps)
  assume "s \<le> kMaxSequenceNumber"
  then have "unat s < 2 ^ 56" by (simp add: word_le_nat_alt kMaxSequenceNumber_def)
  then have s: "take_bit 56 s = s"
    by (simp add: word_unat_eq_iff unsigned_take_bit_eq take_bit_nat_eq_self)
  have hs: "n < 56" if "bit s n" for n using that s by (metis bit_take_bit_iff)
  then show "drop_bit 8 (PackSequenceAndType s t) = s"
    by (intro bit_word_eqI) (auto simp: PackSequenceAndType_def bit_simps not_less dest: bit_imp_le_length hs)
qed

lemma unat_Pack:
  assumes "s \<le> kMaxSequenceNumber"
  shows "unat (PackSequenceAndType s t) = 256 * unat s + unat t"
proof -
  let ?p = "PackSequenceAndType s t"
  have "unat (drop_bit 8 ?p) = unat s" using Pack_parts(2) [OF assms] by simp
  then have d: "unat ?p div 256 = unat s" by (simp add: drop_bit_eq_div unat_div_distrib)
  have "unat (ucast (?p AND 0xff) :: u8) = unat t" by (simp only: Pack_parts(1))
  moreover have "?p AND 0xff = take_bit 8 ?p" using take_bit_eq_mask [of 8 ?p] by (simp add: mask_eq_exp_minus_1)
  ultimately have "unat ?p mod 256 = unat t"
    by (simp add: unsigned_ucast_eq unsigned_take_bit_eq take_bit_eq_mod unat_mod_distrib)
  with d show ?thesis by (metis mult_div_mod_eq)
qed

lemma Pack_less:
  assumes "s \<le> kMaxSequenceNumber" "s1 \<le> kMaxSequenceNumber"
  shows "PackSequenceAndType s t < PackSequenceAndType s1 t1 \<longleftrightarrow> s < s1 \<or> s = s1 \<and> t < t1"
proof -
  have "unat t < 256" "unat t1 < 256" using unsigned_less [of t] unsigned_less [of t1] by simp_all
  then show ?thesis
    using unat_Pack [OF assms(1), of t] unat_Pack [OF assms(2), of t1]
    unfolding word_less_nat_alt word_unat_eq_iff by linarith
qed

lemma Parse_Append:
  assumes "s \<le> kMaxSequenceNumber" "t \<le> kTypeValue"
  shows "ParseInternalKey (AppendInternalKey [] \<lparr>user_key = u, sequence = s, ktype = t\<rparr>) =
    Some \<lparr>user_key = u, sequence = s, ktype = t\<rparr>"
  using assms Pack_parts [of s t] DecodeFixed64_Encode [of kLittleEndian kLittleEndian "PackSequenceAndType s t" "[]"]
  by (simp add: ParseInternalKey_def AppendInternalKey_def PutFixed64_def Let_def)

lemma LookupKey_parts:
  "internal_key (LookupKey u s) = u @ EncodeFixed64 kLittleEndian (PackSequenceAndType s kValueTypeForSeek)"
  "lookup_user_key (LookupKey u s) = u"
  "length u + 8 < 2 ^ 32 \<Longrightarrow> memtable_key (LookupKey u s) = prefixed (internal_key (LookupKey u s))"
  by (simp_all add: internal_key_def lookup_user_key_def memtable_key_def LookupKey_def Let_def prefixed_def)

subsection \<open>The internal order\<close>

definition internal_valid :: "(slice \<Rightarrow> bool) \<Rightarrow> slice \<Rightarrow> bool" where
  "internal_valid v key \<longleftrightarrow> 8 \<le> length key \<and> v (ExtractUserKey key)"

context key_order
begin

lemma Internal_swap:
  assumes "internal_valid valid a" "internal_valid valid b"
  shows "Internal_Compare C a b < 0 \<longleftrightarrow> 0 < Internal_Compare C b a"
  using compare_swap [of "ExtractUserKey a" "ExtractUserKey b"]
    compare_swap [of "ExtractUserKey b" "ExtractUserKey a"] assms
  by (auto simp: Internal_Compare_def Let_def internal_valid_def)

lemma Internal_less:
  "Internal_Compare C a b \<le> 0 \<longleftrightarrow> Compare C (ExtractUserKey a) (ExtractUserKey b) < 0 \<or>
     Compare C (ExtractUserKey a) (ExtractUserKey b) = 0 \<and> internal_num b \<le> internal_num a"
  "Internal_Compare C a b < 0 \<longleftrightarrow> Compare C (ExtractUserKey a) (ExtractUserKey b) < 0 \<or>
     Compare C (ExtractUserKey a) (ExtractUserKey b) = 0 \<and> internal_num b < internal_num a"
  by (auto simp: Internal_Compare_def Let_def)

lemma Internal_trans:
  assumes "internal_valid valid a" "internal_valid valid b" "internal_valid valid c"
    and "Internal_Compare C a b \<le> 0" "Internal_Compare C b c \<le> 0"
  shows "Internal_Compare C a c \<le> 0"
proof -
  let ?a = "ExtractUserKey a" and ?b = "ExtractUserKey b" and ?c = "ExtractUserKey c"
  have v: "valid ?a" "valid ?b" "valid ?c" using assms(1-3) by (simp_all add: internal_valid_def)
  note less = compare_less_trans [OF v]
  have le: "Compare C ?a ?b \<le> 0" "Compare C ?b ?c \<le> 0" "Compare C ?a ?c \<le> 0"
    using assms(4,5) compare_trans [OF v] by (auto simp: Internal_less)
  show ?thesis
  proof (cases "Compare C ?a ?c = 0")
    case True
    then have "Compare C ?a ?b = 0" "Compare C ?b ?c = 0" using less le by force+
    then show ?thesis using assms(4,5) True by (auto simp: Internal_less)
  next
    case False
    then show ?thesis using le by (auto simp: Internal_less)
  qed
qed

lemma Internal_separator:
  assumes "internal_valid valid a" "internal_valid valid b" "Internal_Compare C a b < 0"
  shows "internal_valid valid (Internal_FindShortestSeparator C a b) \<and>
    Internal_Compare C a (Internal_FindShortestSeparator C a b) \<le> 0 \<and>
    Internal_Compare C (Internal_FindShortestSeparator C a b) b < 0"
proof -
  let ?a = "ExtractUserKey a" and ?b = "ExtractUserKey b"
  let ?t = "FindShortestSeparator C ?a ?b"
  have v: "valid ?a" "valid ?b" using assms(1,2) by (simp_all add: internal_valid_def)
  show ?thesis
  proof (cases "length ?t < length ?a \<and> Compare C ?a ?t < 0")
    case True
    let ?r = "PutFixed64 ?t (PackSequenceAndType kMaxSequenceNumber kValueTypeForSeek)"
    have r: "Internal_FindShortestSeparator C a b = ?r"
      using True by (simp add: Internal_FindShortestSeparator_def Let_def)
    have e: "ExtractUserKey ?r = ?t" "8 \<le> length ?r" by (simp_all add: PutFixed64_def)
    show ?thesis
    proof (cases "Compare C ?a ?b < 0")
      case T: True
      then show ?thesis
        using separator [OF v T] True unfolding r internal_valid_def Internal_less e(1) using e(2) by auto
    next
      case False
      text \<open>The user keys compare as equal: the separator of the user comparator is not used.\<close>
      then have z: "Compare C ?a ?b = 0" using assms(3) by (auto simp: Internal_less)
      show ?thesis using separator_equal [OF v z] True by simp
    qed
  next
    case False
    then show ?thesis
      using assms Internal_swap [OF assms(1,1)]
      by (auto simp: Internal_FindShortestSeparator_def Let_def)
  qed
qed

lemma Internal_successor:
  assumes "internal_valid valid a"
  shows "internal_valid valid (Internal_FindShortSuccessor C a) \<and>
    Internal_Compare C a (Internal_FindShortSuccessor C a) \<le> 0"
proof -
  let ?a = "ExtractUserKey a"
  let ?t = "FindShortSuccessor C ?a"
  show ?thesis
  proof (cases "length ?t < length ?a \<and> Compare C ?a ?t < 0")
    case True
    let ?r = "PutFixed64 ?t (PackSequenceAndType kMaxSequenceNumber kValueTypeForSeek)"
    have r: "Internal_FindShortSuccessor C a = ?r"
      using True by (simp add: Internal_FindShortSuccessor_def Let_def)
    have e: "ExtractUserKey ?r = ?t" "8 \<le> length ?r" by (simp_all add: PutFixed64_def)
    show ?thesis
      using True successor [of ?a] assms unfolding r internal_valid_def Internal_less e(1) using e(2) by auto
  next
    case False
    then have "Internal_FindShortSuccessor C a = a" by (auto simp: Internal_FindShortSuccessor_def Let_def)
    then show ?thesis using assms Internal_swap [OF assms assms] by auto
  qed
qed

lemma Internal_separator_equal:
  assumes "internal_valid valid a" "internal_valid valid b" "Internal_Compare C a b = 0"
  shows "Internal_FindShortestSeparator C a b = a"
proof -
  have "Compare C (ExtractUserKey a) (ExtractUserKey b) = 0"
    using assms(3) by (auto simp: Internal_Compare_def Let_def split: if_splits)
  then show ?thesis
    using separator_equal assms by (simp add: Internal_FindShortestSeparator_def internal_valid_def)
qed

end

text \<open>The keys of a database over a user comparator: the internal comparator is a comparator again.\<close>

locale database_keys = key_order C valid for C valid

sublocale database_keys \<subseteq> internal: key_order "InternalKeyComparator C" "internal_valid valid"
proof unfold_locales
  fix a b c
  assume a: "internal_valid valid a"
  show "internal_valid valid b \<Longrightarrow>
      Compare (InternalKeyComparator C) a b < 0 \<longleftrightarrow> 0 < Compare (InternalKeyComparator C) b a"
    unfolding InternalKeyComparator_def comparator.select_convs by (rule Internal_swap [OF a])
  show "internal_valid valid b \<Longrightarrow> internal_valid valid c \<Longrightarrow> Compare (InternalKeyComparator C) a b \<le> 0 \<Longrightarrow>
      Compare (InternalKeyComparator C) b c \<le> 0 \<Longrightarrow> Compare (InternalKeyComparator C) a c \<le> 0"
    unfolding InternalKeyComparator_def comparator.select_convs by (rule Internal_trans [OF a])
  show "internal_valid valid b \<Longrightarrow> Compare (InternalKeyComparator C) a b < 0 \<Longrightarrow>
      internal_valid valid (FindShortestSeparator (InternalKeyComparator C) a b) \<and>
      Compare (InternalKeyComparator C) a (FindShortestSeparator (InternalKeyComparator C) a b) \<le> 0 \<and>
      Compare (InternalKeyComparator C) (FindShortestSeparator (InternalKeyComparator C) a b) b < 0"
    unfolding InternalKeyComparator_def comparator.select_convs by (rule Internal_separator [OF a])
  show "internal_valid valid b \<Longrightarrow> Compare (InternalKeyComparator C) a b = 0 \<Longrightarrow>
      FindShortestSeparator (InternalKeyComparator C) a b = a"
    unfolding InternalKeyComparator_def comparator.select_convs by (rule Internal_separator_equal [OF a])
  show "internal_valid valid (FindShortSuccessor (InternalKeyComparator C) a) \<and>
      Compare (InternalKeyComparator C) a (FindShortSuccessor (InternalKeyComparator C) a) \<le> 0"
    unfolding InternalKeyComparator_def comparator.select_convs by (rule Internal_successor [OF a])
qed

interpretation bytewise_db: database_keys BytewiseComparator "\<lambda>_. True"
  by unfold_locales

lemma bytewise_internal_order:
  assumes "s \<le> kMaxSequenceNumber" "s1 \<le> kMaxSequenceNumber"
  shows "Compare (InternalKeyComparator BytewiseComparator) (AppendInternalKey [] \<lparr>user_key = u, sequence = s, ktype = t\<rparr>)
      (AppendInternalKey [] \<lparr>user_key = u1, sequence = s1, ktype = t1\<rparr>) < 0 \<longleftrightarrow>
    Slice_compare u u1 < 0 \<or> u = u1 \<and> (s1 < s \<or> s1 = s \<and> t1 < t)"
  using Pack_less [OF assms(2,1), of t1 t]
  by (simp add: InternalKeyComparator_def bytewise.Internal_less AppendInternalKey_def PutFixed64_def)
    (simp add: BytewiseComparator_def Slice_compare_0)

subsection \<open>The filter of internal keys\<close>

locale user_filter = no_false_negatives P for P

sublocale user_filter \<subseteq> internal: no_false_negatives "InternalFilterPolicy P"
  by unfold_locales (use create [of "map ExtractUserKey _"] in \<open>auto simp: InternalFilterPolicy_def\<close>)

interpretation bloom_db: user_filter "BloomFilterPolicy bits_per_key"
  by unfold_locales

end
