(* ===== verification/Ldb_Version_Edit.thy ===== *)
theory Ldb_Version_Edit
  imports Ldb_Dbformat
begin

text \<open>
  Version edits, the records of the descriptor log (\<open>db/version_edit.h\<close>,
  \<open>db/version_edit.cc\<close>): the edit, its encoding and its decoder. The set \<open>deleted_files_\<close> is a
  sorted list without duplicates; an internal key is its string \<open>rep_\<close>. The assertion of
  \<open>InternalKey::Encode\<close> that the string is not empty is not modelled: empty keys are encoded too, and
  decoded again.
\<close>

subsection \<open>The edit\<close>

definition kNumLevels :: int where "kNumLevels = 7"

definition kComparator :: u32 where "kComparator = 1"
definition kLogNumber :: u32 where "kLogNumber = 2"
definition kNextFileNumber :: u32 where "kNextFileNumber = 3"
definition kLastSequence :: u32 where "kLastSequence = 4"
definition kCompactPointer :: u32 where "kCompactPointer = 5"
definition kDeletedFile :: u32 where "kDeletedFile = 6"
definition kNewFile :: u32 where "kNewFile = 7"
definition kPrevLogNumber :: u32 where "kPrevLogNumber = 9"

lemmas tag_defs = kComparator_def kLogNumber_def kNextFileNumber_def kLastSequence_def kCompactPointer_def
  kDeletedFile_def kNewFile_def kPrevLogNumber_def

record file_meta =
  fm_refs :: int
  fm_allowed_seeks :: int
  fm_number :: u64
  fm_file_size :: u64
  fm_smallest :: slice
  fm_largest :: slice

definition FileMetaData :: "u64 \<Rightarrow> u64 \<Rightarrow> slice \<Rightarrow> slice \<Rightarrow> file_meta" where
  "FileMetaData num sz small large =
     \<lparr>fm_refs = 0, fm_allowed_seeks = 1073741824, fm_number = num, fm_file_size = sz, fm_smallest = small,
      fm_largest = large\<rparr>"

record version_edit =
  ve_comparator :: slice
  ve_log_number :: u64
  ve_prev_log_number :: u64
  ve_next_file_number :: u64
  ve_last_sequence :: u64
  ve_has_comparator :: bool
  ve_has_log_number :: bool
  ve_has_prev_log_number :: bool
  ve_has_next_file_number :: bool
  ve_has_last_sequence :: bool
  ve_compact_pointers :: "(int \<times> slice) list"
  ve_deleted_files :: "(int \<times> u64) list"
  ve_new_files :: "(int \<times> file_meta) list"

text \<open>\<open>Clear\<close> does not touch \<open>compact_pointers_\<close>; the constructor clears an edit without any.\<close>

definition VersionEdit_Clear :: "version_edit \<Rightarrow> version_edit" where
  "VersionEdit_Clear v =
     v\<lparr>ve_comparator := [], ve_log_number := 0, ve_prev_log_number := 0, ve_last_sequence := 0,
       ve_next_file_number := 0, ve_has_comparator := False, ve_has_log_number := False,
       ve_has_prev_log_number := False, ve_has_next_file_number := False, ve_has_last_sequence := False,
       ve_deleted_files := [], ve_new_files := []\<rparr>"

definition new_VersionEdit :: version_edit where
  "new_VersionEdit =
     \<lparr>ve_comparator = [], ve_log_number = 0, ve_prev_log_number = 0, ve_next_file_number = 0,
      ve_last_sequence = 0, ve_has_comparator = False, ve_has_log_number = False,
      ve_has_prev_log_number = False, ve_has_next_file_number = False, ve_has_last_sequence = False,
      ve_compact_pointers = [], ve_deleted_files = [], ve_new_files = []\<rparr>"

definition SetComparatorName :: "slice \<Rightarrow> version_edit \<Rightarrow> version_edit" where
  "SetComparatorName name v = v\<lparr>ve_has_comparator := True, ve_comparator := name\<rparr>"

definition SetLogNumber :: "u64 \<Rightarrow> version_edit \<Rightarrow> version_edit" where
  "SetLogNumber num v = v\<lparr>ve_has_log_number := True, ve_log_number := num\<rparr>"

definition SetPrevLogNumber :: "u64 \<Rightarrow> version_edit \<Rightarrow> version_edit" where
  "SetPrevLogNumber num v = v\<lparr>ve_has_prev_log_number := True, ve_prev_log_number := num\<rparr>"

definition SetNextFile :: "u64 \<Rightarrow> version_edit \<Rightarrow> version_edit" where
  "SetNextFile num v = v\<lparr>ve_has_next_file_number := True, ve_next_file_number := num\<rparr>"

definition SetLastSequence :: "u64 \<Rightarrow> version_edit \<Rightarrow> version_edit" where
  "SetLastSequence s v = v\<lparr>ve_has_last_sequence := True, ve_last_sequence := s\<rparr>"

definition SetCompactPointer :: "int \<Rightarrow> slice \<Rightarrow> version_edit \<Rightarrow> version_edit" where
  "SetCompactPointer level key v = v\<lparr>ve_compact_pointers := ve_compact_pointers v @ [(level, key)]\<rparr>"

definition AddFile :: "int \<Rightarrow> u64 \<Rightarrow> u64 \<Rightarrow> slice \<Rightarrow> slice \<Rightarrow> version_edit \<Rightarrow> version_edit" where
  "AddFile level num sz smallest largest v =
     v\<lparr>ve_new_files := ve_new_files v @ [(level, FileMetaData num sz smallest largest)]\<rparr>"

text \<open>\<open>std::set<std::pair<int, uint64_t> >\<close>: ordered by the pair, one copy of each.\<close>

definition pair_less :: "int \<times> u64 \<Rightarrow> int \<times> u64 \<Rightarrow> bool" where
  "pair_less a b \<longleftrightarrow> fst a < fst b \<or> fst a = fst b \<and> snd a < snd b"

fun set_insert :: "int \<times> u64 \<Rightarrow> (int \<times> u64) list \<Rightarrow> (int \<times> u64) list" where
  "set_insert x [] = [x]"
| "set_insert x (y # ys) =
     (if pair_less x y then x # y # ys else if pair_less y x then y # set_insert x ys else y # ys)"

definition DeleteFile :: "int \<Rightarrow> u64 \<Rightarrow> version_edit \<Rightarrow> version_edit" where
  "DeleteFile level num v = v\<lparr>ve_deleted_files := set_insert (level, num) (ve_deleted_files v)\<rparr>"

lemma compact_pointers_same [simp]:
  "ve_compact_pointers (SetComparatorName name v) = ve_compact_pointers v"
  "ve_compact_pointers (SetLogNumber n v) = ve_compact_pointers v"
  "ve_compact_pointers (SetPrevLogNumber n v) = ve_compact_pointers v"
  "ve_compact_pointers (SetNextFile n v) = ve_compact_pointers v"
  "ve_compact_pointers (SetLastSequence n v) = ve_compact_pointers v"
  "ve_compact_pointers (AddFile l n s a b v) = ve_compact_pointers v"
  "ve_compact_pointers (DeleteFile l n v) = ve_compact_pointers v"
  "ve_compact_pointers (VersionEdit_Clear v) = ve_compact_pointers v"
  "ve_compact_pointers new_VersionEdit = []"
  by (simp_all add: SetComparatorName_def SetLogNumber_def SetPrevLogNumber_def SetNextFile_def SetLastSequence_def
      AddFile_def DeleteFile_def VersionEdit_Clear_def new_VersionEdit_def)

subsection \<open>Encoding\<close>

definition put_number :: "bool \<Rightarrow> u32 \<Rightarrow> u64 \<Rightarrow> u8 list \<Rightarrow> u8 list" where
  "put_number has tag num dst = (if has then PutVarint64 (PutVarint32 dst tag) num else dst)"

definition put_pointer :: "int \<times> slice \<Rightarrow> u8 list \<Rightarrow> u8 list" where
  "put_pointer = (\<lambda>(level, key) dst.
     PutLengthPrefixedSlice (PutVarint32 (PutVarint32 dst kCompactPointer) (word_of_int level)) key)"

definition put_deleted :: "int \<times> u64 \<Rightarrow> u8 list \<Rightarrow> u8 list" where
  "put_deleted = (\<lambda>(level, num) dst.
     PutVarint64 (PutVarint32 (PutVarint32 dst kDeletedFile) (word_of_int level)) num)"

definition put_new_file :: "int \<times> file_meta \<Rightarrow> u8 list \<Rightarrow> u8 list" where
  "put_new_file = (\<lambda>(level, f) dst.
     let dst = PutVarint32 dst kNewFile;
         dst = PutVarint32 dst (word_of_int level);
         dst = PutVarint64 dst (fm_number f);
         dst = PutVarint64 dst (fm_file_size f);
         dst = PutLengthPrefixedSlice dst (fm_smallest f)
     in PutLengthPrefixedSlice dst (fm_largest f))"

definition EncodeTo :: "version_edit \<Rightarrow> u8 list \<Rightarrow> u8 list" where
  "EncodeTo v dst =
     (let dst = (if ve_has_comparator v then PutLengthPrefixedSlice (PutVarint32 dst kComparator) (ve_comparator v)
                 else dst);
          dst = put_number (ve_has_log_number v) kLogNumber (ve_log_number v) dst;
          dst = put_number (ve_has_prev_log_number v) kPrevLogNumber (ve_prev_log_number v) dst;
          dst = put_number (ve_has_next_file_number v) kNextFileNumber (ve_next_file_number v) dst;
          dst = put_number (ve_has_last_sequence v) kLastSequence (ve_last_sequence v) dst;
          dst = fold put_pointer (ve_compact_pointers v) dst;
          dst = fold put_deleted (ve_deleted_files v) dst
      in fold put_new_file (ve_new_files v) dst)"

subsection \<open>Decoding\<close>

text \<open>
  A getter gives the value, if there is one, and the slice after the call; \<open>get\<close> chains them
  as the \<open>&&\<close> of the code does.
\<close>

definition get :: "'a option \<times> slice \<Rightarrow> ('a \<Rightarrow> slice \<Rightarrow> 'b option \<times> slice) \<Rightarrow> 'b option \<times> slice" where
  "get r f = (case r of (None, input) \<Rightarrow> (None, input) | (Some x, input) \<Rightarrow> f x input)"

definition GetInternalKey :: "slice \<Rightarrow> slice option \<times> slice" where
  "GetInternalKey input = GetLengthPrefixedSlice input"

definition GetLevel :: "slice \<Rightarrow> int option \<times> slice" where
  "GetLevel input =
     get (GetVarint32 input) (\<lambda>v input. if v < word_of_int kNumLevels then (Some (uint v), input) else (None, input))"

text \<open>One turn of the \<open>switch\<close>: the message of a failure, or the edit; and the rest of the input.\<close>

definition or_msg :: "'a option \<times> slice \<Rightarrow> string \<Rightarrow> ('a \<Rightarrow> version_edit) \<Rightarrow> (string + version_edit) \<times> slice" where
  "or_msg r msg f = (case r of (None, input) \<Rightarrow> (Inl msg, input) | (Some x, input) \<Rightarrow> (Inr (f x), input))"

definition decode_field :: "u32 \<Rightarrow> version_edit \<Rightarrow> slice \<Rightarrow> (string + version_edit) \<times> slice" where
  "decode_field tag v input =
     (if tag = kComparator then
        or_msg (GetLengthPrefixedSlice input) ''comparator name''
          (\<lambda>s. v\<lparr>ve_comparator := s, ve_has_comparator := True\<rparr>)
      else if tag = kLogNumber then
        or_msg (GetVarint64 input) ''log number'' (\<lambda>n. v\<lparr>ve_log_number := n, ve_has_log_number := True\<rparr>)
      else if tag = kPrevLogNumber then
        or_msg (GetVarint64 input) ''previous log number''
          (\<lambda>n. v\<lparr>ve_prev_log_number := n, ve_has_prev_log_number := True\<rparr>)
      else if tag = kNextFileNumber then
        or_msg (GetVarint64 input) ''next file number''
          (\<lambda>n. v\<lparr>ve_next_file_number := n, ve_has_next_file_number := True\<rparr>)
      else if tag = kLastSequence then
        or_msg (GetVarint64 input) ''last sequence number''
          (\<lambda>n. v\<lparr>ve_last_sequence := n, ve_has_last_sequence := True\<rparr>)
      else if tag = kCompactPointer then
        or_msg (get (GetLevel input) (\<lambda>level input. get (GetInternalKey input) (\<lambda>key input. (Some (level, key), input))))
          ''compaction pointer'' (\<lambda>p. v\<lparr>ve_compact_pointers := ve_compact_pointers v @ [p]\<rparr>)
      else if tag = kDeletedFile then
        or_msg (get (GetLevel input) (\<lambda>level input. get (GetVarint64 input) (\<lambda>num input. (Some (level, num), input))))
          ''deleted file'' (\<lambda>p. v\<lparr>ve_deleted_files := set_insert p (ve_deleted_files v)\<rparr>)
      else if tag = kNewFile then
        or_msg
          (get (GetLevel input) (\<lambda>level input.
           get (GetVarint64 input) (\<lambda>num input.
           get (GetVarint64 input) (\<lambda>sz input.
           get (GetInternalKey input) (\<lambda>smallest input.
           get (GetInternalKey input) (\<lambda>largest input.
             (Some (level, FileMetaData num sz smallest largest), input)))))))
          ''new-file entry'' (\<lambda>p. v\<lparr>ve_new_files := ve_new_files v @ [p]\<rparr>)
      else (Inl ''unknown tag'', input))"

text \<open>What a getter consumes, for the termination of the loop.\<close>

lemma get32_loop_shrinks: "get32_loop shift r p = Some (v, q) \<Longrightarrow> length q < length p"
  using get32_loop_le [of shift r p v q] by auto

lemma get64_loop_shrinks: "get64_loop shift r p = Some (v, q) \<Longrightarrow> length q < length p"
  by (induction shift r p rule: get64_loop.induct) (auto simp: Let_def split: if_splits)

lemma GetVarint32_shrinks: "GetVarint32 p = (Some v, q) \<Longrightarrow> length q < length p"
  by (auto simp: GetVarint32_def GetVarint32Ptr_def GetVarint32PtrFallback_def Let_def
      split: option.splits if_splits dest: get32_loop_shrinks)

lemma GetVarint64_shrinks: "GetVarint64 p = (Some v, q) \<Longrightarrow> length q < length p"
  by (auto simp: GetVarint64_def GetVarint64Ptr_def split: option.splits dest: get64_loop_shrinks)

definition no_longer :: "'a \<times> slice \<Rightarrow> slice \<Rightarrow> bool" where
  "no_longer r input \<longleftrightarrow> length (snd r) \<le> length input"

lemma GetVarint32_no_longer: "no_longer (GetVarint32 p) p"
  using GetVarint32_shrinks [of p] by (auto simp: no_longer_def GetVarint32_def split: option.splits)

lemma GetVarint64_no_longer: "no_longer (GetVarint64 p) p"
  using GetVarint64_shrinks [of p] by (auto simp: no_longer_def GetVarint64_def split: option.splits)

lemma GetLengthPrefixedSlice_no_longer: "no_longer (GetLengthPrefixedSlice p) p"
  using GetVarint32_no_longer [of p]
  by (auto simp: no_longer_def GetLengthPrefixedSlice_def split: prod.splits option.splits)

lemma get_no_longer: "no_longer r p \<Longrightarrow> (\<And>x q. no_longer (f x q) q) \<Longrightarrow> no_longer (get r f) p"
  by (auto simp: no_longer_def get_def split: prod.splits option.splits) (meson order_trans)

lemma or_msg_no_longer: "no_longer r p \<Longrightarrow> no_longer (or_msg r msg f) p"
  by (auto simp: no_longer_def or_msg_def split: prod.splits option.splits)

lemma done_no_longer: "no_longer (x, p) p"
  by (simp add: no_longer_def)

lemma decode_field_no_longer: "no_longer (decode_field tag v input) input"
  unfolding decode_field_def GetLevel_def GetInternalKey_def
  by (intro if_split [of "\<lambda>r. no_longer r input", THEN iffD2] conjI impI or_msg_no_longer get_no_longer
      GetVarint32_no_longer GetVarint64_no_longer GetLengthPrefixedSlice_no_longer done_no_longer)
    (auto intro: done_no_longer)

lemma decode_field_rest: "decode_field tag v p = (r, q) \<Longrightarrow> length q \<le> length p"
  using decode_field_no_longer [of tag v p] by (simp add: no_longer_def)

function decode_loop :: "version_edit \<Rightarrow> slice \<Rightarrow> string option \<times> version_edit \<times> slice" where
  "decode_loop v input =
     (case GetVarint32 input of
        (None, input1) \<Rightarrow> (None, v, input1)
      | (Some tag, input1) \<Rightarrow>
          (case decode_field tag v input1 of
             (Inl msg, input2) \<Rightarrow> (Some msg, v, input2)
           | (Inr v1, input2) \<Rightarrow> decode_loop v1 input2))"
  by pat_completeness auto
termination
  by (relation "measure (\<lambda>(v, input). length input)")
    (auto dest!: sym [of _ "GetVarint32 _"] sym [of _ "decode_field _ _ _"] GetVarint32_shrinks decode_field_rest)

declare decode_loop.simps [simp del]

definition DecodeFrom :: "slice \<Rightarrow> version_edit \<Rightarrow> status \<times> version_edit" where
  "DecodeFrom src v =
     (case decode_loop (VersionEdit_Clear v) src of
        (Some msg, v, input) \<Rightarrow> (Corruption (str ''VersionEdit'') (str msg), v)
      | (None, v, input) \<Rightarrow>
          if input \<noteq> [] then (Corruption (str ''VersionEdit'') (str ''invalid tag''), v) else (OK, v))"


subsection \<open>Well-formed edits\<close>

text \<open>
  What the operations keep: levels of the tree, lengths that fit their 32-bit prefix, the order of
  the set, the constants of a new file's record, and cleared values where nothing has been set.
\<close>

definition level_ok :: "int \<Rightarrow> bool" where "level_ok l \<longleftrightarrow> 0 \<le> l \<and> l < kNumLevels"

definition short :: "slice \<Rightarrow> bool" where "short s \<longleftrightarrow> length s < 2 ^ 32"

definition file_ok :: "file_meta \<Rightarrow> bool" where
  "file_ok f \<longleftrightarrow> f = FileMetaData (fm_number f) (fm_file_size f) (fm_smallest f) (fm_largest f) \<and>
     short (fm_smallest f) \<and> short (fm_largest f)"

definition edit_ok :: "version_edit \<Rightarrow> bool" where
  "edit_ok v \<longleftrightarrow> short (ve_comparator v) \<and>
     (\<forall>(l, k) \<in> set (ve_compact_pointers v). level_ok l \<and> short k) \<and>
     (\<forall>(l, n) \<in> set (ve_deleted_files v). level_ok l) \<and> sorted_wrt pair_less (ve_deleted_files v) \<and>
     (\<forall>(l, f) \<in> set (ve_new_files v). level_ok l \<and> file_ok f) \<and>
     (\<not> ve_has_comparator v \<longrightarrow> ve_comparator v = []) \<and> (\<not> ve_has_log_number v \<longrightarrow> ve_log_number v = 0) \<and>
     (\<not> ve_has_prev_log_number v \<longrightarrow> ve_prev_log_number v = 0) \<and>
     (\<not> ve_has_next_file_number v \<longrightarrow> ve_next_file_number v = 0) \<and>
     (\<not> ve_has_last_sequence v \<longrightarrow> ve_last_sequence v = 0)"

lemma pair_less_total: "pair_less x y \<or> pair_less y x \<or> x = y"
  by (cases x; cases y) (auto simp: pair_less_def)

lemma set_set_insert: "set (set_insert x ys) = insert x (set ys)"
proof (induction ys)
  case (Cons y ys)
  consider "pair_less x y" | "\<not> pair_less x y" "pair_less y x" | "\<not> pair_less x y" "\<not> pair_less y x" "x = y"
    using pair_less_total [of x y] by blast
  then show ?case using Cons by cases auto
qed simp

lemma pair_less_trans: "pair_less a b \<Longrightarrow> pair_less b c \<Longrightarrow> pair_less a c"
  by (auto simp: pair_less_def)

lemma sorted_set_insert: "sorted_wrt pair_less ys \<Longrightarrow> sorted_wrt pair_less (set_insert x ys)"
proof (induction ys)
  case (Cons y ys)
  have "\<forall>z \<in> set ys. pair_less x z" if "pair_less x y"
    using Cons.prems pair_less_trans [OF that] by auto
  with Cons show ?case by (simp add: set_set_insert)
qed simp

lemma set_insert_last: "\<forall>y \<in> set ys. pair_less y x \<Longrightarrow> set_insert x ys = ys @ [x]"
proof (induction ys)
  case (Cons y ys)
  from Cons.prems have "pair_less y x" by simp
  moreover from this have "\<not> pair_less x y" by (auto simp: pair_less_def)
  ultimately show ?case using Cons.IH Cons.prems by simp
qed simp

lemma edit_ok_new: "edit_ok new_VersionEdit"
  by (simp add: edit_ok_def new_VersionEdit_def short_def)

lemma edit_ok_Clear: "edit_ok v \<Longrightarrow> edit_ok (VersionEdit_Clear v)"
  by (simp add: edit_ok_def VersionEdit_Clear_def short_def)

lemma file_ok_FileMetaData: "short a \<Longrightarrow> short b \<Longrightarrow> file_ok (FileMetaData n s a b)"
  by (simp add: file_ok_def FileMetaData_def)

lemma edit_ok_set:
  "edit_ok v \<Longrightarrow> short name \<Longrightarrow> edit_ok (SetComparatorName name v)"
  "edit_ok v \<Longrightarrow> edit_ok (SetLogNumber n v)"
  "edit_ok v \<Longrightarrow> edit_ok (SetPrevLogNumber n v)"
  "edit_ok v \<Longrightarrow> edit_ok (SetNextFile n v)"
  "edit_ok v \<Longrightarrow> edit_ok (SetLastSequence n v)"
  "edit_ok v \<Longrightarrow> level_ok l \<Longrightarrow> short k \<Longrightarrow> edit_ok (SetCompactPointer l k v)"
  "edit_ok v \<Longrightarrow> level_ok l \<Longrightarrow> edit_ok (DeleteFile l n v)"
  "edit_ok v \<Longrightarrow> level_ok l \<Longrightarrow> short a \<Longrightarrow> short b \<Longrightarrow> edit_ok (AddFile l n s a b v)"
  by (auto simp: edit_ok_def SetComparatorName_def SetLogNumber_def SetPrevLogNumber_def SetNextFile_def
      SetLastSequence_def SetCompactPointer_def DeleteFile_def AddFile_def set_set_insert sorted_set_insert
      intro: file_ok_FileMetaData)

text \<open>Whatever is read is short and in range.\<close>

lemma GetLengthPrefixedSlice_short:
  assumes "GetLengthPrefixedSlice p = (Some s, q)"
  shows "short s"
proof -
  obtain len input1 where "s = take (unat (len :: u32)) input1"
    using assms by (auto simp: GetLengthPrefixedSlice_def split: prod.splits option.splits if_splits)
  then have "length s \<le> unat len" by simp
  then show ?thesis using order.strict_trans1 [OF _ unsigned_less [of len]] by (simp add: short_def)
qed

lemma GetLevel_ok: "GetLevel p = (Some l, q) \<Longrightarrow> level_ok l"
  by (auto simp: GetLevel_def get_def level_ok_def kNumLevels_def word_less_def split: prod.splits option.splits if_splits)


lemma get_SomeE: "get r f = (Some y, q) \<Longrightarrow> (\<And>x p. r = (Some x, p) \<Longrightarrow> f x p = (Some y, q) \<Longrightarrow> thesis) \<Longrightarrow> thesis"
  by (auto simp: get_def split: prod.splits option.splits)

lemma or_msg_InrE: "or_msg r msg f = (Inr w, q) \<Longrightarrow> (\<And>x. r = (Some x, q) \<Longrightarrow> w = f x \<Longrightarrow> thesis) \<Longrightarrow> thesis"
  by (auto simp: or_msg_def split: prod.splits option.splits)

lemma edit_ok_update:
  "edit_ok v \<Longrightarrow> short s \<Longrightarrow> edit_ok (v\<lparr>ve_comparator := s, ve_has_comparator := True\<rparr>)"
  "edit_ok v \<Longrightarrow> edit_ok (v\<lparr>ve_log_number := n, ve_has_log_number := True\<rparr>)"
  "edit_ok v \<Longrightarrow> edit_ok (v\<lparr>ve_prev_log_number := n, ve_has_prev_log_number := True\<rparr>)"
  "edit_ok v \<Longrightarrow> edit_ok (v\<lparr>ve_next_file_number := n, ve_has_next_file_number := True\<rparr>)"
  "edit_ok v \<Longrightarrow> edit_ok (v\<lparr>ve_last_sequence := n, ve_has_last_sequence := True\<rparr>)"
  "edit_ok v \<Longrightarrow> level_ok l \<Longrightarrow> short k \<Longrightarrow> edit_ok (v\<lparr>ve_compact_pointers := ve_compact_pointers v @ [(l, k)]\<rparr>)"
  "edit_ok v \<Longrightarrow> level_ok l \<Longrightarrow> edit_ok (v\<lparr>ve_deleted_files := set_insert (l, n) (ve_deleted_files v)\<rparr>)"
  "edit_ok v \<Longrightarrow> level_ok l \<Longrightarrow> file_ok f \<Longrightarrow> edit_ok (v\<lparr>ve_new_files := ve_new_files v @ [(l, f)]\<rparr>)"
  by (auto simp: edit_ok_def set_set_insert sorted_set_insert)

lemma decode_field_ok:
  assumes "edit_ok v" "decode_field tag v input = (Inr w, q)"
  shows "edit_ok w"
  using assms(2) unfolding decode_field_def GetInternalKey_def
  by (elim or_msg_InrE get_SomeE if_split_asm [of "\<lambda>r. r = (Inr w, q)", THEN iffD1, elim_format])
    (auto simp: edit_ok_update [OF assms(1)] file_ok_FileMetaData
      split: if_split_asm elim!: or_msg_InrE get_SomeE dest!: GetLengthPrefixedSlice_short GetLevel_ok)

lemma decode_edit_loop_ok: "edit_ok v \<Longrightarrow> edit_ok (fst (snd (decode_loop v input)))"
proof (induction v input rule: decode_loop.induct)
  case (1 v input)
  then show ?case
    by (subst decode_loop.simps) (auto split: prod.splits option.splits sum.splits dest: decode_field_ok)
qed

text \<open>Whatever the bytes are, the decoder keeps the edit well-formed.\<close>

lemma DecodeFrom_ok: "edit_ok v \<Longrightarrow> edit_ok (snd (DecodeFrom src v))"
  using decode_edit_loop_ok [OF edit_ok_Clear, of v src]
  by (auto simp: DecodeFrom_def split: prod.splits option.splits)


subsection \<open>Round trip\<close>

definition number_bytes :: "bool \<Rightarrow> u32 \<Rightarrow> u64 \<Rightarrow> u8 list" where
  "number_bytes has tag num = (if has then EncodeVarint32 tag @ EncodeVarint64 num else [])"

definition name_bytes :: "bool \<Rightarrow> slice \<Rightarrow> u8 list" where
  "name_bytes has s = (if has then EncodeVarint32 kComparator @ prefixed s else [])"

definition pointer_bytes :: "int \<times> slice \<Rightarrow> u8 list" where
  "pointer_bytes p = EncodeVarint32 kCompactPointer @ EncodeVarint32 (word_of_int (fst p)) @ prefixed (snd p)"

definition deleted_bytes :: "int \<times> u64 \<Rightarrow> u8 list" where
  "deleted_bytes p = EncodeVarint32 kDeletedFile @ EncodeVarint32 (word_of_int (fst p)) @ EncodeVarint64 (snd p)"

definition new_file_bytes :: "int \<times> file_meta \<Rightarrow> u8 list" where
  "new_file_bytes p = EncodeVarint32 kNewFile @ EncodeVarint32 (word_of_int (fst p)) @
     EncodeVarint64 (fm_number (snd p)) @ EncodeVarint64 (fm_file_size (snd p)) @
     prefixed (fm_smallest (snd p)) @ prefixed (fm_largest (snd p))"

lemma fold_append: "(\<And>x d. f x d = d @ g x) \<Longrightarrow> fold f xs dst = dst @ concat (map g xs)"
  by (induction xs arbitrary: dst) auto

lemmas put_bytes = PutVarint32_def PutVarint64_def PutLengthPrefixedSlice_prefixed

lemma EncodeTo_bytes:
  "EncodeTo v dst = dst @ name_bytes (ve_has_comparator v) (ve_comparator v) @
     number_bytes (ve_has_log_number v) kLogNumber (ve_log_number v) @
     number_bytes (ve_has_prev_log_number v) kPrevLogNumber (ve_prev_log_number v) @
     number_bytes (ve_has_next_file_number v) kNextFileNumber (ve_next_file_number v) @
     number_bytes (ve_has_last_sequence v) kLastSequence (ve_last_sequence v) @
     concat (map pointer_bytes (ve_compact_pointers v)) @ concat (map deleted_bytes (ve_deleted_files v)) @
     concat (map new_file_bytes (ve_new_files v))"
proof -
  have n: "put_number has tag num d = d @ number_bytes has tag num" for has tag num d
    by (simp add: put_number_def number_bytes_def put_bytes)
  have p: "put_pointer x d = d @ pointer_bytes x" for x d
    by (simp add: put_pointer_def pointer_bytes_def put_bytes split: prod.splits)
  have d: "put_deleted x d = d @ deleted_bytes x" for x d
    by (simp add: put_deleted_def deleted_bytes_def put_bytes split: prod.splits)
  have f: "put_new_file x d = d @ new_file_bytes x" for x d
    by (simp add: put_new_file_def new_file_bytes_def put_bytes Let_def split: prod.splits)
  show ?thesis
    by (simp add: EncodeTo_def Let_def n fold_append [OF p] fold_append [OF d] fold_append [OF f]
        name_bytes_def put_bytes)
qed

lemma decode_loop_Nil: "decode_loop v [] = (None, v, [])"
  by (subst decode_loop.simps) (simp add: GetVarint32_def GetVarint32Ptr_def GetVarint32PtrFallback_def)

lemma decode_loop_field:
  "decode_field tag v (body @ r) = (Inr w, r) \<Longrightarrow> decode_loop v ((EncodeVarint32 tag @ body) @ r) = decode_loop w r"
  by (subst decode_loop.simps) simp

lemma GetLevel_Encode: "level_ok l \<Longrightarrow> GetLevel (EncodeVarint32 (word_of_int l) @ r) = (Some l, r)"
proof -
  assume l: "level_ok l"
  then have "uint (word_of_int l :: u32) = l" by (simp add: level_ok_def kNumLevels_def uint_word_of_int_eq take_bit_eq_mod)
  then show ?thesis using l by (simp add: GetLevel_def get_def word_less_def level_ok_def kNumLevels_def)
qed

lemma GetInternalKey_prefixed: "short k \<Longrightarrow> GetInternalKey (prefixed k @ r) = (Some k, r)"
  by (simp add: GetInternalKey_def short_def GetLengthPrefixedSlice_prefixed)

lemma decode_name:
  "short s \<Longrightarrow> decode_loop v (name_bytes has s @ r) =
     decode_loop (if has then v\<lparr>ve_comparator := s, ve_has_comparator := True\<rparr> else v) r"
  by (simp add: name_bytes_def decode_loop_field [unfolded append_assoc] decode_field_def tag_defs or_msg_def
      GetLengthPrefixedSlice_prefixed short_def)

lemma decode_numbers:
  "decode_loop v (number_bytes has kLogNumber n @ r) =
     decode_loop (if has then v\<lparr>ve_log_number := n, ve_has_log_number := True\<rparr> else v) r"
  "decode_loop v (number_bytes has kPrevLogNumber n @ r) =
     decode_loop (if has then v\<lparr>ve_prev_log_number := n, ve_has_prev_log_number := True\<rparr> else v) r"
  "decode_loop v (number_bytes has kNextFileNumber n @ r) =
     decode_loop (if has then v\<lparr>ve_next_file_number := n, ve_has_next_file_number := True\<rparr> else v) r"
  "decode_loop v (number_bytes has kLastSequence n @ r) =
     decode_loop (if has then v\<lparr>ve_last_sequence := n, ve_has_last_sequence := True\<rparr> else v) r"
  by (simp_all add: number_bytes_def decode_loop_field [unfolded append_assoc] decode_field_def tag_defs or_msg_def)

lemma decode_pointers:
  "\<forall>(l, k) \<in> set ps. level_ok l \<and> short k \<Longrightarrow> decode_loop v (concat (map pointer_bytes ps) @ r) =
     decode_loop (v\<lparr>ve_compact_pointers := ve_compact_pointers v @ ps\<rparr>) r"
proof (induction ps arbitrary: v)
  case (Cons p ps)
  obtain l k where p: "p = (l, k)" "level_ok l" "short k" using Cons.prems by (cases p) auto
  have "decode_loop v (pointer_bytes p @ concat (map pointer_bytes ps) @ r) =
      decode_loop (v\<lparr>ve_compact_pointers := ve_compact_pointers v @ [p]\<rparr>) (concat (map pointer_bytes ps) @ r)"
    unfolding pointer_bytes_def
    by (intro decode_loop_field) (simp add: p decode_field_def tag_defs or_msg_def get_def GetLevel_Encode GetInternalKey_prefixed)
  with Cons.IH Cons.prems show ?case by simp
qed simp

lemma decode_deleted:
  "\<forall>(l, n) \<in> set ds. level_ok l \<Longrightarrow> sorted_wrt pair_less (ve_deleted_files v @ ds) \<Longrightarrow>
   decode_loop v (concat (map deleted_bytes ds) @ r) =
     decode_loop (v\<lparr>ve_deleted_files := ve_deleted_files v @ ds\<rparr>) r"
proof (induction ds arbitrary: v)
  case (Cons d ds)
  obtain l n where d: "d = (l, n)" "level_ok l" using Cons.prems(1) by (cases d) auto
  have last: "set_insert d (ve_deleted_files v) = ve_deleted_files v @ [d]"
    by (intro set_insert_last) (use Cons.prems(2) in \<open>auto simp: sorted_wrt_append\<close>)
  have "decode_loop v (deleted_bytes d @ concat (map deleted_bytes ds) @ r) =
      decode_loop (v\<lparr>ve_deleted_files := ve_deleted_files v @ [d]\<rparr>) (concat (map deleted_bytes ds) @ r)"
    unfolding deleted_bytes_def last [symmetric]
    by (intro decode_loop_field) (simp add: d decode_field_def tag_defs or_msg_def get_def GetLevel_Encode)
  with Cons.IH [of "v\<lparr>ve_deleted_files := ve_deleted_files v @ [d]\<rparr>"] Cons.prems show ?case by simp
qed simp

lemma decode_new_files:
  "\<forall>(l, f) \<in> set fs. level_ok l \<and> file_ok f \<Longrightarrow> decode_loop v (concat (map new_file_bytes fs) @ r) =
     decode_loop (v\<lparr>ve_new_files := ve_new_files v @ fs\<rparr>) r"
proof (induction fs arbitrary: v)
  case (Cons p fs)
  obtain l f where p: "p = (l, f)" "level_ok l" "file_ok f" using Cons.prems by (cases p) auto
  then have f: "FileMetaData (fm_number f) (fm_file_size f) (fm_smallest f) (fm_largest f) = f"
    "short (fm_smallest f)" "short (fm_largest f)"
    by (simp_all add: file_ok_def)
  have "decode_loop v (new_file_bytes p @ concat (map new_file_bytes fs) @ r) =
      decode_loop (v\<lparr>ve_new_files := ve_new_files v @ [p]\<rparr>) (concat (map new_file_bytes fs) @ r)"
    unfolding new_file_bytes_def
    by (intro decode_loop_field)
      (simp add: p(1,2) f decode_field_def tag_defs or_msg_def get_def GetLevel_Encode GetInternalKey_prefixed)
  with Cons.IH Cons.prems show ?case by simp
qed simp

lemma Decode_Encode:
  assumes "edit_ok v"
  shows "DecodeFrom (EncodeTo v []) w = (OK, v\<lparr>ve_compact_pointers := ve_compact_pointers w @ ve_compact_pointers v\<rparr>)"
proof -
  have "decode_loop (VersionEdit_Clear w) (EncodeTo v []) =
      (None, v\<lparr>ve_compact_pointers := ve_compact_pointers w @ ve_compact_pointers v\<rparr>, [])"
    using assms decode_pointers [of "ve_compact_pointers v"] decode_deleted [of "ve_deleted_files v"]
      decode_new_files [of "ve_new_files v" _ "[]"]
    by (simp add: edit_ok_def EncodeTo_bytes decode_name decode_numbers decode_loop_Nil VersionEdit_Clear_def)
  then show ?thesis by (simp add: DecodeFrom_def)
qed

end
