(* ===== verification/Ldb_Iterator.thy ===== *)
theory Ldb_Iterator
  imports Ldb_Status
begin

text \<open>
  The iterator interface (\<open>include/leveldb/iterator.h\<close>) as a contract: an iterator over a list of
  key/value pairs has a position, is valid exactly when the position is inside the list, has the
  key and value of that position, and \<open>Next\<close> (and \<open>Prev\<close>) move the position by one. What a client's
  loop over the iterator sees follows from the contract alone.
\<close>

type_synonym pairs = "(u8 list \<times> u8 list) list"

text \<open>\<open>for (; it->Valid(); it->Next()) { ... it->key() ... it->value() ... }\<close>.\<close>

fun iterate :: "('it \<Rightarrow> bool) \<Rightarrow> ('it \<Rightarrow> u8 list) \<Rightarrow> ('it \<Rightarrow> u8 list) \<Rightarrow> ('it \<Rightarrow> 'it exec) \<Rightarrow> nat \<Rightarrow> 'it \<Rightarrow> pairs exec" where
  "iterate valid key val step 0 it = Out_of_fuel"
| "iterate valid key val step (Suc fuel) it =
     (if valid it then
        exec_bind (step it) (\<lambda>it'. exec_bind (iterate valid key val step fuel it') (\<lambda>r. Done ((key it, val it) # r)))
      else Done [])"

locale cursor =
  fixes valid :: "'it \<Rightarrow> bool" and key :: "'it \<Rightarrow> u8 list" and val :: "'it \<Rightarrow> u8 list"
    and next_it :: "'it \<Rightarrow> 'it exec" and pos :: "pairs \<Rightarrow> nat \<Rightarrow> 'it \<Rightarrow> bool"
  assumes valid_iff: "pos kvs i it \<Longrightarrow> valid it \<longleftrightarrow> i < length kvs"
    and contents: "pos kvs i it \<Longrightarrow> i < length kvs \<Longrightarrow> (key it, val it) = kvs ! i"
    and next_pos: "pos kvs i it \<Longrightarrow> i < length kvs \<Longrightarrow> \<exists>it'. next_it it = Done it' \<and> pos kvs (Suc i) it'"
begin

lemma forward: "pos kvs i it \<Longrightarrow> length kvs - i < fuel \<Longrightarrow> iterate valid key val next_it fuel it = Done (drop i kvs)"
proof (induction fuel arbitrary: i it)
  case (Suc fuel)
  show ?case
  proof (cases "i < length kvs")
    case True
    then obtain it' where n: "next_it it = Done it'" "pos kvs (Suc i) it'" using next_pos Suc.prems(1) by blast
    have "length kvs - Suc i < fuel" using True Suc.prems(2) by linarith
    from Suc.IH [OF n(2) this] n(1) show ?thesis
      using True valid_iff [OF Suc.prems(1)] contents [OF Suc.prems(1)] by (simp add: Cons_nth_drop_Suc)
  next
    case False
    then show ?thesis using valid_iff [OF Suc.prems(1)] by simp
  qed
qed simp

end

locale two_way_cursor = cursor +
  fixes prev_it :: "'it \<Rightarrow> 'it exec"
  assumes prev_pos: "pos kvs i it \<Longrightarrow> i < length kvs \<Longrightarrow>
    \<exists>it'. prev_it it = Done it' \<and> (if i = 0 then \<not> valid it' else pos kvs (i - 1) it')"
begin

lemma backward:
  "pos kvs i it \<Longrightarrow> i < length kvs \<Longrightarrow> Suc i < fuel \<Longrightarrow>
     iterate valid key val prev_it fuel it = Done (rev (take (Suc i) kvs))"
proof (induction fuel arbitrary: i it)
  case (Suc fuel)
  note v = valid_iff [OF Suc.prems(1)] and c = contents [OF Suc.prems(1,2)]
  obtain it' where p: "prev_it it = Done it'" "if i = 0 then \<not> valid it' else pos kvs (i - 1) it'"
    using prev_pos [OF Suc.prems(1,2)] by blast
  show ?case
  proof (cases i)
    case 0
    then have "iterate valid key val prev_it fuel it' = Done []" using p(2) Suc.prems(3) by (cases fuel) auto
    then show ?thesis using p(1) v c Suc.prems(2) 0 by (simp add: take_Suc_conv_app_nth)
  next
    case (Suc j)
    then have "iterate valid key val prev_it fuel it' = Done (rev (take (Suc j) kvs))"
      using Suc.IH [of j it'] p(2) Suc.prems by simp
    then show ?thesis using p(1) v c Suc.prems(2) Suc by (simp add: take_Suc_conv_app_nth [of "Suc j"])
  qed
qed simp

lemma both_ways:
  assumes "pos kvs 0 first" "kvs \<noteq> [] \<Longrightarrow> pos kvs (length kvs - 1) end_it" "kvs = [] \<Longrightarrow> \<not> valid end_it"
    and "Suc (length kvs) < fuel"
  shows "iterate valid key val next_it fuel first = Done kvs"
    and "iterate valid key val prev_it fuel end_it = Done (rev kvs)"
proof -
  show "iterate valid key val next_it fuel first = Done kvs" using forward [OF assms(1)] assms(4) by simp
  show "iterate valid key val prev_it fuel end_it = Done (rev kvs)"
  proof (cases "kvs = []")
    case True
    then show ?thesis using assms(3,4) by (cases fuel) auto
  next
    case False
    then show ?thesis using backward [OF assms(2)] assms(4) by simp
  qed
qed

end

subsection \<open>The whole interface\<close>

text \<open>
  The virtual functions of \<open>Iterator\<close>, as a record; an implementation is a value of it, and code that
  holds an \<open>Iterator*\<close> takes the record as a parameter.
\<close>

record 'it iterator_ops =
  op_valid :: "'it \<Rightarrow> bool"
  op_first :: "'it \<Rightarrow> 'it exec"
  op_last :: "'it \<Rightarrow> 'it exec"
  op_seek :: "slice \<Rightarrow> 'it \<Rightarrow> 'it exec"
  op_next :: "'it \<Rightarrow> 'it exec"
  op_prev :: "'it \<Rightarrow> 'it exec"
  op_key :: "'it \<Rightarrow> slice"
  op_value :: "'it \<Rightarrow> slice"
  op_status :: "'it \<Rightarrow> status"

text \<open>How many keys are before a target, and what makes this a position of the list.\<close>

definition keys_before :: "(slice \<Rightarrow> slice \<Rightarrow> int) \<Rightarrow> slice \<Rightarrow> pairs \<Rightarrow> nat" where
  "keys_before cmp t kvs = length (takeWhile (\<lambda>(k, v). cmp k t < 0) kvs)"

definition splits_at :: "(slice \<Rightarrow> slice \<Rightarrow> int) \<Rightarrow> slice \<Rightarrow> pairs \<Rightarrow> bool" where
  "splits_at cmp t kvs \<longleftrightarrow>
     (\<forall>i j. i \<le> j \<longrightarrow> j < length kvs \<longrightarrow> cmp (fst (kvs ! j)) t < 0 \<longrightarrow> cmp (fst (kvs ! i)) t < 0)"

lemma keys_before_le: "keys_before cmp t kvs \<le> length kvs"
  by (simp add: keys_before_def length_takeWhile_le)

lemma drop_keys_before: "drop (keys_before cmp t kvs) kvs = dropWhile (\<lambda>(k, v). cmp k t < 0) kvs"
  by (simp add: keys_before_def dropWhile_eq_drop)

lemma nth_before: "i < keys_before cmp t kvs \<Longrightarrow> cmp (fst (kvs ! i)) t < 0"
proof -
  assume i: "i < keys_before cmp t kvs"
  then have "kvs ! i = takeWhile (\<lambda>(k, v). cmp k t < 0) kvs ! i"
    by (simp add: keys_before_def takeWhile_nth)
  then show ?thesis using set_takeWhileD [OF nth_mem [OF i [unfolded keys_before_def]]] by (auto split: prod.splits)
qed

lemma nth_not_before: "keys_before cmp t kvs < length kvs \<Longrightarrow> 0 \<le> cmp (fst (kvs ! keys_before cmp t kvs)) t"
  using nth_length_takeWhile [of "\<lambda>(k, v). cmp k t < 0" kvs] by (auto simp: keys_before_def split: prod.splits)

lemma keys_beforeI:
  assumes "m \<le> length kvs" "\<And>i. i < m \<Longrightarrow> cmp (fst (kvs ! i)) t < 0"
    and "m < length kvs \<Longrightarrow> 0 \<le> cmp (fst (kvs ! m)) t"
  shows "keys_before cmp t kvs = m"
proof (rule antisym)
  show "m \<le> keys_before cmp t kvs"
  proof (rule ccontr)
    assume "\<not> m \<le> keys_before cmp t kvs"
    then have "keys_before cmp t kvs < m" by simp
    with assms(1) assms(2) [OF this] nth_not_before [of cmp t kvs] show False by linarith
  qed
  show "keys_before cmp t kvs \<le> m"
  proof (rule ccontr)
    assume "\<not> keys_before cmp t kvs \<le> m"
    then have "m < keys_before cmp t kvs" by simp
    with assms(3) nth_before [OF this] keys_before_le [of cmp t kvs] show False by linarith
  qed
qed

text \<open>
  The contract of an iterator over a list: \<open>on\<close> says that the iterator belongs to the list, wherever
  it stands; \<open>pos\<close> that it stands at a position (past the end when it is not valid).
\<close>

locale seek_iterator = two_way_cursor "op_valid I" "op_key I" "op_value I" "op_next I" pos "op_prev I"
    for I :: "'it iterator_ops" and pos :: "pairs \<Rightarrow> nat \<Rightarrow> 'it \<Rightarrow> bool" +
  fixes on :: "pairs \<Rightarrow> 'it \<Rightarrow> bool" and cmp :: "slice \<Rightarrow> slice \<Rightarrow> int" and ok_key :: "slice \<Rightarrow> bool"
  assumes pos_on: "pos kvs i it \<Longrightarrow> on kvs it"
    and prev_end: "pos kvs 0 it \<Longrightarrow> kvs \<noteq> [] \<Longrightarrow> op_prev I it = Done it' \<Longrightarrow> pos kvs (length kvs) it'"
    and first_pos: "on kvs it \<Longrightarrow> \<exists>it'. op_first I it = Done it' \<and> pos kvs 0 it'"
    and last_pos: "on kvs it \<Longrightarrow> \<exists>it'. op_last I it = Done it' \<and> pos kvs (length kvs - 1) it'"
    and seek_pos: "on kvs it \<Longrightarrow> ok_key t \<Longrightarrow> splits_at cmp t kvs \<Longrightarrow>
      \<exists>it'. op_seek I t it = Done it' \<and> pos kvs (keys_before cmp t kvs) it'"
    and status_on: "on kvs it \<Longrightarrow> op_status I it = OK"
begin

lemma prev_step:
  assumes "pos kvs i it" "i < length kvs"
  shows "\<exists>it'. op_prev I it = Done it' \<and> pos kvs (if i = 0 then length kvs else i - 1) it'"
  using prev_pos [OF assms] prev_end [of kvs it] assms by (cases "i = 0") auto

lemma scans:
  assumes "on kvs it" "Suc (length kvs) < fuel"
  shows "exec_bind (op_first I it) (iterate (op_valid I) (op_key I) (op_value I) (op_next I) fuel) = Done kvs"
    and "exec_bind (op_last I it) (iterate (op_valid I) (op_key I) (op_value I) (op_prev I) fuel) = Done (rev kvs)"
proof -
  obtain f e where f: "op_first I it = Done f" "pos kvs 0 f" and e: "op_last I it = Done e" "pos kvs (length kvs - 1) e"
    using first_pos [OF assms(1)] last_pos [OF assms(1)] by blast
  have "kvs = [] \<Longrightarrow> \<not> op_valid I e" using valid_iff [OF e(2)] by simp
  with both_ways [OF f(2) e(2) _ assms(2)] f(1) e(1)
  show "exec_bind (op_first I it) (iterate (op_valid I) (op_key I) (op_value I) (op_next I) fuel) = Done kvs"
    "exec_bind (op_last I it) (iterate (op_valid I) (op_key I) (op_value I) (op_prev I) fuel) = Done (rev kvs)"
    by simp_all
qed

lemma seek_scan:
  assumes "on kvs it" "ok_key t" "splits_at cmp t kvs" "length kvs < fuel"
  shows "exec_bind (op_seek I t it) (iterate (op_valid I) (op_key I) (op_value I) (op_next I) fuel) =
    Done (dropWhile (\<lambda>(k, v). cmp k t < 0) kvs)"
proof -
  obtain s where "op_seek I t it = Done s" "pos kvs (keys_before cmp t kvs) s"
    using seek_pos [OF assms(1-3)] by blast
  with forward [of kvs "keys_before cmp t kvs" s fuel] assms(4) show ?thesis by (simp add: drop_keys_before)
qed

end

end
