(* ===== verification/Ldb_Skiplist.thy ===== *)
theory Ldb_Skiplist
  imports Ldb_Iterator
begin

text \<open>
  The skip list of the memtable (\<open>db/skiplist.h\<close>) and the random numbers that choose the heights
  (\<open>util/random.h\<close>). A node is an index into the list of all nodes, 0 is \<open>head_\<close>, \<open>NULL\<close> is
  \<open>None\<close>; \<open>nd_next\<close> has one link for each level of the node. A link read outside that array or
  through a dangling node is \<open>Undefined\<close>. The searches take as many turns as the list has nodes
  and levels. One thread at a time: readers beside a writer are not modelled.
\<close>

subsection \<open>Random numbers\<close>

definition Random :: "u32 \<Rightarrow> u32" where
  "Random s = (let seed = s AND 0x7fffffff in if seed = 0 \<or> seed = 2147483647 then 1 else seed)"

definition Random_Next :: "u32 \<Rightarrow> u32" where
  "Random_Next seed =
     (let M = 2147483647 :: u32;
          product = ucast seed * 16807 :: u64;
          seed = ucast (drop_bit 31 product + (product AND ucast M))
      in if M < seed then seed - M else seed)"

definition Uniform :: "u32 \<Rightarrow> u32 \<Rightarrow> u32 \<times> u32" where
  "Uniform n seed = (let r = Random_Next seed in (r mod n, r))"

definition OneIn :: "u32 \<Rightarrow> u32 \<Rightarrow> bool \<times> u32" where
  "OneIn n seed = (let r = Random_Next seed in (r mod n = 0, r))"

definition Skewed :: "u32 \<Rightarrow> u32 \<Rightarrow> u32 \<times> u32" where
  "Skewed max_log seed = (case Uniform (max_log + 1) seed of (base, seed) \<Rightarrow> Uniform (push_bit (unat base) 1) seed)"

subsection \<open>Nodes\<close>

record 'k node =
  nd_key :: 'k
  nd_next :: "nat option list"

record 'k skip_list =
  sl_nodes :: "'k node list"
  sl_max_height :: nat
  sl_rnd :: u32

definition kMaxHeight :: nat where "kMaxHeight = 12"

definition Next :: "'k skip_list \<Rightarrow> nat \<Rightarrow> nat \<Rightarrow> nat option exec" where
  "Next sl n x =
     (if x < length (sl_nodes sl) \<and> n < length (nd_next (sl_nodes sl ! x))
      then Done (nd_next (sl_nodes sl ! x) ! n) else Undefined)"

definition SetNext :: "nat \<Rightarrow> nat \<Rightarrow> nat option \<Rightarrow> 'k skip_list \<Rightarrow> 'k skip_list exec" where
  "SetNext n x p sl =
     (if x < length (sl_nodes sl) \<and> n < length (nd_next (sl_nodes sl ! x))
      then Done (sl\<lparr>sl_nodes := (sl_nodes sl)[x := (sl_nodes sl ! x)\<lparr>nd_next := (nd_next (sl_nodes sl ! x))[n := p]\<rparr>]\<rparr>)
      else Undefined)"

definition node_key :: "'k skip_list \<Rightarrow> nat \<Rightarrow> 'k exec" where
  "node_key sl x = (if x < length (sl_nodes sl) then Done (nd_key (sl_nodes sl ! x)) else Undefined)"

text \<open>The new node's links are not initialised; \<open>Insert\<close> sets them all.\<close>

definition NewNode :: "'k \<Rightarrow> nat \<Rightarrow> 'k skip_list \<Rightarrow> nat \<times> 'k skip_list" where
  "NewNode key height sl =
     (length (sl_nodes sl), sl\<lparr>sl_nodes := sl_nodes sl @ [\<lparr>nd_key = key, nd_next = replicate height None\<rparr>]\<rparr>)"

definition SkipList :: "'k \<Rightarrow> 'k skip_list" where
  "SkipList any_key =
     \<lparr>sl_nodes = [\<lparr>nd_key = any_key, nd_next = replicate kMaxHeight None\<rparr>], sl_max_height = 1,
      sl_rnd = Random 0xdeadbeef\<rparr>"

text \<open>\<open>n\<close> is the number of turns left, \<open>kMaxHeight - height\<close>.\<close>

fun random_height :: "nat \<Rightarrow> nat \<Rightarrow> u32 \<Rightarrow> nat \<times> u32" where
  "random_height 0 height rnd = (height, rnd)"
| "random_height (Suc n) height rnd =
     (let r = Random_Next rnd in if r mod 4 = 0 then random_height n (height + 1) r else (height, r))"

definition RandomHeight :: "'k skip_list \<Rightarrow> nat \<times> 'k skip_list" where
  "RandomHeight sl =
     (case random_height (kMaxHeight - 1) 1 (sl_rnd sl) of (height, rnd) \<Rightarrow> (height, sl\<lparr>sl_rnd := rnd\<rparr>))"

subsection \<open>Searching\<close>

definition KeyIsAfterNode :: "('k \<Rightarrow> 'k \<Rightarrow> int) \<Rightarrow> 'k skip_list \<Rightarrow> 'k \<Rightarrow> nat option \<Rightarrow> bool exec" where
  "KeyIsAfterNode cmp sl key n =
     (case n of None \<Rightarrow> Done False | Some x \<Rightarrow> exec_bind (node_key sl x) (\<lambda>k. Done (cmp k key < 0)))"

text \<open>\<open>prevs\<close> is the caller's array; the empty list stands for \<open>NULL\<close>.\<close>

fun find_ge :: "nat \<Rightarrow> ('k \<Rightarrow> 'k \<Rightarrow> int) \<Rightarrow> 'k skip_list \<Rightarrow> 'k \<Rightarrow> nat \<Rightarrow> nat \<Rightarrow> nat option list \<Rightarrow>
    (nat option \<times> nat option list) exec" where
  "find_ge 0 cmp sl key x level prevs = Out_of_fuel"
| "find_ge (Suc fuel) cmp sl key x level prevs =
     exec_bind (Next sl level x) (\<lambda>nxt.
     exec_bind (KeyIsAfterNode cmp sl key nxt) (\<lambda>after.
       if after then find_ge fuel cmp sl key (the nxt) level prevs
       else
         let prevs = prevs[level := Some x]
         in if level = 0 then Done (nxt, prevs) else find_ge fuel cmp sl key x (level - 1) prevs))"

definition search_fuel :: "'k skip_list \<Rightarrow> nat" where
  "search_fuel sl = length (sl_nodes sl) + sl_max_height sl"

definition FindGreaterOrEqual ::
    "('k \<Rightarrow> 'k \<Rightarrow> int) \<Rightarrow> 'k skip_list \<Rightarrow> 'k \<Rightarrow> nat option list \<Rightarrow> (nat option \<times> nat option list) exec" where
  "FindGreaterOrEqual cmp sl key prevs = find_ge (search_fuel sl) cmp sl key 0 (sl_max_height sl - 1) prevs"

text \<open>\<open>stop\<close>: whether the next node is not to be taken.\<close>

fun find_last_before :: "nat \<Rightarrow> (nat option \<Rightarrow> bool exec) \<Rightarrow> 'k skip_list \<Rightarrow> nat \<Rightarrow> nat \<Rightarrow> nat exec" where
  "find_last_before 0 stop sl x level = Out_of_fuel"
| "find_last_before (Suc fuel) stop sl x level =
     exec_bind (Next sl level x) (\<lambda>nxt.
     exec_bind (stop nxt) (\<lambda>st.
       if st then (if level = 0 then Done x else find_last_before fuel stop sl x (level - 1))
       else find_last_before fuel stop sl (the nxt) level))"

definition FindLessThan :: "('k \<Rightarrow> 'k \<Rightarrow> int) \<Rightarrow> 'k skip_list \<Rightarrow> 'k \<Rightarrow> nat exec" where
  "FindLessThan cmp sl key =
     find_last_before (search_fuel sl)
       (\<lambda>nxt. case nxt of None \<Rightarrow> Done True | Some x \<Rightarrow> exec_bind (node_key sl x) (\<lambda>k. Done (0 \<le> cmp k key)))
       sl 0 (sl_max_height sl - 1)"

definition FindLast :: "'k skip_list \<Rightarrow> nat exec" where
  "FindLast sl = find_last_before (search_fuel sl) (\<lambda>nxt. Done (nxt = None)) sl 0 (sl_max_height sl - 1)"

definition Contains :: "('k \<Rightarrow> 'k \<Rightarrow> int) \<Rightarrow> 'k skip_list \<Rightarrow> 'k \<Rightarrow> bool exec" where
  "Contains cmp sl key =
     exec_bind (FindGreaterOrEqual cmp sl key []) (\<lambda>(x, _).
       case x of None \<Rightarrow> Done False | Some n \<Rightarrow> exec_bind (node_key sl n) (\<lambda>k. Done (cmp key k = 0)))"

subsection \<open>Inserting\<close>

fun link_levels :: "nat \<Rightarrow> nat option list \<Rightarrow> nat list \<Rightarrow> 'k skip_list \<Rightarrow> 'k skip_list exec" where
  "link_levels x prevs [] sl = Done sl"
| "link_levels x prevs (i # is) sl =
     (case prevs ! i of
        None \<Rightarrow> Undefined
      | Some p \<Rightarrow>
          exec_bind (Next sl i p) (\<lambda>q.
          exec_bind (SetNext i x q sl) (\<lambda>sl.
          exec_bind (SetNext i p (Some x) sl) (link_levels x prevs is))))"

definition Insert :: "('k \<Rightarrow> 'k \<Rightarrow> int) \<Rightarrow> 'k \<Rightarrow> 'k skip_list \<Rightarrow> 'k skip_list exec" where
  "Insert cmp key sl =
     exec_bind (FindGreaterOrEqual cmp sl key (replicate kMaxHeight None)) (\<lambda>(_, prevs).
       case RandomHeight sl of (height, sl) \<Rightarrow>
         let (prevs, sl) =
           (if sl_max_height sl < height
            then (fold (\<lambda>i prevs. prevs[i := Some 0]) [sl_max_height sl..<height] prevs, sl\<lparr>sl_max_height := height\<rparr>)
            else (prevs, sl));
             (x, sl) = NewNode key height sl
         in link_levels x prevs [0..<height] sl)"

subsection \<open>The iterator\<close>

definition sl_Valid :: "nat option \<Rightarrow> bool" where "sl_Valid node \<longleftrightarrow> node \<noteq> None"

definition sl_Next :: "'k skip_list \<Rightarrow> nat option \<Rightarrow> nat option exec" where
  "sl_Next sl node = (case node of None \<Rightarrow> Undefined | Some x \<Rightarrow> Next sl 0 x)"

definition sl_Prev :: "('k \<Rightarrow> 'k \<Rightarrow> int) \<Rightarrow> 'k skip_list \<Rightarrow> nat option \<Rightarrow> nat option exec" where
  "sl_Prev cmp sl node =
     (case node of
        None \<Rightarrow> Undefined
      | Some x \<Rightarrow>
          exec_bind (node_key sl x) (\<lambda>k.
          exec_bind (FindLessThan cmp sl k) (\<lambda>y. Done (if y = 0 then None else Some y))))"

definition sl_Seek :: "('k \<Rightarrow> 'k \<Rightarrow> int) \<Rightarrow> 'k skip_list \<Rightarrow> 'k \<Rightarrow> nat option exec" where
  "sl_Seek cmp sl target = exec_bind (FindGreaterOrEqual cmp sl target []) (\<lambda>(x, _). Done x)"

definition sl_SeekToFirst :: "'k skip_list \<Rightarrow> nat option exec" where
  "sl_SeekToFirst sl = Next sl 0 0"

definition sl_SeekToLast :: "'k skip_list \<Rightarrow> nat option exec" where
  "sl_SeekToLast sl = exec_bind (FindLast sl) (\<lambda>y. Done (if y = 0 then None else Some y))"

end
