(* ===== verification/Ldb_Skiplist_Proofs.thy ===== *)
theory Ldb_Skiplist_Proofs
  imports Ldb_Skiplist
begin

text \<open>
  The skip list is a sorted list. Invariant: the nodes other than \<open>head_\<close>, in the order of the
  bottom level, have strictly increasing keys, and the chain of each level consists of exactly
  the nodes that are high enough, in the same order. The searches, the iterator and \<open>Insert\<close> are
  those of the sorted list.
\<close>

subsection \<open>Chains\<close>

text \<open>\<open>chain f x ys\<close>: the links \<open>f\<close> lead from \<open>x\<close> through \<open>ys\<close> to the end.\<close>

fun chain :: "(nat \<Rightarrow> nat option exec) \<Rightarrow> nat \<Rightarrow> nat list \<Rightarrow> bool" where
  "chain f x [] \<longleftrightarrow> f x = Done None"
| "chain f x (y # ys) \<longleftrightarrow> f x = Done (Some y) \<and> chain f y ys"

definition first :: "nat list \<Rightarrow> nat option" where
  "first ys = (case ys of [] \<Rightarrow> None | y # _ \<Rightarrow> Some y)"

lemma first_simps [simp]: "first [] = None" "first (y # ys) = Some y"
  by (simp_all add: first_def)

lemma chain_first: "chain f x ys \<Longrightarrow> f x = Done (first ys)"
  by (cases ys) simp_all

lemma chain_suffix: "chain f x (ps @ y # qs) \<Longrightarrow> chain f y qs"
  by (induction ps arbitrary: x) auto

lemma chain_cong: "(\<And>y. y \<in> insert x (set ys) \<Longrightarrow> f y = g y) \<Longrightarrow> chain f x ys = chain g x ys"
  by (induction ys arbitrary: x) simp_all

lemma chain_upd: "u \<notin> insert x (set ys) \<Longrightarrow> chain (f(u := v)) x ys = chain f x ys"
  by (rule chain_cong) auto

lemma chain_insert:
  assumes "chain f x (ys @ zs)" "distinct (x # ys @ zs)" "n \<notin> set (x # ys @ zs)"
  defines "p \<equiv> last (x # ys)"
  shows "chain (f(n := f p, p := Done (Some n))) x (ys @ n # zs)"
  using assms(1-3) unfolding p_def
proof (induction ys arbitrary: x)
  case Nil
  have "chain (f(n := f x, x := Done (Some n))) n zs \<longleftrightarrow> chain (f(n := f x)) n zs"
    by (rule chain_upd) (use Nil in auto)
  also have "chain (f(n := f x)) n zs"
    using Nil chain_upd [of n _ _ f] by (cases zs) auto
  finally have "chain (f(n := f x, x := Done (Some n))) n zs" .
  moreover have "(f(n := f x, x := Done (Some n))) x = Done (Some n)" by simp
  ultimately show ?case by (simp only: append_Nil chain.simps last.simps simp_thms if_True)
next
  case (Cons y ys)
  let ?p = "last (y # ys)"
  have "chain (f(n := f ?p, ?p := Done (Some n))) y (ys @ n # zs)"
    by (rule Cons.IH) (use Cons.prems in simp_all)
  moreover have "x \<noteq> ?p" "x \<noteq> n" "f x = Done (Some y)"
    using Cons.prems last_in_set [of "y # ys"] by auto
  then have "(f(n := f ?p, ?p := Done (Some n))) x = Done (Some y)" by simp
  moreover have "last (x # y # ys) = ?p" by simp
  ultimately show ?case by (simp only: append_Cons chain.simps simp_thms)
qed

subsection \<open>The invariant\<close>

definition node_height :: "'k skip_list \<Rightarrow> nat \<Rightarrow> nat" where "node_height sl x = length (nd_next (sl_nodes sl ! x))"

definition key_at :: "'k skip_list \<Rightarrow> nat \<Rightarrow> 'k" where "key_at sl x = nd_key (sl_nodes sl ! x)"

definition tower :: "'k skip_list \<Rightarrow> nat \<Rightarrow> nat list \<Rightarrow> nat list" where
  "tower sl l xs = filter (\<lambda>x. l < node_height sl x) xs"

lemma tower_simps [simp]:
  "tower sl l [] = []" "tower sl l (xs @ ys) = tower sl l xs @ tower sl l ys"
  "tower sl l (x # xs) = (if l < node_height sl x then x # tower sl l xs else tower sl l xs)"
  by (simp_all add: tower_def)

definition shape :: "'k skip_list \<Rightarrow> nat list \<Rightarrow> bool" where
  "shape sl xs \<longleftrightarrow> sl_nodes sl \<noteq> [] \<and> node_height sl 0 = kMaxHeight \<and>
     1 \<le> sl_max_height sl \<and> sl_max_height sl \<le> kMaxHeight \<and>
     distinct xs \<and> set xs = {1..<length (sl_nodes sl)} \<and>
     (\<forall>x \<in> set xs. 1 \<le> node_height sl x \<and> node_height sl x \<le> sl_max_height sl)"

definition linked :: "'k skip_list \<Rightarrow> nat list \<Rightarrow> bool" where
  "linked sl xs \<longleftrightarrow> (\<forall>l < kMaxHeight. chain (Next sl l) 0 (tower sl l xs))"

lemma shape_no_head: "shape sl xs \<Longrightarrow> 0 \<notin> set xs"
  by (simp add: shape_def)

lemma key_at_node: "shape sl xs \<Longrightarrow> x \<in> set xs \<Longrightarrow> node_key sl x = Done (key_at sl x)"
  by (simp add: shape_def node_key_def key_at_def)

lemma tower_0: "shape sl xs \<Longrightarrow> set ys \<subseteq> set xs \<Longrightarrow> tower sl 0 ys = ys"
  by (auto simp: shape_def tower_def filter_id_conv subset_iff Suc_le_eq)

lemma length_shape: "shape sl xs \<Longrightarrow> length (sl_nodes sl) = Suc (length xs)"
proof -
  assume s: "shape sl xs"
  then have "distinct xs" "set xs = {1..<length (sl_nodes sl)}" by (simp_all add: shape_def)
  then have "length xs = card {1..<length (sl_nodes sl)}" by (metis distinct_card)
  also have "\<dots> = length (sl_nodes sl) - 1" by simp
  finally have "length (sl_nodes sl) - 1 = length xs" ..
  moreover have "0 < length (sl_nodes sl)" using s by (simp add: shape_def)
  ultimately show ?thesis by linarith
qed

subsection \<open>Searching\<close>

text \<open>
  The searcher stands at \<open>x\<close>, which is \<open>head_\<close> or a node of \<open>before\<close>; \<open>rest\<close> is what \<open>before\<close> has
  after \<open>x\<close>.
\<close>

definition at_node :: "nat list \<Rightarrow> nat \<Rightarrow> nat list \<Rightarrow> bool" where
  "at_node before x rest \<longleftrightarrow> x = 0 \<and> rest = before \<or> (\<exists>us. before = us @ x # rest)"

lemma chain_at:
  assumes "linked sl (before @ after)" "at_node before x rest" "x = 0 \<or> l < node_height sl x" "l < kMaxHeight"
    and "0 \<notin> set before"
  shows "chain (Next sl l) x (tower sl l (rest @ after))"
proof -
  have c: "chain (Next sl l) 0 (tower sl l (before @ after))" using assms(1,4) by (simp add: linked_def)
  from assms(2) consider "x = 0" "rest = before" | us where "before = us @ x # rest"
    by (auto simp: at_node_def)
  then show ?thesis
  proof cases
    case 1
    with c show ?thesis by simp
  next
    case (2 us)
    then have "l < node_height sl x" using assms(3,5) by auto
    then show ?thesis using c chain_suffix [of "Next sl l" 0 "tower sl l us" x] 2 by simp
  qed
qed


definition pred_at :: "'k skip_list \<Rightarrow> nat \<Rightarrow> nat list \<Rightarrow> nat" where
  "pred_at sl l before = last (0 # tower sl l before)"

lemma pred_at_node:
  assumes "at_node before x rest" "tower sl l rest = []" "x = 0 \<or> l < node_height sl x" "0 \<notin> set before"
  shows "pred_at sl l before = x"
proof -
  from assms(1) consider "x = 0" "rest = before" | us where "before = us @ x # rest"
    by (auto simp: at_node_def)
  then show ?thesis
  proof cases
    case (2 us)
    then have "l < node_height sl x" using assms(3,4) by auto
    with 2 assms(2) show ?thesis by (simp add: pred_at_def)
  qed (use assms(2) in \<open>simp add: pred_at_def\<close>)
qed

lemma tower_Cons_split:
  "tower sl l rest = y # ys \<Longrightarrow> \<exists>us rest'. rest = us @ y # rest' \<and> l < node_height sl y"
  unfolding tower_def by (metis filter_eq_ConsD)

lemma at_node_step: "at_node before x rest \<Longrightarrow> rest = us @ y # rest' \<Longrightarrow> at_node before y rest'"
  unfolding at_node_def by (elim disjE exE) (metis append_Cons append_assoc)+

lemma at_node_start: "at_node before 0 before"
  by (simp add: at_node_def)

text \<open>One turn: the next node is one of \<open>before\<close>, or the search at this level is over.\<close>

lemma search_step:
  assumes "linked sl (before @ after)" "at_node before x rest" "x = 0 \<or> l < node_height sl x" "l < kMaxHeight"
    and "0 \<notin> set before"
  obtains (go) y rest' where "Next sl l x = Done (Some y)" "y \<in> set before" "at_node before y rest'"
      "length rest' < length rest" "l < node_height sl y"
    | (down) "Next sl l x = Done (first (tower sl l after))" "pred_at sl l before = x"
proof -
  note c = chain_at [OF assms]
  show thesis
  proof (cases "tower sl l rest")
    case Nil
    then show thesis using chain_first [OF c] down pred_at_node [OF assms(2) Nil assms(3,5)] by simp
  next
    case (Cons y ys)
    then obtain us rest' where r: "rest = us @ y # rest'" "l < node_height sl y" using tower_Cons_split by metis
    have a: "at_node before y rest'" using at_node_step [OF assms(2) r(1)] .
    have y: "y \<in> set before" using assms(2) r(1) by (auto simp: at_node_def)
    have "Next sl l x = Done (Some y)" using chain_first [OF c] by (simp add: Cons)
    with a y r show thesis using go [of y rest'] by simp
  qed
qed

lemma find_ge_spec:
  assumes "shape sl (before @ after)" "linked sl (before @ after)"
    and before: "\<forall>y \<in> set before. cmp (key_at sl y) key < 0"
    and after: "\<forall>y \<in> set after. \<not> cmp (key_at sl y) key < 0"
  shows "at_node before x rest \<Longrightarrow> x = 0 \<or> l < node_height sl x \<Longrightarrow> l < kMaxHeight \<Longrightarrow>
      length rest + l < fuel \<Longrightarrow>
    find_ge fuel cmp sl key x l prevs = Done (first after,
      map (\<lambda>i. if i \<le> l then Some (pred_at sl i before) else prevs ! i) [0..<length prevs])"
proof (induction fuel arbitrary: x rest l prevs)
  case (Suc fuel)
  have z: "0 \<notin> set before" using shape_no_head [OF assms(1)] by simp
  have key: "node_key sl y = Done (key_at sl y)" if "y \<in> set (before @ after)" for y
    using key_at_node [OF assms(1) that] .
  show ?case
  proof (rule search_step [OF assms(2) Suc.prems(1-3) z], goal_cases go down)
    case (go y rest')
    then have "KeyIsAfterNode cmp sl key (Some y) = Done True"
      using key before by (simp add: KeyIsAfterNode_def)
    with Suc.IH [of y rest' l prevs] go Suc.prems(3,4) show ?case by simp
  next
    case down
    have "tower sl l after = [] \<or> (\<exists>y ys. tower sl l after = y # ys \<and> y \<in> set after)"
      using tower_Cons_split [of sl l after] by (cases "tower sl l after") auto
    then have k: "KeyIsAfterNode cmp sl key (first (tower sl l after)) = Done False"
      using key after by (auto simp: KeyIsAfterNode_def)
    show ?case
    proof (cases l)
      case 0
      have "tower sl 0 after = after" by (rule tower_0 [OF assms(1)]) simp
      moreover have "prevs[0 := Some x] =
          map (\<lambda>i. if i \<le> 0 then Some (pred_at sl i before) else prevs ! i) [0..<length prevs]"
        using down(2) 0 by (intro nth_equalityI) (auto simp: nth_list_update)
      ultimately show ?thesis using down(1) k 0 by simp
    next
      case (Suc m)
      have "map (\<lambda>i. if i \<le> m then Some (pred_at sl i before) else prevs[l := Some x] ! i) [0..<length prevs] =
          map (\<lambda>i. if i \<le> l then Some (pred_at sl i before) else prevs ! i) [0..<length prevs]"
        using down(2) Suc by (intro map_cong) (auto simp: nth_list_update le_Suc_eq)
      then show ?thesis
        using Suc.IH [of x rest m "prevs[l := Some x]"] Suc.prems down(1) k Suc by auto
    qed
  qed
qed simp

lemma fuel_enough:
  assumes "shape sl (before @ after)"
  shows "length before + (sl_max_height sl - 1) < search_fuel sl" "sl_max_height sl - 1 < kMaxHeight"
  using assms length_shape [OF assms] by (auto simp: search_fuel_def shape_def kMaxHeight_def)

lemma FindGreaterOrEqual_spec:
  assumes "shape sl (before @ after)" "linked sl (before @ after)"
    and "\<forall>y \<in> set before. cmp (key_at sl y) key < 0" "\<forall>y \<in> set after. \<not> cmp (key_at sl y) key < 0"
  shows "FindGreaterOrEqual cmp sl key prevs = Done (first after,
    map (\<lambda>i. if i < sl_max_height sl then Some (pred_at sl i before) else prevs ! i) [0..<length prevs])"
proof -
  have "1 \<le> sl_max_height sl" using assms(1) by (simp add: shape_def)
  then have m: "i \<le> sl_max_height sl - 1 \<longleftrightarrow> i < sl_max_height sl" for i by linarith
  show ?thesis
    using find_ge_spec [where cmp = cmp and key = key, OF assms at_node_start [of before] _ fuel_enough(2) [OF assms(1)] fuel_enough(1) [OF assms(1)]]
    unfolding FindGreaterOrEqual_def m by simp
qed

lemma find_last_before_spec:
  assumes "shape sl (before @ after)" "linked sl (before @ after)"
    and "\<forall>y \<in> set before. stop (Some y) = Done False"
    and "stop None = Done True" "\<forall>y \<in> set after. stop (Some y) = Done True"
  shows "at_node before x rest \<Longrightarrow> x = 0 \<or> l < node_height sl x \<Longrightarrow> l < kMaxHeight \<Longrightarrow>
      length rest + l < fuel \<Longrightarrow> find_last_before fuel stop sl x l = Done (last (0 # before))"
proof (induction fuel arbitrary: x rest l)
  case (Suc fuel)
  have z: "0 \<notin> set before" using shape_no_head [OF assms(1)] by simp
  show ?case
  proof (rule search_step [OF assms(2) Suc.prems(1-3) z], goal_cases go down)
    case (go y rest')
    with Suc.IH [of y rest' l] assms(3) Suc.prems(3,4) show ?case by simp
  next
    case down
    have "tower sl l after = [] \<or> (\<exists>y ys. tower sl l after = y # ys \<and> y \<in> set after)"
      using tower_Cons_split [of sl l after] by (cases "tower sl l after") auto
    then have k: "stop (first (tower sl l after)) = Done True" using assms(4,5) by auto
    show ?case
    proof (cases l)
      case 0
      have "tower sl 0 before = before" by (rule tower_0 [OF assms(1)]) simp
      then show ?thesis using down k 0 by (simp add: pred_at_def)
    next
      case (Suc m)
      then show ?thesis using Suc.IH [of x rest m] Suc.prems down(1) k by auto
    qed
  qed
qed simp


lemma FindLessThan_spec:
  assumes "shape sl (before @ after)" "linked sl (before @ after)"
    and "\<forall>y \<in> set before. cmp (key_at sl y) key < 0" "\<forall>y \<in> set after. \<not> cmp (key_at sl y) key < 0"
  shows "FindLessThan cmp sl key = Done (last (0 # before))"
  unfolding FindLessThan_def
proof (rule find_last_before_spec [OF assms(1,2) _ _ _ at_node_start [of before] _ fuel_enough(2,1) [OF assms(1)]])
qed (use assms(3,4) key_at_node [OF assms(1)] in auto)

lemma FindLast_spec:
  assumes "shape sl xs" "linked sl xs"
  shows "FindLast sl = Done (last (0 # xs))"
  unfolding FindLast_def
proof (rule find_last_before_spec [of sl xs "[]", OF _ _ _ _ _ at_node_start [of xs]])
qed (use assms fuel_enough [of sl xs "[]"] in auto)

subsection \<open>Inserting\<close>

lemma random_height_range:
  "random_height n h rnd = (h1, rnd1) \<Longrightarrow> h \<le> h1 \<and> h1 \<le> h + n"
  by (induction n h rnd rule: random_height.induct) (auto simp: Let_def split: if_splits)

lemma RandomHeight_range:
  "RandomHeight sl = (h, sl1) \<Longrightarrow> 1 \<le> h \<and> h \<le> kMaxHeight \<and> (\<exists>r. sl1 = sl\<lparr>sl_rnd := r\<rparr>)"
  using random_height_range [of "kMaxHeight - 1" 1 "sl_rnd sl"]
  by (auto simp: RandomHeight_def kMaxHeight_def split: prod.splits)

lemma Next_DoneD: "Next sl l x = Done p \<Longrightarrow> x < length (sl_nodes sl) \<and> l < node_height sl x"
  by (simp add: Next_def node_height_def split: if_splits)

lemma SetNext_ok:
  assumes "x < length (sl_nodes sl)" "l < node_height sl x"
  shows "\<exists>sl1. SetNext l x p sl = Done sl1 \<and> length (sl_nodes sl1) = length (sl_nodes sl) \<and>
    node_height sl1 = node_height sl \<and> key_at sl1 = key_at sl \<and> sl_max_height sl1 = sl_max_height sl \<and>
    Next sl1 l = (Next sl l)(x := Done p) \<and> (\<forall>m. m \<noteq> l \<longrightarrow> Next sl1 m = Next sl m)"
proof -
  let ?nd = "(sl_nodes sl ! x)\<lparr>nd_next := (nd_next (sl_nodes sl ! x))[l := p]\<rparr>"
  let ?sl1 = "sl\<lparr>sl_nodes := (sl_nodes sl)[x := ?nd]\<rparr>"
  have nth: "sl_nodes ?sl1 ! y = (if y = x then ?nd else sl_nodes sl ! y)" for y
    using assms(1) by (cases "y < length (sl_nodes sl)") (auto simp: nth_list_update)
  have "SetNext l x p sl = Done ?sl1" using assms by (simp add: SetNext_def node_height_def)
  moreover have "node_height ?sl1 = node_height sl" "key_at ?sl1 = key_at sl"
    unfolding node_height_def key_at_def nth by (auto simp: fun_eq_iff)
  moreover have "Next ?sl1 m y = (if m = l \<and> y = x then Done p else Next sl m y)" for m y
    using assms unfolding Next_def nth by (auto simp: node_height_def)
  ultimately show ?thesis by (intro exI [of _ ?sl1]) (auto simp: fun_eq_iff)
qed

text \<open>The state while the new node \<open>n\<close> is being linked: it is on the levels below \<open>i\<close>.\<close>

definition linking :: "nat \<Rightarrow> nat \<Rightarrow> nat \<Rightarrow> nat list \<Rightarrow> nat list \<Rightarrow> 'k skip_list \<Rightarrow> bool" where
  "linking n h i before after sl \<longleftrightarrow> n < length (sl_nodes sl) \<and> node_height sl n = h \<and>
     (\<forall>l < i. chain (Next sl l) 0 (tower sl l before @ n # tower sl l after)) \<and>
     (\<forall>l. i \<le> l \<longrightarrow> l < kMaxHeight \<longrightarrow> chain (Next sl l) 0 (tower sl l before @ tower sl l after))"

definition same_nodes :: "'k skip_list \<Rightarrow> 'k skip_list \<Rightarrow> bool" where
  "same_nodes sl sl1 \<longleftrightarrow> length (sl_nodes sl1) = length (sl_nodes sl) \<and> node_height sl1 = node_height sl \<and>
     key_at sl1 = key_at sl \<and> sl_max_height sl1 = sl_max_height sl"

lemma same_nodes_tower: "same_nodes sl sl1 \<Longrightarrow> tower sl1 l xs = tower sl l xs"
  by (simp add: same_nodes_def tower_def)

lemma chain_last: "chain f x (ys @ zs) \<Longrightarrow> f (last (x # ys)) = Done (first zs)"
proof (induction ys arbitrary: x)
  case Nil
  then show ?case by (simp add: chain_first)
qed auto

lemma link_level:
  assumes "linking n h i before after sl" "i < h" "h \<le> kMaxHeight"
    and "distinct (0 # before @ after)" "n \<notin> set (0 # before @ after)"
    and "prevs ! i = Some (last (0 # tower sl i before))"
  shows "\<exists>sl1. linking n h (Suc i) before after sl1 \<and> same_nodes sl sl1 \<and>
    link_levels n prevs (i # is) sl = link_levels n prevs is sl1"
proof -
  let ?p = "last (0 # tower sl i before)"
  have c: "chain (Next sl i) 0 (tower sl i before @ tower sl i after)" and n: "n < length (sl_nodes sl)" "i < node_height sl n"
    using assms(1-3) by (simp_all add: linking_def)
  obtain q where q: "Next sl i ?p = Done q" using chain_last [OF c] by blast
  note pd = Next_DoneD [OF q]
  obtain sl1 where s1: "SetNext i n q sl = Done sl1" "same_nodes sl sl1"
    "Next sl1 i = (Next sl i)(n := Done q)" "\<forall>m. m \<noteq> i \<longrightarrow> Next sl1 m = Next sl m"
    using SetNext_ok [OF n, of q] by (auto simp: same_nodes_def)
  have pd1: "?p < length (sl_nodes sl1)" "i < node_height sl1 ?p" using pd s1(2) by (simp_all add: same_nodes_def)
  obtain sl2 where s2: "SetNext i ?p (Some n) sl1 = Done sl2" "same_nodes sl1 sl2"
    "Next sl2 i = (Next sl1 i)(?p := Done (Some n))" "\<forall>m. m \<noteq> i \<longrightarrow> Next sl2 m = Next sl1 m"
    using SetNext_ok [OF pd1, of "Some n"] by (auto simp: same_nodes_def)
  have same: "same_nodes sl sl2" using s1(2) s2(2) by (simp add: same_nodes_def)
  have "distinct (0 # tower sl i before @ tower sl i after)" "n \<notin> set (0 # tower sl i before @ tower sl i after)"
    using assms(4,5) by (auto simp: tower_def)
  from chain_insert [OF c this] have "chain (Next sl2 i) 0 (tower sl i before @ n # tower sl i after)"
    unfolding s2(3) s1(3) q [symmetric] .
  moreover have "Next sl2 m = Next sl m" if "m \<noteq> i" for m using s1(4) s2(4) that by simp
  ultimately have "linking n h (Suc i) before after sl2"
    using assms(1) same unfolding linking_def same_nodes_tower [OF same]
    by (auto simp: same_nodes_def less_Suc_eq Suc_le_eq)
  moreover have "link_levels n prevs (i # is) sl = link_levels n prevs is sl2"
    using assms(6) q s1(1) s2(1) by simp
  ultimately show ?thesis using same by blast
qed

lemma link_levels_all:
  assumes "h \<le> kMaxHeight" "distinct (0 # before @ after)" "n \<notin> set (0 # before @ after)"
  shows "linking n h i before after sl \<Longrightarrow> i \<le> h \<Longrightarrow> \<forall>l < h. prevs ! l = Some (last (0 # tower sl l before)) \<Longrightarrow>
    \<exists>sl1. link_levels n prevs [i..<h] sl = Done sl1 \<and> linking n h h before after sl1 \<and> same_nodes sl sl1"
proof (induction "h - i" arbitrary: i sl)
  case 0
  then show ?case by (intro exI [of _ sl]) (simp add: same_nodes_def)
next
  case (Suc d)
  then have i: "i < h" "[i..<h] = i # [Suc i..<h]" by (simp_all add: upt_conv_Cons)
  obtain sl1 where s: "linking n h (Suc i) before after sl1" "same_nodes sl sl1"
    "link_levels n prevs (i # [Suc i..<h]) sl = link_levels n prevs [Suc i..<h] sl1"
    using link_level [OF Suc.prems(1) i(1) assms, of prevs "[Suc i..<h]"] Suc.prems(3) i(1) by blast
  have "\<forall>l < h. prevs ! l = Some (last (0 # tower sl1 l before))"
    using Suc.prems(3) same_nodes_tower [OF s(2)] by simp
  moreover have "d = h - Suc i" "Suc i \<le> h" using Suc.hyps(2) i(1) by linarith+
  ultimately obtain sl2 where
    "link_levels n prevs [Suc i..<h] sl1 = Done sl2" "linking n h h before after sl2" "same_nodes sl1 sl2"
    using Suc.hyps(1) [OF _ s(1)] by blast
  with s i(2) show ?case by (intro exI [of _ sl2]) (simp add: same_nodes_def)
qed


lemma nth_fold_update:
  "length (fold (\<lambda>i ps. ps[i := v]) is ps) = length ps \<and>
   (l < length ps \<longrightarrow> fold (\<lambda>i ps. ps[i := v]) is ps ! l = (if l \<in> set is then v else ps ! l))"
  by (induction "is" arbitrary: ps) (auto simp: nth_list_update)

lemma NewNode_facts:
  assumes "NewNode key h sl = (n, sl1)"
  shows "n = length (sl_nodes sl)" "length (sl_nodes sl1) = Suc n" "node_height sl1 n = h" "key_at sl1 n = key"
    "sl_max_height sl1 = sl_max_height sl"
    "y < n \<Longrightarrow> node_height sl1 y = node_height sl y" "y < n \<Longrightarrow> key_at sl1 y = key_at sl y"
    "y < n \<Longrightarrow> Next sl1 l y = Next sl l y"
  using assms by (auto simp: NewNode_def node_height_def key_at_def Next_def nth_append)

lemma shape_less: "shape sl xs \<Longrightarrow> y \<in> insert 0 (set xs) \<Longrightarrow> y < length (sl_nodes sl)"
  by (auto simp: shape_def)

lemma Insert_spec:
  assumes "shape sl (before @ after)" "linked sl (before @ after)"
    and "\<forall>y \<in> set before. cmp (key_at sl y) key < 0" "\<forall>y \<in> set after. \<not> cmp (key_at sl y) key < 0"
  defines "n \<equiv> length (sl_nodes sl)"
  shows "\<exists>sl1. Insert cmp key sl = Done sl1 \<and> shape sl1 (before @ n # after) \<and> linked sl1 (before @ n # after) \<and>
    key_at sl1 n = key \<and> (\<forall>y \<in> set (before @ after). key_at sl1 y = key_at sl y)"
proof -
  let ?m = "sl_max_height sl"
  obtain h r where R: "RandomHeight sl = (h, sl\<lparr>sl_rnd := r\<rparr>)" and h: "1 \<le> h" "h \<le> kMaxHeight"
    using RandomHeight_range [of sl] by (cases "RandomHeight sl") auto
  define ps where "ps = map (\<lambda>i. if i < ?m then Some (pred_at sl i before) else replicate kMaxHeight None ! i) [0..<kMaxHeight]"
  define qs where "qs = (if ?m < h then fold (\<lambda>i ps. ps[i := Some 0]) [?m..<h] ps else ps)"
  define sl0 where "sl0 = sl\<lparr>sl_rnd := r, sl_max_height := max ?m h\<rparr>"
  obtain sl1 where N: "NewNode key h sl0 = (n, sl1)" by (simp add: NewNode_def n_def sl0_def)
  note f = NewNode_facts [OF N]
  have s0: "node_height sl0 = node_height sl" "key_at sl0 = key_at sl" "Next sl0 = Next sl"
    by (simp_all add: sl0_def node_height_def key_at_def Next_def fun_eq_iff)
  have "FindGreaterOrEqual cmp sl key (replicate kMaxHeight None) = Done (first after, ps)"
    using FindGreaterOrEqual_spec [of sl before after cmp key "replicate kMaxHeight None"] assms(1-4)
    by (simp add: ps_def)
  then have I: "Insert cmp key sl = link_levels n qs [0..<h] sl1"
    using N by (auto simp: Insert_def R Let_def qs_def sl0_def max_def not_less)
  have lt: "y < n" if "y \<in> insert 0 (set (before @ after))" for y
    using shape_less [OF assms(1) that] by (simp add: n_def)
  have tw: "tower sl1 l ys = tower sl l ys" if "set ys \<subseteq> set (before @ after)" for l ys
    using that f(6) [OF lt] s0(1) unfolding tower_def by (intro filter_cong) auto
  have tws: "tower sl1 l before = tower sl l before" "tower sl1 l after = tower sl l after" for l
    using tw [of before] tw [of after] by simp_all
  have D: "distinct (0 # before @ after)" "n \<notin> set (0 # before @ after)"
    using assms(1) lt shape_no_head [OF assms(1)] by (auto simp: shape_def)
  have qs: "\<forall>l < h. qs ! l = Some (last (0 # tower sl1 l before))"
  proof (intro allI impI)
    fix l assume l: "l < h"
    then have lk: "l < kMaxHeight" using h by simp
    show "qs ! l = Some (last (0 # tower sl1 l before))"
    proof (cases "l < ?m")
      case True
      then have "qs ! l = ps ! l" using nth_fold_update [of "Some 0" "[?m..<h]" ps] lk by (simp add: qs_def ps_def)
      then show ?thesis using True lk by (simp add: ps_def pred_at_def tws)
    next
      case False
      then have "qs ! l = Some 0" using nth_fold_update [of "Some 0" "[?m..<h]" ps] l lk by (simp add: qs_def ps_def)
      moreover have "node_height sl y \<le> ?m" if "y \<in> set before" for y
        using assms(1) that unfolding shape_def set_append by blast
      then have "tower sl l before = []" using False by (force simp: tower_def filter_empty_conv)
      ultimately show ?thesis by (simp add: tws)
    qed
  qed
  have "chain (Next sl1 l) 0 (tower sl l (before @ after))" if "l < kMaxHeight" for l
  proof -
    have "chain (Next sl l) 0 (tower sl l (before @ after))" using assms(2) that by (simp add: linked_def)
    also have "chain (Next sl l) 0 (tower sl l (before @ after)) = chain (Next sl1 l) 0 (tower sl l (before @ after))"
      using f(8) [OF lt] by (intro chain_cong) (auto simp: s0(3) tower_def)
    finally show ?thesis .
  qed
  then have "linking n h 0 before after sl1" using f by (simp add: linking_def tws)
  from link_levels_all [OF h(2) D this _ qs] obtain sl2 where
    L: "link_levels n qs [0..<h] sl1 = Done sl2" "linking n h h before after sl2" and same: "same_nodes sl1 sl2"
    by auto
  have hn: "node_height sl2 n = h" "length (sl_nodes sl2) = Suc n" "sl_max_height sl2 = max ?m h" "key_at sl2 n = key"
    using same f by (simp_all add: same_nodes_def sl0_def)
  have old: "node_height sl2 y = node_height sl y" "key_at sl2 y = key_at sl y" if "y \<in> insert 0 (set (before @ after))" for y
    using same f(6,7) [OF lt [OF that]] s0 by (simp_all add: same_nodes_def)
  have "chain (Next sl2 l) 0 (tower sl2 l (before @ n # after))" if "l < kMaxHeight" for l
    using L(2) that hn(1) by (cases "l < h") (simp_all add: linking_def not_less)
  then have "linked sl2 (before @ n # after)" by (simp add: linked_def)
  moreover have "shape sl2 (before @ n # after)"
  proof -
    have "set (before @ after) = {1..<n}" using assms(1) by (simp add: shape_def n_def)
    moreover have "1 \<le> n" using lt [of 0] by simp
    ultimately have "set (before @ n # after) = {1..<Suc n}" by auto
    moreover have "\<forall>y \<in> set (before @ after). 1 \<le> node_height sl2 y \<and> node_height sl2 y \<le> max ?m h"
    proof
      fix y assume y: "y \<in> set (before @ after)"
      then have "1 \<le> node_height sl y \<and> node_height sl y \<le> ?m" using assms(1) unfolding shape_def by blast
      then show "1 \<le> node_height sl2 y \<and> node_height sl2 y \<le> max ?m h" using old(1) [of y] y by auto
    qed
    then have "\<forall>y \<in> set (before @ n # after). 1 \<le> node_height sl2 y \<and> node_height sl2 y \<le> max ?m h"
      using hn(1) h(1) by auto
    moreover have "sl_nodes sl2 \<noteq> []" using hn(2) by auto
    moreover have "node_height sl2 0 = kMaxHeight" "1 \<le> max ?m h" "max ?m h \<le> kMaxHeight"
      using assms(1) h old(1) [of 0] by (auto simp: shape_def)
    moreover have "distinct (before @ n # after)" using D by auto
    ultimately show ?thesis unfolding shape_def hn(2,3) by blast
  qed
  ultimately show ?thesis using I L(1) hn(4) old(2) by (intro exI [of _ sl2]) auto
qed


subsection \<open>The list as an ordered set of keys\<close>

text \<open>\<open>holds_keys\<close>: the skip list holds the keys \<open>ks\<close>, in this order, which is the comparator's.\<close>

definition holds_keys :: "('k \<Rightarrow> 'k \<Rightarrow> int) \<Rightarrow> ('k \<Rightarrow> bool) \<Rightarrow> 'k skip_list \<Rightarrow> nat list \<Rightarrow> 'k list \<Rightarrow> bool" where
  "holds_keys cmp valid sl xs ks \<longleftrightarrow> shape sl xs \<and> linked sl xs \<and> map (key_at sl) xs = ks \<and>
     (\<forall>k \<in> set ks. valid k) \<and> sorted_wrt (\<lambda>a b. cmp a b < 0) ks"

definition sl_holds :: "('k \<Rightarrow> 'k \<Rightarrow> int) \<Rightarrow> ('k \<Rightarrow> bool) \<Rightarrow> 'k skip_list \<Rightarrow> 'k list \<Rightarrow> bool" where
  "sl_holds cmp valid sl ks \<longleftrightarrow> (\<exists>xs. holds_keys cmp valid sl xs ks)"

text \<open>The position of an iterator: the node of the i-th key, or none after the end.\<close>

definition sl_pos :: "('k \<Rightarrow> 'k \<Rightarrow> int) \<Rightarrow> ('k \<Rightarrow> bool) \<Rightarrow> 'k skip_list \<Rightarrow> 'k list \<Rightarrow> nat \<Rightarrow> nat option \<Rightarrow> bool" where
  "sl_pos cmp valid sl ks i it \<longleftrightarrow> (\<exists>xs. holds_keys cmp valid sl xs ks \<and> i \<le> length ks \<and> it = first (drop i xs))"

lemma SkipList_holds: "sl_holds cmp valid (SkipList k) []"
proof -
  have "holds_keys cmp valid (SkipList k) [] []"
    by (auto simp: holds_keys_def shape_def linked_def SkipList_def node_height_def kMaxHeight_def Next_def)
  then show ?thesis by (auto simp: sl_holds_def)
qed

lemma first_drop: "i < length xs \<Longrightarrow> first (drop i xs) = Some (xs ! i)"
  by (simp add: Cons_nth_drop_Suc [symmetric])

lemma sl_pos_Valid: "sl_pos cmp valid sl ks i it \<Longrightarrow> sl_Valid it \<longleftrightarrow> i < length ks"
  by (cases "i < length ks") (auto simp: sl_pos_def sl_Valid_def holds_keys_def first_drop)

lemma sl_pos_key: "sl_pos cmp valid sl ks i it \<Longrightarrow> i < length ks \<Longrightarrow> \<exists>x. it = Some x \<and> key_at sl x = ks ! i \<and> node_key sl x = Done (ks ! i)"
  by (auto simp: sl_pos_def holds_keys_def first_drop key_at_node)

lemma linked_bottom: "shape sl xs \<Longrightarrow> linked sl xs \<Longrightarrow> chain (Next sl 0) 0 xs"
  using tower_0 [of sl xs xs] by (auto simp: linked_def kMaxHeight_def dest!: spec [of _ 0])

lemma sl_pos_Next:
  assumes "sl_pos cmp valid sl ks i it" "i < length ks"
  shows "\<exists>it1. sl_Next sl it = Done it1 \<and> sl_pos cmp valid sl ks (Suc i) it1"
proof -
  obtain xs where h: "holds_keys cmp valid sl xs ks" "i < length xs" "it = Some (xs ! i)"
    using assms by (auto simp: sl_pos_def holds_keys_def first_drop)
  then have s: "shape sl xs" "linked sl xs" by (simp_all add: holds_keys_def)
  have "chain (Next sl 0) 0 (take i xs @ xs ! i # drop (Suc i) xs)"
    using linked_bottom [OF s] h(2) by (simp add: id_take_nth_drop [symmetric])
  from chain_first [OF chain_suffix [OF this]] show ?thesis
    using h assms(2) by (auto simp: sl_Next_def sl_pos_def)
qed

lemma sl_SeekToFirst_pos: "sl_holds cmp valid sl ks \<Longrightarrow> \<exists>it. sl_SeekToFirst sl = Done it \<and> sl_pos cmp valid sl ks 0 it"
proof -
  assume "sl_holds cmp valid sl ks"
  then obtain xs where h: "holds_keys cmp valid sl xs ks" by (auto simp: sl_holds_def)
  then have s: "shape sl xs" "linked sl xs" by (simp_all add: holds_keys_def)
  from chain_first [OF linked_bottom [OF s]] show ?thesis using h by (auto simp: sl_SeekToFirst_def sl_pos_def)
qed

lemma last_position:
  assumes "holds_keys cmp valid sl xs ks" "i \<le> length xs"
  shows "if i = 0 then last (0 # take i xs) = 0
    else last (0 # take i xs) \<noteq> 0 \<and> sl_pos cmp valid sl ks (i - 1) (Some (last (0 # take i xs)))"
proof (cases i)
  case (Suc j)
  then have j: "j < length xs" "last (0 # take i xs) = xs ! j"
    using assms(2) by (simp_all add: take_Suc_conv_app_nth)
  moreover have "0 \<notin> set xs" using assms(1) shape_no_head by (auto simp: holds_keys_def)
  then have "xs ! j \<noteq> 0" using nth_mem [OF j(1)] by metis
  moreover have "length ks = length xs" using assms(1) by (auto simp: holds_keys_def)
  ultimately show ?thesis using assms(1) Suc by (auto simp: sl_pos_def first_drop)
qed simp

lemma sl_SeekToLast_pos:
  assumes "sl_holds cmp valid sl ks"
  shows "\<exists>it. sl_SeekToLast sl = Done it \<and> (if ks = [] then it = None else sl_pos cmp valid sl ks (length ks - 1) it)"
proof -
  obtain xs where h: "holds_keys cmp valid sl xs ks" using assms by (auto simp: sl_holds_def)
  then have "shape sl xs" "linked sl xs" and n: "length ks = length xs" by (auto simp: holds_keys_def)
  note l = FindLast_spec [OF this(1,2)] n
  show ?thesis
    using last_position [OF h order_refl] l
    by (cases "xs = []") (auto simp: sl_SeekToLast_def split: if_splits)
qed

text \<open>What the operations promise when the comparator is an order on the keys they are given.\<close>

locale skip_order =
  fixes cmp :: "'k \<Rightarrow> 'k \<Rightarrow> int" and valid :: "'k \<Rightarrow> bool"
  assumes cmp_swap: "valid a \<Longrightarrow> valid b \<Longrightarrow> cmp a b < 0 \<longleftrightarrow> 0 < cmp b a"
    and cmp_trans: "valid a \<Longrightarrow> valid b \<Longrightarrow> valid c \<Longrightarrow> cmp a b < 0 \<Longrightarrow> cmp b c \<le> 0 \<Longrightarrow> cmp a c < 0"
begin

lemma prefix_smaller:
  assumes "sorted_wrt (\<lambda>a b. cmp a b < 0) ks" "\<forall>k \<in> set ks. valid k" "valid key"
  shows "k \<in> set (dropWhile (\<lambda>k. cmp k key < 0) ks) \<Longrightarrow> \<not> cmp k key < 0"
  using assms(1,2)
proof (induction ks)
  case (Cons a ks)
  show ?case
  proof (cases "cmp a key < 0")
    case True
    then show ?thesis using Cons by simp
  next
    case False
    then have "k = a \<or> cmp a k < 0" "valid a" "valid k" using Cons.prems by auto
    moreover have "cmp a key < 0" if "cmp a k < 0" "cmp k key < 0"
      using cmp_trans [of a k key] that calculation assms(3) by linarith
    ultimately show ?thesis using False by blast
  qed
qed simp

lemma split_at:
  assumes "holds_keys cmp valid sl xs ks" "valid key"
  obtains before after where "xs = before @ after"
    "map (key_at sl) before = takeWhile (\<lambda>k. cmp k key < 0) ks"
    "map (key_at sl) after = dropWhile (\<lambda>k. cmp k key < 0) ks"
    "\<forall>y \<in> set before. cmp (key_at sl y) key < 0" "\<forall>y \<in> set after. \<not> cmp (key_at sl y) key < 0"
proof -
  let ?P = "\<lambda>k. cmp k key < 0"
  let ?b = "takeWhile (?P \<circ> key_at sl) xs" and ?a = "dropWhile (?P \<circ> key_at sl) xs"
  have ks: "ks = map (key_at sl) xs" "sorted_wrt (\<lambda>a b. cmp a b < 0) ks" "\<forall>k \<in> set ks. valid k"
    using assms(1) by (auto simp: holds_keys_def)
  have m: "map (key_at sl) ?b = takeWhile ?P ks" "map (key_at sl) ?a = dropWhile ?P ks"
    unfolding ks(1) takeWhile_map dropWhile_map by (rule refl)+
  have "\<forall>y \<in> set ?a. \<not> ?P (key_at sl y)"
  proof
    fix y assume "y \<in> set ?a"
    then have "key_at sl y \<in> set (dropWhile ?P ks)" unfolding m(2) [symmetric] by simp
    then show "\<not> ?P (key_at sl y)" by (rule prefix_smaller [OF ks(2,3) assms(2)])
  qed
  moreover have "\<forall>y \<in> set ?b. ?P (key_at sl y)" by (auto dest: set_takeWhileD)
  ultimately show thesis by (intro that [of ?b ?a] m) simp_all
qed

lemma Insert_holds:
  assumes "sl_holds cmp valid sl ks" "valid key" "\<forall>k \<in> set ks. cmp k key \<noteq> 0"
  shows "\<exists>sl1. Insert cmp key sl = Done sl1 \<and>
    sl_holds cmp valid sl1 (takeWhile (\<lambda>k. cmp k key < 0) ks @ key # dropWhile (\<lambda>k. cmp k key < 0) ks)"
proof -
  let ?P = "\<lambda>k. cmp k key < 0"
  obtain xs where h: "holds_keys cmp valid sl xs ks" using assms(1) by (auto simp: sl_holds_def)
  obtain before after where s: "xs = before @ after" "map (key_at sl) before = takeWhile ?P ks"
    "map (key_at sl) after = dropWhile ?P ks" "\<forall>y \<in> set before. ?P (key_at sl y)" "\<forall>y \<in> set after. \<not> ?P (key_at sl y)"
    using split_at [OF h assms(2)] by blast
  let ?n = "length (sl_nodes sl)"
  have "shape sl (before @ after)" "linked sl (before @ after)" using h s(1) by (simp_all add: holds_keys_def)
  from Insert_spec [where cmp = cmp and key = key, OF this s(4,5)] obtain sl1 where i: "Insert cmp key sl = Done sl1"
    "shape sl1 (before @ ?n # after)" "linked sl1 (before @ ?n # after)" "key_at sl1 ?n = key"
    "\<forall>y \<in> set (before @ after). key_at sl1 y = key_at sl y"
    by blast
  have ks: "sorted_wrt (\<lambda>a b. cmp a b < 0) ks" "\<forall>k \<in> set ks. valid k" using h by (simp_all add: holds_keys_def)
  have "map (key_at sl1) (before @ ?n # after) = takeWhile ?P ks @ key # dropWhile ?P ks"
    using i(4,5) s(2,3) by (auto simp: map_eq_conv [symmetric] cong: map_cong)
  moreover have "sorted_wrt (\<lambda>a b. cmp a b < 0) (takeWhile ?P ks @ key # dropWhile ?P ks)"
  proof -
    have "sorted_wrt (\<lambda>a b. cmp a b < 0) (takeWhile ?P ks @ dropWhile ?P ks)" using ks(1) by simp
    moreover have "cmp key k < 0" if "k \<in> set (dropWhile ?P ks)" for k
    proof -
      have "k \<in> set ks" "\<not> ?P k" using that prefix_smaller [OF ks assms(2) that] set_dropWhileD by fast+
      then show ?thesis using cmp_swap [OF assms(2), of k] assms(3) ks(2) by force
    qed
    moreover have "cmp k key < 0" if "k \<in> set (takeWhile ?P ks)" for k
      using that by (auto dest: set_takeWhileD)
    ultimately show ?thesis unfolding sorted_wrt_append sorted_wrt.simps set_simps by blast
  qed
  moreover have "\<forall>k \<in> set (takeWhile ?P ks @ key # dropWhile ?P ks). valid k"
    using ks(2) assms(2) by (auto dest: set_takeWhileD set_dropWhileD)
  ultimately have "holds_keys cmp valid sl1 (before @ ?n # after) (takeWhile ?P ks @ key # dropWhile ?P ks)"
    using i(2,3) by (simp add: holds_keys_def)
  with i(1) show ?thesis by (auto simp: sl_holds_def)
qed

lemma Seek_pos:
  assumes "sl_holds cmp valid sl ks" "valid key"
  shows "\<exists>it. sl_Seek cmp sl key = Done it \<and> sl_pos cmp valid sl ks (length (takeWhile (\<lambda>k. cmp k key < 0) ks)) it"
proof -
  obtain xs where h: "holds_keys cmp valid sl xs ks" using assms(1) by (auto simp: sl_holds_def)
  obtain before after where s: "xs = before @ after" "map (key_at sl) before = takeWhile (\<lambda>k. cmp k key < 0) ks"
    "\<forall>y \<in> set before. cmp (key_at sl y) key < 0" "\<forall>y \<in> set after. \<not> cmp (key_at sl y) key < 0"
    by (rule split_at [OF h assms(2)])
  have "length before = length (takeWhile (\<lambda>k. cmp k key < 0) ks)" unfolding s(2) [symmetric] length_map ..
  moreover have "length (takeWhile (\<lambda>k. cmp k key < 0) ks) \<le> length ks" by (rule length_takeWhile_le)
  moreover have "FindGreaterOrEqual cmp sl key [] = Done (first after, [])"
  proof -
    have "shape sl (before @ after)" "linked sl (before @ after)" using h by (simp_all add: holds_keys_def s(1))
    from FindGreaterOrEqual_spec [where cmp = cmp and key = key and prevs = "[]", OF this s(3,4)] show ?thesis by simp
  qed
  moreover have "drop (length before) xs = after" by (simp add: s(1))
  ultimately show ?thesis using h unfolding sl_Seek_def sl_pos_def by (intro exI [of _ "first after"] conjI) auto
qed

lemma Contains_holds:
  assumes "sl_holds cmp valid sl ks" "valid key"
  shows "Contains cmp sl key = Done (\<exists>k \<in> set ks. cmp key k = 0)"
proof -
  let ?P = "\<lambda>k. cmp k key < 0"
  obtain xs where h: "holds_keys cmp valid sl xs ks" using assms(1) by (auto simp: sl_holds_def)
  then have ks: "sorted_wrt (\<lambda>a b. cmp a b < 0) ks" "\<forall>k \<in> set ks. valid k" by (simp_all add: holds_keys_def)
  obtain it where it: "sl_Seek cmp sl key = Done it" "sl_pos cmp valid sl ks (length (takeWhile ?P ks)) it"
    using Seek_pos [OF assms] by blast
  then obtain ps where f: "FindGreaterOrEqual cmp sl key [] = Done (it, ps)"
    by (auto simp: sl_Seek_def exec_bind_Done_iff split: prod.splits)
  have before: "cmp key k \<noteq> 0" if "k \<in> set (takeWhile ?P ks)" for k
    using that cmp_swap [of k key] ks(2) assms(2) by (auto dest!: set_takeWhileD)
  have ex: "(\<exists>k \<in> set ks. cmp key k = 0) \<longleftrightarrow> (\<exists>k \<in> set (dropWhile ?P ks). cmp key k = 0)"
    using before by (metis Un_iff set_append takeWhile_dropWhile_id)
  show ?thesis
  proof (cases "dropWhile ?P ks")
    case Nil
    then have "takeWhile ?P ks = ks" by (metis append_Nil2 takeWhile_dropWhile_id)
    then have "\<not> sl_Valid it" using sl_pos_Valid [OF it(2)] by (metis less_irrefl)
    then have "it = None" by (simp add: sl_Valid_def)
    moreover have "\<not> (\<exists>k \<in> set ks. cmp key k = 0)" unfolding ex Nil by simp
    ultimately show ?thesis using f by (simp add: Contains_def)
  next
    case (Cons a rest)
    have "ks = takeWhile ?P ks @ a # rest" using Cons by (metis takeWhile_dropWhile_id)
    then have lt: "length (takeWhile ?P ks) < length ks" and a: "ks ! length (takeWhile ?P ks) = a"
      by (metis length_append length_Cons less_add_Suc1 add_Suc_right, metis nth_append_length)
    obtain x where x: "it = Some x" "node_key sl x = Done a" using sl_pos_key [OF it(2) lt] a by auto
    have sorted: "sorted_wrt (\<lambda>a b. cmp a b < 0) (a # rest)" "\<forall>k \<in> set (a # rest). valid k"
      using ks \<open>ks = _\<close> by (metis sorted_wrt_append, metis Un_iff set_append)
    have na: "\<not> ?P a" using prefix_smaller [OF ks assms(2), of a] Cons by simp
    have "cmp key k \<noteq> 0" if "k \<in> set rest" "cmp key a \<noteq> 0" for k
    proof -
      have "valid a" "valid k" "cmp a k < 0" using sorted that(1) by auto
      moreover have "cmp key a < 0" using na that(2) cmp_swap [of a key] assms(2) sorted(2) by force
      ultimately show ?thesis using cmp_trans [of key a k] assms(2) by fastforce
    qed
    then have "(\<exists>k \<in> set (a # rest). cmp key k = 0) \<longleftrightarrow> cmp key a = 0" by auto
    then show ?thesis using f x ex Cons by (simp add: Contains_def)
  qed
qed

lemma Prev_pos:
  assumes "sl_pos cmp valid sl ks i it" "i < length ks"
  shows "\<exists>it1. sl_Prev cmp sl it = Done it1 \<and> (if i = 0 then it1 = None else sl_pos cmp valid sl ks (i - 1) it1)"
proof -
  obtain xs where h: "holds_keys cmp valid sl xs ks" and i: "i < length xs" "it = Some (xs ! i)"
    using assms by (auto simp: sl_pos_def holds_keys_def first_drop)
  have s: "shape sl xs" "linked sl xs" "ks = map (key_at sl) xs" "sorted_wrt (\<lambda>a b. cmp a b < 0) ks"
    "\<forall>k \<in> set ks. valid k"
    using h by (auto simp: holds_keys_def)
  have x: "key_at sl (xs ! i) = ks ! i" "node_key sl (xs ! i) = Done (ks ! i)"
    using i s(3) key_at_node [OF s(1), of "xs ! i"] by simp_all
  have before: "\<forall>y \<in> set (take i xs). cmp (key_at sl y) (ks ! i) < 0"
    using i s(3) sorted_wrt_nth_less [OF s(4)] by (auto simp: in_set_conv_nth)
  have after: "\<forall>y \<in> set (drop i xs). \<not> cmp (key_at sl y) (ks ! i) < 0"
  proof
    fix y assume "y \<in> set (drop i xs)"
    then obtain j where j: "i \<le> j" "j < length xs" "y = xs ! j"
      by (auto simp: in_set_conv_nth) (metis add.commute le_add1 less_diff_conv)
    have v: "valid (ks ! i)" "valid (ks ! j)" using s(3,5) i(1) j(2) by auto
    have "i = j \<or> cmp (ks ! i) (ks ! j) < 0"
      using sorted_wrt_nth_less [OF s(4), of i j] j s(3) by force
    then show "\<not> cmp (key_at sl y) (ks ! i) < 0"
      using cmp_swap [OF v] cmp_swap [OF v(2,1)] cmp_swap [OF v(1,1)] j s(3) by force
  qed
  have "FindLessThan cmp sl (ks ! i) = Done (last (0 # take i xs))"
    using FindLessThan_spec [of sl "take i xs" "drop i xs"] s(1,2) before after by simp
  then show ?thesis
    using last_position [OF h, of i] i x by (auto simp: sl_Prev_def split: if_splits)
qed

end

end
