(* ===== verification/Ldb_Write_Batch.thy ===== *)
theory Ldb_Write_Batch
  imports Ldb_Dbformat
begin

text \<open>
  Write batches (\<open>include/leveldb/write_batch.h\<close>, \<open>db/write_batch.cc\<close>): the string \<open>rep_\<close> with
  its header of a sequence number and a count, the updates appended to it, and \<open>Iterate\<close>, which
  hands them to a handler. \<open>int\<close> counts are taken without the overflow at \<open>2 ^ 31\<close> records.
\<close>

subsection \<open>The batch\<close>

type_synonym write_batch = "u8 list"

definition kHeader :: nat where "kHeader = 12"

definition Batch_Clear :: write_batch where "Batch_Clear = replicate kHeader 0"

definition Batch_Count :: "write_batch \<Rightarrow> int" where
  "Batch_Count b = sint (DecodeFixed32 kLittleEndian (drop 8 b))"

definition SetCount :: "int \<Rightarrow> write_batch \<Rightarrow> write_batch" where
  "SetCount n b = take 8 b @ EncodeFixed32 kLittleEndian (word_of_int n) @ drop 12 b"

definition Batch_Sequence :: "write_batch \<Rightarrow> u64" where
  "Batch_Sequence b = DecodeFixed64 kLittleEndian b"

definition SetSequence :: "u64 \<Rightarrow> write_batch \<Rightarrow> write_batch" where
  "SetSequence s b = EncodeFixed64 kLittleEndian s @ drop 8 b"

definition Batch_Put :: "slice \<Rightarrow> slice \<Rightarrow> write_batch \<Rightarrow> write_batch" where
  "Batch_Put key val b =
     (let b = SetCount (Batch_Count b + 1) b;
          b = b @ [kTypeValue]
      in PutLengthPrefixedSlice (PutLengthPrefixedSlice b key) val)"

definition Batch_Delete :: "slice \<Rightarrow> write_batch \<Rightarrow> write_batch" where
  "Batch_Delete key b =
     (let b = SetCount (Batch_Count b + 1) b;
          b = b @ [kTypeDeletion]
      in PutLengthPrefixedSlice b key)"

definition Batch_Contents :: "write_batch \<Rightarrow> slice" where "Batch_Contents b = b"
definition Batch_ByteSize :: "write_batch \<Rightarrow> nat" where "Batch_ByteSize b = length b"
definition SetContents :: "slice \<Rightarrow> write_batch" where "SetContents contents = contents"

definition Batch_Append :: "write_batch \<Rightarrow> write_batch \<Rightarrow> write_batch" where
  "Batch_Append dst src = SetCount (Batch_Count dst + Batch_Count src) dst @ drop kHeader src"

subsection \<open>Iterating\<close>

text \<open>The handler's two virtual functions on the handler's state.\<close>

record 's handler =
  on_Put :: "slice \<Rightarrow> slice \<Rightarrow> 's \<Rightarrow> 's exec"
  on_Delete :: "slice \<Rightarrow> 's \<Rightarrow> 's exec"

text \<open>
  The loop: an early return is \<open>Inl\<close> of the status, the end of the input \<open>Inr\<close> of the number of
  records found.
\<close>

function iterate_batch :: "'s handler \<Rightarrow> slice \<Rightarrow> int \<Rightarrow> 's \<Rightarrow> ((status + int) \<times> 's) exec" where
  "iterate_batch h input found s =
     (if input = [] then Done (Inr found, s)
      else
        let found = found + 1; tag = hd input; input1 = tl input
        in if tag = kTypeValue then
             (case GetLengthPrefixedSlice input1 of
                (None, _) \<Rightarrow> Done (Inl (Corruption (str ''bad WriteBatch Put'') []), s)
              | (Some key, input2) \<Rightarrow>
                  (case GetLengthPrefixedSlice input2 of
                     (None, _) \<Rightarrow> Done (Inl (Corruption (str ''bad WriteBatch Put'') []), s)
                   | (Some val, input3) \<Rightarrow> exec_bind (on_Put h key val s) (iterate_batch h input3 found)))
           else if tag = kTypeDeletion then
             (case GetLengthPrefixedSlice input1 of
                (None, _) \<Rightarrow> Done (Inl (Corruption (str ''bad WriteBatch Delete'') []), s)
              | (Some key, input2) \<Rightarrow> exec_bind (on_Delete h key s) (iterate_batch h input2 found))
           else Done (Inl (Corruption (str ''unknown WriteBatch tag'') []), s))"
  by pat_completeness auto

lemma GetVarint32_rest: "GetVarint32 p = (r, q) \<Longrightarrow> length q \<le> length p"
  by (auto simp: GetVarint32_def GetVarint32Ptr_def GetVarint32PtrFallback_def Let_def
      split: option.splits if_splits dest: get32_loop_le)

lemma GetLengthPrefixedSlice_rest: "GetLengthPrefixedSlice p = (r, q) \<Longrightarrow> length q \<le> length p"
  by (auto simp: GetLengthPrefixedSlice_def split: prod.splits option.splits if_splits
      dest!: GetVarint32_rest)

lemma rest_of_tl: "input \<noteq> [] \<Longrightarrow> (r, q) = GetLengthPrefixedSlice (tl input) \<Longrightarrow> length q < length input"
  using GetLengthPrefixedSlice_rest [of "tl input" r q] by (cases input) auto

lemma rest_of_rest: "(r, q) = GetLengthPrefixedSlice p \<Longrightarrow> length p < n \<Longrightarrow> length q < n"
  using GetLengthPrefixedSlice_rest [of p r q] by auto

termination iterate_batch
  by (relation "measure (\<lambda>(h, input, found, s). length input)") (auto intro: rest_of_tl rest_of_rest)

declare iterate_batch.simps [simp del]

definition Iterate :: "'s handler \<Rightarrow> write_batch \<Rightarrow> 's \<Rightarrow> (status \<times> 's) exec" where
  "Iterate h b s =
     (if length b < kHeader then Done (Corruption (str ''malformed WriteBatch (too small)'') [], s)
      else
        exec_bind (iterate_batch h (drop kHeader b) 0 s) (\<lambda>(r, s).
          case r of
            Inl st \<Rightarrow> Done (st, s)
          | Inr found \<Rightarrow>
              if found \<noteq> Batch_Count b then Done (Corruption (str ''WriteBatch has wrong count'') [], s)
              else Done (OK, s)))"

subsection \<open>The list of updates of a batch\<close>

datatype update = Put slice slice | Delete slice

fun record_bytes :: "update \<Rightarrow> u8 list" where
  "record_bytes (Put k v) = kTypeValue # prefixed k @ prefixed v"
| "record_bytes (Delete k) = kTypeDeletion # prefixed k"

fun update_ok :: "update \<Rightarrow> bool" where
  "update_ok (Put k v) \<longleftrightarrow> length k < 2 ^ 32 \<and> length v < 2 ^ 32"
| "update_ok (Delete k) \<longleftrightarrow> length k < 2 ^ 32"

fun add_update :: "update \<Rightarrow> write_batch \<Rightarrow> write_batch" where
  "add_update (Put k v) b = Batch_Put k v b"
| "add_update (Delete k) b = Batch_Delete k b"

fun handle :: "'s handler \<Rightarrow> update \<Rightarrow> 's \<Rightarrow> 's exec" where
  "handle h (Put k v) s = on_Put h k v s"
| "handle h (Delete k) s = on_Delete h k s"

fun handle_all :: "'s handler \<Rightarrow> update list \<Rightarrow> 's \<Rightarrow> 's exec" where
  "handle_all h [] s = Done s"
| "handle_all h (u # us) s = exec_bind (handle h u s) (handle_all h us)"

definition batch_rep :: "u64 \<Rightarrow> update list \<Rightarrow> write_batch" where
  "batch_rep s us = EncodeFixed64 kLittleEndian s @ EncodeFixed32 kLittleEndian (of_nat (length us)) @
     concat (map record_bytes us)"

lemma length_batch_rep: "kHeader \<le> length (batch_rep s us)"
  by (simp add: batch_rep_def kHeader_def)

lemma drop_batch_rep:
  "drop 8 (batch_rep s us) = EncodeFixed32 kLittleEndian (of_nat (length us)) @ concat (map record_bytes us)"
  "drop 12 (batch_rep s us) = concat (map record_bytes us)"
  by (simp_all add: batch_rep_def)

lemma Count_batch_rep: "length us < 2 ^ 31 \<Longrightarrow> Batch_Count (batch_rep s us) = int (length us)"
  by (simp add: Batch_Count_def drop_batch_rep signed_of_nat signed_take_bit_int_eq_self)

lemma Sequence_batch_rep: "Batch_Sequence (batch_rep s us) = s"
  by (simp add: Batch_Sequence_def batch_rep_def)

lemma le_bytes_0: "le_bytes n 0 = replicate n 0"
  by (induction n) simp_all

lemma Clear_batch_rep: "Batch_Clear = batch_rep 0 []"
proof -
  have "replicate 12 (0 :: u8) = replicate 8 0 @ replicate 4 0"
    by (simp add: replicate_add [symmetric])
  then show ?thesis by (simp add: Batch_Clear_def kHeader_def batch_rep_def EncodeFixed_neutral le_bytes_0)
qed

lemma SetCount_batch_rep:
  "SetCount n (batch_rep s us) = EncodeFixed64 kLittleEndian s @ EncodeFixed32 kLittleEndian (word_of_int n) @
     concat (map record_bytes us)"
  by (simp add: SetCount_def drop_batch_rep) (simp add: batch_rep_def)

lemma SetSequence_batch_rep: "SetSequence s1 (batch_rep s us) = batch_rep s1 us"
  by (simp add: SetSequence_def drop_batch_rep) (simp add: batch_rep_def)

lemma add_update_batch_rep:
  "length us < 2 ^ 31 \<Longrightarrow> add_update u (batch_rep s us) = batch_rep s (us @ [u])"
  by (cases u)
    (simp_all add: Batch_Put_def Batch_Delete_def Let_def Count_batch_rep SetCount_batch_rep PutLengthPrefixedSlice_prefixed
      batch_rep_def [of s "us @ [u]" for u] add.commute)

lemma Append_batch_rep:
  "length us < 2 ^ 31 \<Longrightarrow> length vs < 2 ^ 31 \<Longrightarrow>
     Batch_Append (batch_rep s us) (batch_rep s1 vs) = batch_rep s (us @ vs)"
  by (simp add: Batch_Append_def Count_batch_rep SetCount_batch_rep kHeader_def drop_batch_rep
      batch_rep_def [of s "us @ vs"])

lemma add_updates_batch_rep:
  "length us + length vs \<le> 2 ^ 31 \<Longrightarrow> fold add_update vs (batch_rep s us) = batch_rep s (us @ vs)"
proof (induction vs arbitrary: us)
  case (Cons v vs)
  then show ?case using Cons.IH [of "us @ [v]"] by (simp add: add_update_batch_rep)
qed simp

lemma iterate_record:
  "update_ok u \<Longrightarrow> iterate_batch h (record_bytes u @ r) found s =
     exec_bind (handle h u s) (iterate_batch h r (found + 1))"
  by (cases u)
    (subst iterate_batch.simps, simp add: Let_def GetLengthPrefixedSlice_prefixed kTypeValue_def kTypeDeletion_def)+

lemma iterate_records:
  "\<forall>u \<in> set us. update_ok u \<Longrightarrow> iterate_batch h (concat (map record_bytes us) @ r) found s =
     exec_bind (handle_all h us s) (iterate_batch h r (found + int (length us)))"
proof (induction us arbitrary: found s)
  case (Cons u us)
  have "iterate_batch h (concat (map record_bytes us) @ r) (found + 1) =
      (\<lambda>s. exec_bind (handle_all h us s) (iterate_batch h r (found + int (length (u # us)))))"
    using Cons.IH [of "found + 1"] Cons.prems by (simp add: fun_eq_iff algebra_simps)
  then show ?case using Cons.prems by (simp add: iterate_record exec_bind_assoc)
qed simp

lemma iterate_end: "iterate_batch h [] found s = Done (Inr found, s)"
  by (subst iterate_batch.simps) simp

lemma Iterate_batch_rep:
  assumes "\<forall>u \<in> set us. update_ok u" "length us < 2 ^ 31"
  shows "Iterate h (batch_rep s us) t = exec_bind (handle_all h us t) (\<lambda>t. Done (OK, t))"
  using iterate_records [OF assms(1), of h "[]" 0 t] assms(2) length_batch_rep [of s us]
  by (simp add: Iterate_def kHeader_def drop_batch_rep iterate_end Count_batch_rep exec_bind_assoc)


subsection \<open>A batch cut short\<close>

lemma take_vbytes_more: "j < length (vbytes n) \<Longrightarrow> b \<in> set (take j (vbytes n)) \<Longrightarrow> 128 \<le> unat b"
proof (induction n arbitrary: j rule: vbytes.induct)
  case (1 n)
  show ?case
  proof (cases "n < 128")
    case True
    then show ?thesis using 1 by (simp add: vbytes.simps [of n])
  next
    case False
    have v: "vbytes n = of_nat (n mod 128 + 128) # vbytes (n div 128)"
      using False by (subst vbytes.simps) simp
    have u: "unat (of_nat (n mod 128 + 128) :: u8) = n mod 128 + 128"
      using mod_less_divisor [of 128 n] unfolding unat_of_nat by (intro mod_less) simp
    show ?thesis using 1 False v u by (cases j) auto
  qed
qed

lemma get32_loop_more: "\<forall>b \<in> set p. 128 \<le> unat b \<Longrightarrow> get32_loop shift r p = None"
proof (induction shift r p rule: get32_loop.induct)
  case (2 shift r b p)
  then have "(ucast b AND 128 :: u32) \<noteq> 0" by (simp add: byte_more)
  with 2 show ?case by (simp add: Let_def)
qed simp

lemma GetVarint32_cut: "j < length (EncodeVarint32 v) \<Longrightarrow> GetVarint32 (take j (EncodeVarint32 v)) = (None, take j (EncodeVarint32 v))"
proof -
  assume j: "j < length (EncodeVarint32 v)"
  let ?p = "take j (EncodeVarint32 v)"
  have m: "\<forall>b \<in> set ?p. 128 \<le> unat b"
    using j take_vbytes_more [of j "unat v"] by (simp add: EncodeVarint32_vbytes)
  have "(ucast (hd ?p) AND 128 :: u32) \<noteq> 0" if "?p \<noteq> []"
  proof -
    have "128 \<le> unat (hd ?p)" using m hd_in_set [OF that] by blast
    then show ?thesis by (simp add: byte_more)
  qed
  then have "GetVarint32Ptr ?p = None"
    using get32_loop_more [OF m] by (simp add: GetVarint32Ptr_def GetVarint32PtrFallback_def Let_def)
  then show ?thesis by (simp add: GetVarint32_def)
qed

lemma GetLengthPrefixedSlice_cut:
  assumes "j < length (prefixed s)" "length s < 2 ^ 32"
  shows "fst (GetLengthPrefixedSlice (take j (prefixed s))) = None"
proof (cases "j < length (EncodeVarint32 (of_nat (length s)))")
  case True
  then show ?thesis using GetVarint32_cut [OF True] by (simp add: GetLengthPrefixedSlice_def prefixed_def)
next
  case False
  then show ?thesis using assms by (simp add: GetLengthPrefixedSlice_def prefixed_def unat_of_nat)
qed

lemma GetLengthPrefixedSlice_cut_ex:
  "j < length (prefixed s) \<Longrightarrow> length s < 2 ^ 32 \<Longrightarrow> \<exists>q. GetLengthPrefixedSlice (take j (prefixed s)) = (None, q)"
  using GetLengthPrefixedSlice_cut [of j s] by (cases "GetLengthPrefixedSlice (take j (prefixed s))") simp

fun cut_message :: "update \<Rightarrow> slice" where
  "cut_message (Put k v) = str ''bad WriteBatch Put''"
| "cut_message (Delete k) = str ''bad WriteBatch Delete''"

lemma iterate_cut_record:
  assumes "update_ok u" "0 < j" "j < length (record_bytes u)"
  shows "iterate_batch h (take j (record_bytes u)) found s = Done (Inl (Corruption (cut_message u) []), s)"
proof (cases u)
  case (Put k v)
  obtain i where j: "j = Suc i" using assms(2) by (cases j) auto
  have lens: "length k < 2 ^ 32" "length v < 2 ^ 32" using assms(1) Put by simp_all
  show ?thesis
  proof (cases "i < length (prefixed k)")
    case True
    then have "take i (prefixed k @ prefixed v) = take i (prefixed k)" by simp
    moreover obtain q where "GetLengthPrefixedSlice (take i (prefixed k)) = (None, q)"
      using GetLengthPrefixedSlice_cut_ex [OF True lens(1)] by blast
    ultimately show ?thesis by (subst iterate_batch.simps) (simp add: Put j Let_def del: take_append)
  next
    case False
    then have "i - length (prefixed k) < length (prefixed v)" using assms(3) Put j by simp
    then obtain q where "GetLengthPrefixedSlice (take (i - length (prefixed k)) (prefixed v)) = (None, q)"
      using GetLengthPrefixedSlice_cut_ex [OF _ lens(2)] by blast
    then show ?thesis using False
      by (subst iterate_batch.simps) (simp add: Put j Let_def GetLengthPrefixedSlice_prefixed [OF lens(1)])
  qed
next
  case (Delete k)
  obtain i where j: "j = Suc i" using assms(2) by (cases j) auto
  have "i < length (prefixed k)" "length k < 2 ^ 32" using assms Delete j by simp_all
  then obtain q where "GetLengthPrefixedSlice (take i (prefixed k)) = (None, q)"
    using GetLengthPrefixedSlice_cut_ex by blast
  then show ?thesis
    by (subst iterate_batch.simps) (simp add: Delete j Let_def kTypeValue_def kTypeDeletion_def)
qed

lemma take_concat_pieces:
  "m < length (concat xs) \<Longrightarrow>
     \<exists>i < length xs. \<exists>j < length (xs ! i). m = length (concat (take i xs)) + j \<and>
       take m (concat xs) = concat (take i xs) @ take j (xs ! i)"
proof (induction xs arbitrary: m)
  case (Cons x xs)
  show ?case
  proof (cases "m < length x")
    case True
    then show ?thesis by (intro exI [of _ 0]) auto
  next
    case False
    then have "m - length x < length (concat xs)" using Cons.prems by simp
    from Cons.IH [OF this] obtain i j where "i < length xs" "j < length (xs ! i)"
      "m - length x = length (concat (take i xs)) + j"
      "take (m - length x) (concat xs) = concat (take i xs) @ take j (xs ! i)"
      by blast
    with False show ?thesis by (intro exI [of _ "Suc i"]) auto
  qed
qed simp

text \<open>The handler gets the \<open>i\<close> updates whose records end before the cut at \<open>m\<close>, and the record of the
  next one ends after it.\<close>

lemma Iterate_cut:
  assumes "\<forall>u \<in> set us. update_ok u" "length us < 2 ^ 31" "kHeader \<le> m" "m < length (batch_rep s us)"
  shows "\<exists>i < length us. length (batch_rep s (take i us)) \<le> m \<and> m < length (batch_rep s (take (Suc i) us)) \<and>
    (\<exists>msg. Iterate h (take m (batch_rep s us)) t =
      exec_bind (handle_all h (take i us) t) (\<lambda>t. Done (Corruption msg [], t)))"
proof -
  let ?cut = "take m (batch_rep s us)"
  have m: "12 \<le> m" "m - 12 < length (concat (map record_bytes us))"
    using assms(3,4) by (simp_all add: kHeader_def batch_rep_def)
  have rep: "?cut = EncodeFixed64 kLittleEndian s @ EncodeFixed32 kLittleEndian (of_nat (length us)) @
      take (m - 12) (concat (map record_bytes us))"
    using m(1) by (simp add: batch_rep_def)
  have cnt: "Batch_Count ?cut = int (length us)"
    using assms(2) by (simp add: rep Batch_Count_def signed_of_nat signed_take_bit_int_eq_self)
  have drp: "drop 12 ?cut = take (m - 12) (concat (map record_bytes us))" by (simp add: rep)
  have len: "\<not> length ?cut < kHeader" using assms(3,4) by (simp add: kHeader_def)
  obtain i j where i: "i < length us" "j < length (record_bytes (us ! i))"
    and mi: "m - 12 = length (concat (map record_bytes (take i us))) + j"
    and c: "take (m - 12) (concat (map record_bytes us)) =
      concat (map record_bytes (take i us)) @ take j (record_bytes (us ! i))"
    using take_concat_pieces [OF m(2)] by (auto simp: take_map)
  have ok: "\<forall>u \<in> set (take i us). update_ok u" "update_ok (us ! i)"
    using assms(1) i(1) by (auto dest: in_set_takeD)
  have pos: "length (batch_rep s (take i us)) \<le> m" "m < length (batch_rep s (take (Suc i) us))"
    using mi m(1) i by (simp_all add: batch_rep_def take_Suc_conv_app_nth)
  note step = iterate_records [OF ok(1), of h "take j (record_bytes (us ! i))" 0 t]
  show ?thesis
  proof (cases "j = 0")
    case True
    then have "Iterate h ?cut t = exec_bind (handle_all h (take i us) t)
        (\<lambda>t. Done (Corruption (str ''WriteBatch has wrong count'') [], t))"
      unfolding Iterate_def if_not_P [OF len] cnt using step i(1)
      by (simp add: kHeader_def drp c iterate_end exec_bind_assoc)
    with i(1) pos show ?thesis by blast
  next
    case False
    then have "iterate_batch h (take j (record_bytes (us ! i))) n =
        (\<lambda>t. Done (Inl (Corruption (cut_message (us ! i)) []), t))" for n
      using iterate_cut_record [OF ok(2) _ i(2)] False by (intro ext) simp
    then have "Iterate h ?cut t = exec_bind (handle_all h (take i us) t)
        (\<lambda>t. Done (Corruption (cut_message (us ! i)) [], t))"
      unfolding Iterate_def if_not_P [OF len] cnt using step
      by (simp add: kHeader_def drp c exec_bind_assoc)
    with i(1) pos show ?thesis by blast
  qed
qed

end
