(* ===== verification/Ldb_Memtable.thy ===== *)
theory Ldb_Memtable
  imports Ldb_Skiplist_Proofs Ldb_Write_Batch
begin

text \<open>
  The memtable (\<open>db/memtable.h\<close>, \<open>db/memtable.cc\<close>): encoded entries in a skip list, \<open>Add\<close>,
  \<open>Get\<close>, the iterator, and the handler that inserts a write batch (\<open>db/write_batch.cc\<close>). A
  \<open>const char*\<close> into the arena is the list of the bytes from there on; the arena itself and its
  memory accounting are not modelled. The lemmas: the memtable holds the history of the updates,
  and a lookup at a sequence number sees the last update of the key up to that number.
\<close>

subsection \<open>Entries\<close>

text \<open>The varint is at most 5 bytes long; the second component is what follows the slice.\<close>

definition split_prefixed :: "u8 list \<Rightarrow> slice \<times> u8 list" where
  "split_prefixed data =
     (case GetVarint32Ptr (take 5 data) of
        None \<Rightarrow> ([], data)
      | Some (len, p) \<Rightarrow>
          let rest = drop (length (take 5 data) - length p) data
          in (take (unat len) rest, drop (unat len) rest))"

definition mem_prefixed :: "u8 list \<Rightarrow> slice" where
  "mem_prefixed data = fst (split_prefixed data)"

definition mem_compare :: "comparator \<Rightarrow> u8 list \<Rightarrow> u8 list \<Rightarrow> int" where
  "mem_compare C aptr bptr = Compare (InternalKeyComparator C) (mem_prefixed aptr) (mem_prefixed bptr)"

definition EncodeKey :: "slice \<Rightarrow> u8 list" where
  "EncodeKey target = PutVarint32 [] (of_nat (length target)) @ target"

subsection \<open>The table\<close>

record memtable =
  mt_refs :: int
  mt_table :: "u8 list skip_list"

definition MemTable :: memtable where "MemTable = \<lparr>mt_refs = 0, mt_table = SkipList []\<rparr>"

definition MemTable_Ref :: "memtable \<Rightarrow> memtable" where "MemTable_Ref m = m\<lparr>mt_refs := mt_refs m + 1\<rparr>"

text \<open>\<open>None\<close>: the last reference is gone and the memtable is deleted.\<close>

definition MemTable_Unref :: "memtable \<Rightarrow> memtable option" where
  "MemTable_Unref m = (if mt_refs m - 1 \<le> 0 then None else Some (m\<lparr>mt_refs := mt_refs m - 1\<rparr>))"

definition MemTable_Add :: "comparator \<Rightarrow> u64 \<Rightarrow> u8 \<Rightarrow> slice \<Rightarrow> slice \<Rightarrow> memtable \<Rightarrow> memtable exec" where
  "MemTable_Add C s type key val m =
     (let internal_key_size = length key + 8;
          buf = EncodeVarint32 (of_nat internal_key_size) @ key @
            EncodeFixed64 kLittleEndian (push_bit 8 s OR ucast type) @ EncodeVarint32 (of_nat (length val)) @ val
      in exec_bind (Insert (mem_compare C) buf (mt_table m)) (\<lambda>table. Done (m\<lparr>mt_table := table\<rparr>)))"

text \<open>The result, and the two output arguments after the call.\<close>

definition MemTable_Get ::
    "comparator \<Rightarrow> lookup_key \<Rightarrow> memtable \<Rightarrow> slice \<times> status \<Rightarrow> (bool \<times> slice \<times> status) exec" where
  "MemTable_Get C key m out =
     exec_bind (sl_Seek (mem_compare C) (mt_table m) (memtable_key key)) (\<lambda>iter.
       case iter of
         None \<Rightarrow> Done (False, out)
       | Some node \<Rightarrow>
           exec_bind (node_key (mt_table m) node) (\<lambda>entry.
             case GetVarint32Ptr (take 5 entry) of
               None \<Rightarrow> Undefined
             | Some (key_length, p) \<Rightarrow>
                 let key_ptr = drop (length (take 5 entry) - length p) entry
                 in if Compare C (take (unat (key_length - 8)) key_ptr) (lookup_user_key key) = 0
                    then
                      let tag = DecodeFixed64 kLittleEndian (drop (unat (key_length - 8)) key_ptr);
                          type = ucast (tag AND 0xff)
                      in if type = kTypeValue then
                           Done (True, mem_prefixed (drop (unat key_length) key_ptr), snd out)
                         else if type = kTypeDeletion then Done (True, fst out, NotFound [] [])
                         else Done (False, out)
                    else Done (False, out)))"

subsection \<open>The iterator\<close>

definition MemIter_Seek :: "comparator \<Rightarrow> memtable \<Rightarrow> slice \<Rightarrow> nat option exec" where
  "MemIter_Seek C m k = sl_Seek (mem_compare C) (mt_table m) (EncodeKey k)"

definition MemIter_SeekToFirst :: "memtable \<Rightarrow> nat option exec" where
  "MemIter_SeekToFirst m = sl_SeekToFirst (mt_table m)"

definition MemIter_SeekToLast :: "memtable \<Rightarrow> nat option exec" where
  "MemIter_SeekToLast m = sl_SeekToLast (mt_table m)"

definition MemIter_Next :: "memtable \<Rightarrow> nat option \<Rightarrow> nat option exec" where
  "MemIter_Next m = sl_Next (mt_table m)"

definition MemIter_Prev :: "comparator \<Rightarrow> memtable \<Rightarrow> nat option \<Rightarrow> nat option exec" where
  "MemIter_Prev C m = sl_Prev (mem_compare C) (mt_table m)"

definition MemIter_entry :: "memtable \<Rightarrow> nat option \<Rightarrow> u8 list" where
  "MemIter_entry m it = (case it of None \<Rightarrow> [] | Some x \<Rightarrow> key_at (mt_table m) x)"

definition MemIter_key :: "memtable \<Rightarrow> nat option \<Rightarrow> slice" where
  "MemIter_key m it = mem_prefixed (MemIter_entry m it)"

definition MemIter_value :: "memtable \<Rightarrow> nat option \<Rightarrow> slice" where
  "MemIter_value m it = mem_prefixed (snd (split_prefixed (MemIter_entry m it)))"

subsection \<open>Inserting a write batch\<close>

text \<open>The handler's state: \<open>sequence_\<close> and the memtable.\<close>

definition MemTableInserter :: "comparator \<Rightarrow> (u64 \<times> memtable) handler" where
  "MemTableInserter C =
     \<lparr>on_Put = (\<lambda>key val (s, m). exec_bind (MemTable_Add C s kTypeValue key val m) (\<lambda>m. Done (s + 1, m))),
      on_Delete = (\<lambda>key (s, m). exec_bind (MemTable_Add C s kTypeDeletion key [] m) (\<lambda>m. Done (s + 1, m)))\<rparr>"

definition InsertInto :: "comparator \<Rightarrow> write_batch \<Rightarrow> memtable \<Rightarrow> (status \<times> memtable) exec" where
  "InsertInto C b m =
     exec_bind (Iterate (MemTableInserter C) b (Batch_Sequence b, m)) (\<lambda>(st, _, m). Done (st, m))"

subsection \<open>Entries are read back\<close>

definition entry_bytes :: "slice \<times> slice \<Rightarrow> u8 list" where
  "entry_bytes e = prefixed (fst e) @ prefixed (snd e)"

lemma take5_varint: "\<exists>q. take 5 (EncodeVarint32 v @ r) = EncodeVarint32 v @ q"
  using length_vbytes_u32 [of v] by (simp add: EncodeVarint32_vbytes)

lemma GetVarint32Ptr_take5:
  "\<exists>q. GetVarint32Ptr (take 5 (EncodeVarint32 v @ r)) = Some (v, q) \<and>
     drop (length (take 5 (EncodeVarint32 v @ r)) - length q) (EncodeVarint32 v @ r) = r"
proof -
  obtain q where q: "take 5 (EncodeVarint32 v @ r) = EncodeVarint32 v @ q" using take5_varint by blast
  show ?thesis unfolding q by (intro exI [of _ q]) (simp add: varint32.dec_enc)
qed

lemma split_prefixed_prefixed: "length s < 2 ^ 32 \<Longrightarrow> split_prefixed (prefixed s @ r) = (s, r)"
proof -
  assume s: "length s < 2 ^ 32"
  obtain q where "GetVarint32Ptr (take 5 (prefixed s @ r)) = Some (of_nat (length s), q)"
    "drop (length (take 5 (prefixed s @ r)) - length q) (prefixed s @ r) = s @ r"
    using GetVarint32Ptr_take5 [of "of_nat (length s)" "s @ r"] by (auto simp: prefixed_def)
  note q = this
  have u: "unat (of_nat (length s) :: u32) = length s" using s by (simp add: unat_of_nat)
  show ?thesis unfolding split_prefixed_def q(1) option.case prod.case Let_def q(2) u by simp
qed

lemma mem_prefixed_prefixed:
  "length s < 2 ^ 32 \<Longrightarrow> mem_prefixed (prefixed s @ r) = s" "length s < 2 ^ 32 \<Longrightarrow> mem_prefixed (prefixed s) = s"
  using split_prefixed_prefixed [of s r] split_prefixed_prefixed [of s "[]"] by (simp_all add: mem_prefixed_def)

lemma EncodeKey_prefixed: "EncodeKey k = prefixed k"
  by (simp add: EncodeKey_def PutVarint32_def prefixed_def)

text \<open>What the comparator of the skip list can compare.\<close>

definition mem_valid :: "(slice \<Rightarrow> bool) \<Rightarrow> u8 list \<Rightarrow> bool" where
  "mem_valid v e \<longleftrightarrow> internal_valid v (mem_prefixed e)"

sublocale database_keys \<subseteq> table: skip_order "mem_compare C" "mem_valid valid"
proof unfold_locales
  fix a b c assume v: "mem_valid valid a" "mem_valid valid b"
  then show "mem_compare C a b < 0 \<longleftrightarrow> 0 < mem_compare C b a"
    unfolding mem_compare_def mem_valid_def by (intro internal.compare_swap)
  show "mem_valid valid c \<Longrightarrow> mem_compare C a b < 0 \<Longrightarrow> mem_compare C b c \<le> 0 \<Longrightarrow> mem_compare C a c < 0"
    using v internal.compare_less_trans(1) unfolding mem_compare_def mem_valid_def by blast
qed


subsection \<open>The history of a memtable\<close>

fun upd_key :: "update \<Rightarrow> slice" where
  "upd_key (Put k v) = k"
| "upd_key (Delete k) = k"

fun upd_type :: "update \<Rightarrow> u8" where
  "upd_type (Put k v) = kTypeValue"
| "upd_type (Delete k) = kTypeDeletion"

fun upd_val :: "update \<Rightarrow> slice" where
  "upd_val (Put k v) = v"
| "upd_val (Delete k) = []"

definition mem_key :: "u64 \<times> update \<Rightarrow> slice" where
  "mem_key h = upd_key (snd h) @ EncodeFixed64 kLittleEndian (PackSequenceAndType (fst h) (upd_type (snd h)))"

definition mem_entry :: "u64 \<times> update \<Rightarrow> u8 list" where
  "mem_entry h = entry_bytes (mem_key h, upd_val (snd h))"

definition upd_ok :: "(slice \<Rightarrow> bool) \<Rightarrow> update \<Rightarrow> bool" where
  "upd_ok v u \<longleftrightarrow> v (upd_key u) \<and> length (upd_key u) + 8 < 2 ^ 32 \<and> length (upd_val u) < 2 ^ 32"

definition hist_ok :: "(slice \<Rightarrow> bool) \<Rightarrow> (u64 \<times> update) list \<Rightarrow> bool" where
  "hist_ok v hs \<longleftrightarrow> (\<forall>(s, u) \<in> set hs. s \<le> kMaxSequenceNumber \<and> upd_ok v u) \<and> sorted_wrt (\<lambda>a b. fst a < fst b) hs"

text \<open>The memtable holds exactly the entries of the history (in the order of the comparator).\<close>

definition mem_holds :: "comparator \<Rightarrow> (slice \<Rightarrow> bool) \<Rightarrow> memtable \<Rightarrow> (u64 \<times> update) list \<Rightarrow> (u64 \<times> update) list \<Rightarrow> bool" where
  "mem_holds C v m hs gs \<longleftrightarrow> sl_holds (mem_compare C) (mem_valid v) (mt_table m) (map mem_entry gs) \<and>
     set gs = set hs \<and> hist_ok v hs"

definition mem_history :: "comparator \<Rightarrow> (slice \<Rightarrow> bool) \<Rightarrow> memtable \<Rightarrow> (u64 \<times> update) list \<Rightarrow> bool" where
  "mem_history C v m hs \<longleftrightarrow> (\<exists>gs. mem_holds C v m hs gs)"

lemma mem_history_new: "mem_history C v MemTable []"
  using SkipList_holds [of "mem_compare C" "mem_valid v" "[]"]
  by (auto simp: mem_history_def mem_holds_def hist_ok_def MemTable_def)

lemma upd_type_le: "unat (upd_type u) \<le> 1"
  by (cases u) (simp_all add: kTypeValue_def kTypeDeletion_def)

lemma mem_key_parts [simp]:
  "ExtractUserKey (mem_key h) = upd_key (snd h)"
  "internal_num (mem_key h) = PackSequenceAndType (fst h) (upd_type (snd h))"
  by (simp_all add: mem_key_def)

lemma length_mem_key [simp]: "length (mem_key h) = length (upd_key (snd h)) + 8"
  by (simp add: mem_key_def)

lemma upd_ok_parts:
  assumes "upd_ok v u"
  shows "split_prefixed (mem_entry (s, u)) = (mem_key (s, u), prefixed (upd_val u))"
    and "mem_prefixed (mem_entry (s, u)) = mem_key (s, u)" and "mem_prefixed (prefixed (upd_val u)) = upd_val u"
    and "mem_valid v (mem_entry (s, u))"
proof -
  have "length (mem_key (s, u)) < 2 ^ 32" "length (upd_val u) < 2 ^ 32" using assms by (simp_all add: upd_ok_def)
  then show "split_prefixed (mem_entry (s, u)) = (mem_key (s, u), prefixed (upd_val u))"
    and p: "mem_prefixed (mem_entry (s, u)) = mem_key (s, u)" and "mem_prefixed (prefixed (upd_val u)) = upd_val u"
    by (simp_all add: mem_entry_def entry_bytes_def split_prefixed_prefixed mem_prefixed_prefixed)
  show "mem_valid v (mem_entry (s, u))"
    using assms unfolding mem_valid_def p by (simp add: internal_valid_def upd_ok_def)
qed

lemma Add_entry:
  "MemTable_Add C s (upd_type u) (upd_key u) (upd_val u) m =
     exec_bind (Insert (mem_compare C) (mem_entry (s, u)) (mt_table m)) (\<lambda>table. Done (m\<lparr>mt_table := table\<rparr>))"
  by (simp add: MemTable_Add_def Let_def mem_entry_def entry_bytes_def mem_key_def prefixed_def PackSequenceAndType_def)

lemma Pack_order:
  assumes "s \<le> kMaxSequenceNumber" "s1 \<le> kMaxSequenceNumber"
  shows "PackSequenceAndType s (upd_type u) \<le> PackSequenceAndType s1 kValueTypeForSeek \<longleftrightarrow> s \<le> s1"
    and "PackSequenceAndType s (upd_type u) < PackSequenceAndType s1 (upd_type u1) \<Longrightarrow> s \<le> s1"
    and "PackSequenceAndType s (upd_type u) = PackSequenceAndType s1 (upd_type u1) \<Longrightarrow> s = s1"
proof -
  have t: "unat kValueTypeForSeek = 1" by (simp add: kValueTypeForSeek_def kTypeValue_def)
  show "PackSequenceAndType s (upd_type u) \<le> PackSequenceAndType s1 kValueTypeForSeek \<longleftrightarrow> s \<le> s1"
    using upd_type_le [of u] unfolding word_le_nat_alt unat_Pack [OF assms(1)] unat_Pack [OF assms(2)] t by linarith
  show "PackSequenceAndType s (upd_type u) < PackSequenceAndType s1 (upd_type u1) \<Longrightarrow> s \<le> s1"
    using upd_type_le [of u] upd_type_le [of u1]
    unfolding word_le_nat_alt word_less_nat_alt unat_Pack [OF assms(1)] unat_Pack [OF assms(2)] by linarith
  assume "PackSequenceAndType s (upd_type u) = PackSequenceAndType s1 (upd_type u1)"
  then have "256 * unat s + unat (upd_type u) = 256 * unat s1 + unat (upd_type u1)"
    using unat_Pack [OF assms(1), of "upd_type u"] unat_Pack [OF assms(2), of "upd_type u1"] by simp
  then have "unat s = unat s1" using upd_type_le [of u] upd_type_le [of u1] by linarith
  then show "s = s1" by (simp add: word_unat_eq_iff)
qed

lemma mem_compare_entry:
  assumes "upd_ok v (snd g)" "upd_ok v (snd h)"
  shows "mem_compare C (mem_entry g) (mem_entry h) = Internal_Compare C (mem_key g) (mem_key h)"
  using upd_ok_parts(2) [OF assms(1), of "fst g"] upd_ok_parts(2) [OF assms(2), of "fst h"]
  by (simp add: mem_compare_def InternalKeyComparator_def)

text \<open>The updates of a batch get consecutive sequence numbers.\<close>

fun numbered :: "u64 \<Rightarrow> update list \<Rightarrow> (u64 \<times> update) list" where
  "numbered s [] = []"
| "numbered s (u # us) = (s, u) # numbered (s + 1) us"

lemma sl_holds_sorted:
  assumes "sl_holds (mem_compare C) (mem_valid v) sl (map mem_entry gs)" "\<forall>g \<in> set gs. upd_ok v (snd g)"
  shows "sorted_wrt (\<lambda>a b. Internal_Compare C (mem_key a) (mem_key b) < 0) gs"
proof -
  have "sorted_wrt (\<lambda>a b. mem_compare C (mem_entry a) (mem_entry b) < 0) gs"
    using assms(1) by (auto simp: sl_holds_def holds_keys_def sorted_wrt_map)
  then show ?thesis by (rule sorted_wrt_mono_rel [rotated]) (use assms(2) mem_compare_entry in metis)
qed

context database_keys
begin

lemma Add_history:
  assumes "mem_history C valid m hs" "\<forall>(s1, _) \<in> set hs. s1 < s" "s \<le> kMaxSequenceNumber" "upd_ok valid u"
  shows "\<exists>m1. MemTable_Add C s (upd_type u) (upd_key u) (upd_val u) m = Done m1 \<and> mem_history C valid m1 (hs @ [(s, u)])"
proof -
  obtain gs where g: "sl_holds (mem_compare C) (mem_valid valid) (mt_table m) (map mem_entry gs)"
    "set gs = set hs" "hist_ok valid hs"
    using assms(1) by (auto simp: mem_history_def mem_holds_def)
  have ne: "\<forall>k \<in> set (map mem_entry gs). mem_compare C k (mem_entry (s, u)) \<noteq> 0"
  proof
    fix k assume "k \<in> set (map mem_entry gs)"
    then obtain h where h: "k = mem_entry h" "h \<in> set hs" using g(2) by auto
    then have o: "upd_ok valid (snd h)" "fst h \<le> kMaxSequenceNumber" "fst h < s"
      using g(3) assms(2) by (auto simp: hist_ok_def)
    have "PackSequenceAndType (fst h) (upd_type (snd h)) \<noteq> PackSequenceAndType s (upd_type u)"
      using Pack_order(3) [OF o(2) assms(3)] o(3) by blast
    then show "mem_compare C k (mem_entry (s, u)) \<noteq> 0"
      using mem_compare_entry [OF o(1), of "(s, u)" C] assms(4) h(1) by (auto simp: Internal_Compare_def Let_def)
  qed
  let ?P = "(\<lambda>k. mem_compare C k (mem_entry (s, u)) < 0) \<circ> mem_entry"
  let ?gs = "takeWhile ?P gs @ (s, u) # dropWhile ?P gs"
  have e: "takeWhile (\<lambda>k. mem_compare C k (mem_entry (s, u)) < 0) (map mem_entry gs) @ mem_entry (s, u) #
      dropWhile (\<lambda>k. mem_compare C k (mem_entry (s, u)) < 0) (map mem_entry gs) = map mem_entry ?gs"
    unfolding takeWhile_map dropWhile_map by simp
  obtain table where
    i: "Insert (mem_compare C) (mem_entry (s, u)) (mt_table m) = Done table"
    "sl_holds (mem_compare C) (mem_valid valid) table (map mem_entry ?gs)"
    using table.Insert_holds [OF g(1) upd_ok_parts(4) [OF assms(4)] ne] unfolding e by blast
  have "set ?gs = insert (s, u) (set (takeWhile ?P gs @ dropWhile ?P gs))"
    by (simp only: set_append set_simps Un_insert_right)
  then have "set ?gs = set (hs @ [(s, u)])" unfolding takeWhile_dropWhile_id g(2) by simp
  moreover have "hist_ok valid (hs @ [(s, u)])"
  proof -
    have "\<forall>h \<in> set hs. fst h < s" using assms(2) by auto
    then show ?thesis using g(3) assms(3,4) unfolding hist_ok_def sorted_wrt_append by simp
  qed
  ultimately have "mem_holds C valid (m\<lparr>mt_table := table\<rparr>) (hs @ [(s, u)]) ?gs"
    unfolding mem_holds_def using i(2) by (intro conjI) simp_all
  with i(1) show ?thesis unfolding Add_entry mem_history_def by auto
qed

lemma handle_update:
  "handle (MemTableInserter C) u (s, m) =
     exec_bind (MemTable_Add C s (upd_type u) (upd_key u) (upd_val u) m) (\<lambda>m. Done (s + 1, m))"
  by (cases u) (simp_all add: MemTableInserter_def)

lemma Max_sequence: "s \<le> kMaxSequenceNumber \<longleftrightarrow> unat s < 2 ^ 56"
  by (simp add: word_le_nat_alt kMaxSequenceNumber_def) linarith

lemma handle_all_history:
  "mem_history C valid m hs \<Longrightarrow> \<forall>(s1, _) \<in> set hs. s1 < s \<Longrightarrow> unat s + length us \<le> 2 ^ 56 \<Longrightarrow>
   \<forall>u \<in> set us. upd_ok valid u \<Longrightarrow>
   \<exists>s1 m1. handle_all (MemTableInserter C) us (s, m) = Done (s1, m1) \<and>
     mem_history C valid m1 (hs @ numbered s us)"
proof (induction us arbitrary: s m hs)
  case (Cons u us)
  have s: "s \<le> kMaxSequenceNumber" using Cons.prems(3) by (simp add: Max_sequence)
  have ok: "upd_ok valid u" using Cons.prems(4) by simp
  obtain m1 where m1: "MemTable_Add C s (upd_type u) (upd_key u) (upd_val u) m = Done m1"
    "mem_history C valid m1 (hs @ [(s, u)])"
    using Add_history [OF Cons.prems(1,2) s ok] by blast
  have s1: "unat (s + 1) = unat s + 1"
    using Cons.prems(3) by (simp add: unat_word_ariths)
  have "\<forall>(s1, _) \<in> set (hs @ [(s, u)]). s1 < s + 1"
    using Cons.prems(2) s1 by (auto simp: word_less_nat_alt)
  moreover have "unat (s + 1) + length us \<le> 2 ^ 56" "\<forall>u \<in> set us. upd_ok valid u"
    using Cons.prems(3,4) s1 by simp_all
  ultimately obtain s2 m2 where "handle_all (MemTableInserter C) us (s + 1, m1) = Done (s2, m2)"
    "mem_history C valid m2 ((hs @ [(s, u)]) @ numbered (s + 1) us)"
    using Cons.IH [OF m1(2)] by blast
  then show ?case using m1(1) by (simp add: handle_update)
qed simp

lemma InsertInto_history:
  assumes "mem_history C valid m hs" "\<forall>(s1, _) \<in> set hs. s1 < s" "unat s + length us \<le> 2 ^ 56"
    and "\<forall>u \<in> set us. upd_ok valid u" "length us < 2 ^ 31"
  shows "\<exists>m1. InsertInto C (batch_rep s us) m = Done (OK, m1) \<and> mem_history C valid m1 (hs @ numbered s us)"
proof -
  have "update_ok u" if "u \<in> set us" for u
    using assms(4) that by (cases u) (auto simp: upd_ok_def)
  then have "Iterate (MemTableInserter C) (batch_rep s us) (s, m) =
      exec_bind (handle_all (MemTableInserter C) us (s, m)) (\<lambda>t. Done (OK, t))"
    by (intro Iterate_batch_rep ballI assms(5))
  moreover obtain s1 m1 where "handle_all (MemTableInserter C) us (s, m) = Done (s1, m1)"
    "mem_history C valid m1 (hs @ numbered s us)"
    using handle_all_history [OF assms(1-4)] by blast
  ultimately show ?thesis by (simp add: InsertInto_def Sequence_batch_rep)
qed

end

text \<open>What a lookup of the key \<open>k\<close> at sequence number \<open>s\<close> is to see.\<close>

definition latest :: "comparator \<Rightarrow> (u64 \<times> update) list \<Rightarrow> slice \<Rightarrow> u64 \<Rightarrow> update option" where
  "latest C hs k s =
     map_option snd (List.find (\<lambda>h. fst h \<le> s \<and> Compare C (upd_key (snd h)) k = 0) (rev hs))"

fun answer :: "update option \<Rightarrow> slice \<times> status \<Rightarrow> bool \<times> slice \<times> status" where
  "answer None out = (False, out)"
| "answer (Some (Put k v)) out = (True, v, snd out)"
| "answer (Some (Delete k)) out = (True, fst out, NotFound [] [])"

lemma find_rev_sorted:
  assumes "sorted_wrt (\<lambda>a b. fst a < (fst b :: u64)) hs" "h \<in> set hs" "P h" "\<forall>g \<in> set hs. P g \<longrightarrow> fst g \<le> fst h"
  shows "List.find P (rev hs) = Some h"
  using assms
proof (induction hs rule: rev_induct)
  case (snoc g hs)
  show ?case
  proof (cases "P g")
    case True
    then have "fst g \<le> fst h" using snoc.prems(4) by simp
    then have "h = g" using snoc.prems(1,2) by (force simp: sorted_wrt_append)
    then show ?thesis using True by simp
  next
    case False
    then show ?thesis using snoc by (auto simp: sorted_wrt_append)
  qed
qed simp

lemma find_none: "\<forall>g \<in> set hs. \<not> P g \<Longrightarrow> List.find P (rev hs) = None"
  by (simp add: find_None_iff)

text \<open>What \<open>Get\<close> does with the entry at which the seek has stopped.\<close>

lemma Get_entry:
  assumes "sl_Seek (mem_compare C) (mt_table m) (memtable_key (LookupKey k s)) = Done (Some x)"
    and "node_key (mt_table m) x = Done (mem_entry e)" "upd_ok v (snd e)"
  shows "MemTable_Get C (LookupKey k s) m out =
    Done (if Compare C (upd_key (snd e)) k = 0 then answer (Some (snd e)) out else (False, out))"
proof -
  let ?ik = "mem_key e" and ?r = "prefixed (upd_val (snd e))" and ?tag = "PackSequenceAndType (fst e) (upd_type (snd e))"
  have len: "length ?ik = length (upd_key (snd e)) + 8" "length ?ik < 2 ^ 32" using assms(3) by (simp_all add: upd_ok_def)
  have entry: "mem_entry e = EncodeVarint32 (of_nat (length ?ik)) @ (?ik @ ?r)"
    by (simp add: mem_entry_def entry_bytes_def prefixed_def)
  obtain q where q: "GetVarint32Ptr (take 5 (mem_entry e)) = Some (of_nat (length ?ik), q)"
    "drop (length (take 5 (mem_entry e)) - length q) (mem_entry e) = ?ik @ ?r"
    using GetVarint32Ptr_take5 [of "of_nat (length ?ik)" "?ik @ ?r"] unfolding entry by blast
  have u: "unat (of_nat (length ?ik) :: u32) = length ?ik"
    unfolding unat_of_nat using len(2) by (intro mod_less) simp
  have "(of_nat (length ?ik) - 8 :: u32) = of_nat (length (upd_key (snd e)))" by simp
  then have u8: "unat (of_nat (length ?ik) - 8 :: u32) = length (upd_key (snd e))"
    using len by (simp add: unat_of_nat del: length_mem_key)
  have key: "take (length (upd_key (snd e))) (?ik @ ?r) = upd_key (snd e)"
    "drop (length (upd_key (snd e))) (?ik @ ?r) = EncodeFixed64 kLittleEndian ?tag @ ?r"
    by (simp_all add: mem_key_def)
  have val: "mem_prefixed (drop (length ?ik) (?ik @ ?r)) = upd_val (snd e)"
    using upd_ok_parts(3) [OF assms(3)] by simp
  show ?thesis
    unfolding MemTable_Get_def assms(1,2) exec_bind.simps option.case q prod.case Let_def u u8 key val
      DecodeFixed64_Encode Pack_parts(1) LookupKey_parts(2)
    by (cases "snd e") (simp_all add: kTypeValue_def kTypeDeletion_def)
qed

context database_keys
begin

lemma Get_history:
  assumes "mem_history C valid m hs" "valid k" "length k + 8 < 2 ^ 32" "s \<le> kMaxSequenceNumber"
  shows "MemTable_Get C (LookupKey k s) m out = Done (answer (latest C hs k s) out)"
proof -
  let ?match = "\<lambda>h. fst h \<le> s \<and> Compare C (upd_key (snd h)) k = 0"
  let ?t = "internal_key (LookupKey k s)"
  obtain gs where g: "sl_holds (mem_compare C) (mem_valid valid) (mt_table m) (map mem_entry gs)"
    "set gs = set hs" "hist_ok valid hs"
    using assms(1) by (auto simp: mem_history_def mem_holds_def)
  have ok: "upd_ok valid (snd h)" "fst h \<le> kMaxSequenceNumber" if "h \<in> set gs" for h
    using g(2,3) that by (auto simp: hist_ok_def)
  have t: "ExtractUserKey ?t = k" "internal_num ?t = PackSequenceAndType s kValueTypeForSeek" "length ?t < 2 ^ 32"
    using assms(3) by (simp_all add: LookupKey_parts)
  have mk: "memtable_key (LookupKey k s) = prefixed ?t" using LookupKey_parts(3) [OF assms(3)] .
  have tv: "mem_valid valid (prefixed ?t)"
    using assms(2) t by (simp add: mem_valid_def mem_prefixed_prefixed internal_valid_def LookupKey_parts)
  have before: "mem_compare C (mem_entry h) (prefixed ?t) < 0 \<longleftrightarrow>
      Compare C (upd_key (snd h)) k < 0 \<or> Compare C (upd_key (snd h)) k = 0 \<and> s < fst h" if "h \<in> set gs" for h
  proof -
    have "s < fst h \<longleftrightarrow> PackSequenceAndType s kValueTypeForSeek < PackSequenceAndType (fst h) (upd_type (snd h))"
      using Pack_order(1) [OF ok(2) [OF that] assms(4), of "snd h"] by (meson linorder_not_le)
    then show ?thesis
      using upd_ok_parts(2) [OF ok(1) [OF that], of "fst h"] mem_prefixed_prefixed(2) [OF t(3)]
      by (simp add: mem_compare_def InternalKeyComparator_def Internal_less(2) t(1,2))
  qed
  have sorted: "sorted_wrt (\<lambda>a b. Internal_Compare C (mem_key a) (mem_key b) < 0) gs"
    using sl_holds_sorted [OF g(1)] ok by blast
  let ?P = "(\<lambda>e. mem_compare C e (prefixed ?t) < 0) \<circ> mem_entry"
  obtain it where it: "sl_Seek (mem_compare C) (mt_table m) (prefixed ?t) = Done it"
    "sl_pos (mem_compare C) (mem_valid valid) (mt_table m) (map mem_entry gs) (length (takeWhile ?P gs)) it"
    using table.Seek_pos [OF g(1) tv] unfolding takeWhile_map length_map by blast
  show ?thesis
  proof (cases "dropWhile ?P gs")
    case Nil
    have none: "\<not> ?match h" if "h \<in> set gs" for h
    proof -
      have "?P h" using Nil that unfolding dropWhile_eq_Nil_conv by blast
      then show ?thesis using before [OF that] by auto
    qed
    have "takeWhile ?P gs = gs" using takeWhile_dropWhile_id [of ?P gs] unfolding Nil append_Nil2 .
    then have "\<not> sl_Valid it" using sl_pos_Valid [OF it(2)] unfolding length_map by (metis less_irrefl)
    then have "it = None" by (simp add: sl_Valid_def)
    moreover have "List.find ?match (rev hs) = None" using none g(2) by (intro find_none) blast
    ultimately show ?thesis by (simp add: MemTable_Get_def mk it(1) latest_def)
  next
    case (Cons e rest)
    have split: "gs = takeWhile ?P gs @ e # rest" using Cons by (metis takeWhile_dropWhile_id)
    then have e: "e \<in> set gs" and rest: "set rest \<subseteq> set gs"
      by (metis in_set_conv_decomp, metis set_append set_subset_Cons sup.coboundedI2)
    have nth: "length (takeWhile ?P gs) < length gs" "gs ! length (takeWhile ?P gs) = e"
      using arg_cong [OF split, of length] by (simp, metis split nth_append_length)
    obtain x where x: "it = Some x" "node_key (mt_table m) x = Done (mem_entry e)"
      using sl_pos_key [OF it(2)] nth by auto
    note get = Get_entry [OF it(1) [unfolded x(1), folded mk] x(2) ok(1) [OF e], of out]
    have notP: "\<not> ?P e" using Cons by (metis dropWhile_eq_Cons_conv)
    have after: "g = e \<or> g \<in> set rest" if "g \<in> set gs" "?match g" for g
    proof -
      have "\<not> ?P g" using before [OF that(1)] that(2) by auto
      then have "g \<notin> set (takeWhile ?P gs)" by (metis set_takeWhileD)
      moreover have "g \<in> set (takeWhile ?P gs @ e # rest)" using that(1) by (simp only: split [symmetric])
      ultimately show ?thesis unfolding set_append set_simps by blast
    qed
    have less: "Internal_Compare C (mem_key e) (mem_key g) < 0" if "g \<in> set rest" for g
    proof -
      have "sorted_wrt (\<lambda>a b. Internal_Compare C (mem_key a) (mem_key b) < 0) (takeWhile ?P gs @ e # rest)"
        using sorted by (simp only: split [symmetric])
      then show ?thesis using that unfolding sorted_wrt_append sorted_wrt.simps by blast
    qed
    have v: "valid (upd_key (snd g))" if "g \<in> set gs" for g using ok(1) [OF that] by (simp add: upd_ok_def)
    show ?thesis
    proof (cases "Compare C (upd_key (snd e)) k = 0")
      case True
      then have me: "?match e" using notP before [OF e] by auto
      have "fst g \<le> fst e" if "g \<in> set hs" "?match g" for g
      proof (cases "g = e")
        case False
        from that have gs: "g \<in> set gs" using g(2) by blast
        with after [OF gs] that(2) False have gr: "g \<in> set rest" "g \<in> set gs" by blast+
        have "\<not> Compare C (upd_key (snd e)) (upd_key (snd g)) < 0"
          using compare_less_trans(1) [OF v [OF e] v [OF gr(2)] assms(2)] that(2) True by force
        then have "PackSequenceAndType (fst g) (upd_type (snd g)) < PackSequenceAndType (fst e) (upd_type (snd e))"
          using less [OF gr(1)] by (auto simp: Internal_less)
        then show ?thesis using Pack_order(2) ok(2) gr(2) e by blast
      qed simp
      then have "List.find ?match (rev hs) = Some e"
        using g(2,3) e me by (intro find_rev_sorted) (auto simp: hist_ok_def)
      then show ?thesis using get True by (simp add: latest_def)
    next
      case False
      have "\<not> ?match g" if "g \<in> set hs" for g
      proof
        assume m: "?match g"
        from that have gs: "g \<in> set gs" using g(2) by blast
        have "g \<noteq> e" using m False by blast
        with after [OF gs m] gs have gr: "g \<in> set gs" "g \<in> set rest" by blast+
        have "Compare C (upd_key (snd e)) (upd_key (snd g)) \<le> 0"
          using less [OF gr(2)] by (auto simp: Internal_less)
        then have "Compare C (upd_key (snd e)) k \<le> 0"
          using compare_trans [OF v [OF e] v [OF gr(1)] assms(2)] m by simp
        then show False using False notP before [OF e] by auto
      qed
      then have "List.find ?match (rev hs) = None" by (intro find_none) blast
      then show ?thesis using get False by (simp add: latest_def)
    qed
  qed
qed

end


subsection \<open>The iterator of the memtable\<close>

definition mem_pair :: "u64 \<times> update \<Rightarrow> slice \<times> slice" where
  "mem_pair g = (mem_key g, upd_val (snd g))"

definition mem_pos :: "comparator \<Rightarrow> (slice \<Rightarrow> bool) \<Rightarrow> memtable \<Rightarrow> pairs \<Rightarrow> nat \<Rightarrow> nat option \<Rightarrow> bool" where
  "mem_pos C v m kvs i it \<longleftrightarrow> (\<exists>gs. sl_pos (mem_compare C) (mem_valid v) (mt_table m) (map mem_entry gs) i it \<and>
     kvs = map mem_pair gs \<and> (\<forall>g \<in> set gs. upd_ok v (snd g)))"

interpretation mem_cursor: cursor sl_Valid "MemIter_key m" "MemIter_value m" "MemIter_Next m" "mem_pos C v m"
proof
  fix kvs i it assume "mem_pos C v m kvs i it"
  then obtain gs where p: "sl_pos (mem_compare C) (mem_valid v) (mt_table m) (map mem_entry gs) i it"
    and k: "kvs = map mem_pair gs" "\<forall>g \<in> set gs. upd_ok v (snd g)"
    by (auto simp: mem_pos_def)
  show "sl_Valid it \<longleftrightarrow> i < length kvs" using sl_pos_Valid [OF p] k(1) by simp
  assume i: "i < length kvs"
  then obtain x where x: "it = Some x" "key_at (mt_table m) x = mem_entry (gs ! i)"
    using sl_pos_key [OF p] k(1) by auto
  have "upd_ok v (snd (gs ! i))" using k i by simp
  from upd_ok_parts(1,2) [OF this, of "fst (gs ! i)"] upd_ok_parts(3) [OF this] show "(MemIter_key m it, MemIter_value m it) = kvs ! i"
    using x i k(1) by (simp add: MemIter_key_def MemIter_value_def MemIter_entry_def mem_pair_def)
  show "\<exists>it1. MemIter_Next m it = Done it1 \<and> mem_pos C v m kvs (Suc i) it1"
    using sl_pos_Next [OF p] i k by (auto simp: MemIter_Next_def mem_pos_def)
qed

sublocale database_keys \<subseteq> mem: two_way_cursor sl_Valid "MemIter_key m" "MemIter_value m" "MemIter_Next m"
  "mem_pos C valid m" "MemIter_Prev C m" for m
proof
  fix kvs i it assume "mem_pos C valid m kvs i it" and i: "i < length kvs"
  then obtain gs where p: "sl_pos (mem_compare C) (mem_valid valid) (mt_table m) (map mem_entry gs) i it"
    and k: "kvs = map mem_pair gs" "\<forall>g \<in> set gs. upd_ok valid (snd g)"
    by (auto simp: mem_pos_def)
  obtain it1 where "MemIter_Prev C m it = Done it1"
    "if i = 0 then it1 = None else sl_pos (mem_compare C) (mem_valid valid) (mt_table m) (map mem_entry gs) (i - 1) it1"
    using table.Prev_pos [OF p] i k(1) by (auto simp: MemIter_Prev_def)
  then show "\<exists>it1. MemIter_Prev C m it = Done it1 \<and> (if i = 0 then \<not> sl_Valid it1 else mem_pos C valid m kvs (i - 1) it1)"
    using k by (intro exI [of _ it1]) (auto simp: sl_Valid_def mem_pos_def split: if_splits)
qed

context database_keys
begin

text \<open>A scan of the memtable: every update of the history once, in the order of the internal keys.\<close>

lemma mem_scan:
  assumes "mem_history C valid m hs"
  shows "\<exists>gs first end_it. set gs = set hs \<and> sorted_wrt (\<lambda>a b. Internal_Compare C (mem_key a) (mem_key b) < 0) gs \<and>
    MemIter_SeekToFirst m = Done first \<and> MemIter_SeekToLast m = Done end_it \<and>
    (\<forall>fuel > Suc (length gs).
       iterate sl_Valid (MemIter_key m) (MemIter_value m) (MemIter_Next m) fuel first = Done (map mem_pair gs) \<and>
       iterate sl_Valid (MemIter_key m) (MemIter_value m) (MemIter_Prev C m) fuel end_it = Done (rev (map mem_pair gs)))"
proof -
  obtain gs where g: "sl_holds (mem_compare C) (mem_valid valid) (mt_table m) (map mem_entry gs)"
    "set gs = set hs" "hist_ok valid hs"
    using assms by (auto simp: mem_history_def mem_holds_def)
  have ok: "\<forall>g \<in> set gs. upd_ok valid (snd g)" using g(2,3) by (auto simp: hist_ok_def)
  have sorted: "sorted_wrt (\<lambda>a b. Internal_Compare C (mem_key a) (mem_key b) < 0) gs"
    using sl_holds_sorted [OF g(1)] ok by blast
  obtain f where f: "MemIter_SeekToFirst m = Done f" "mem_pos C valid m (map mem_pair gs) 0 f"
    using sl_SeekToFirst_pos [OF g(1)] ok by (auto simp: MemIter_SeekToFirst_def mem_pos_def)
  obtain e where "MemIter_SeekToLast m = Done e" and e: "if map mem_entry gs = [] then e = None else
      sl_pos (mem_compare C) (mem_valid valid) (mt_table m) (map mem_entry gs) (length (map mem_entry gs) - 1) e"
    using sl_SeekToLast_pos [OF g(1)] by (auto simp: MemIter_SeekToLast_def)
  moreover have "map mem_pair gs \<noteq> [] \<Longrightarrow> mem_pos C valid m (map mem_pair gs) (length (map mem_pair gs) - 1) e"
    using e ok by (auto simp: mem_pos_def)
  moreover have "map mem_pair gs = [] \<Longrightarrow> \<not> sl_Valid e" using e by (simp add: sl_Valid_def)
  ultimately show ?thesis
    using g(2) sorted f(1) mem.both_ways [where end_it = e, OF f(2)] by (intro exI [of _ gs] exI [of _ f] exI [of _ e]) simp
qed

end

end
