(* ===== verification/Ldb_Block.thy ===== *)
theory Ldb_Block
  imports Ldb_Dbformat
begin

text \<open>
  The blocks of LevelDB's tables: the builder (\<open>table/block_builder.h\<close>,
  \<open>table/block_builder.cc\<close>), which compresses the common prefixes of neighbouring keys, and the
  block with its iterator (\<open>table/block.h\<close>, \<open>table/block.cc\<close>). A read outside the block is
  the outcome \<open>Undefined\<close>; loops whose number of turns depends on the contents of the block take
  fuel. The assertions of \<open>Add\<close> (the builder is not finished, keys come in increasing order, the
  counter is at most the interval) are preconditions of its caller and not part of the model.
\<close>

unbundle bit_operations_syntax

subsection \<open>The builder\<close>

record block_builder =
  bb_buffer :: "u8 list"
  bb_restarts :: "u32 list"
  bb_counter :: nat
  bb_finished :: bool
  bb_last_key :: slice

definition BlockBuilder :: block_builder where
  "BlockBuilder = \<lparr>bb_buffer = [], bb_restarts = [0], bb_counter = 0, bb_finished = False, bb_last_key = []\<rparr>"

definition Block_Reset :: "block_builder \<Rightarrow> block_builder" where
  "Block_Reset b =
     b\<lparr>bb_buffer := [], bb_restarts := [0], bb_counter := 0, bb_finished := False, bb_last_key := []\<rparr>"

definition CurrentSizeEstimate :: "block_builder \<Rightarrow> nat" where
  "CurrentSizeEstimate b = length (bb_buffer b) + length (bb_restarts b) * 4 + 4"

definition Block_empty :: "block_builder \<Rightarrow> bool" where
  "Block_empty b \<longleftrightarrow> bb_buffer b = []"

definition Block_Finish :: "block_builder \<Rightarrow> slice \<times> block_builder" where
  "Block_Finish b =
     (let buf = fold (\<lambda>r buf. PutFixed32 buf r) (bb_restarts b) (bb_buffer b);
          buf = PutFixed32 buf (of_nat (length (bb_restarts b)))
      in (buf, b\<lparr>bb_buffer := buf, bb_finished := True\<rparr>))"

text \<open>\<open>interval\<close> is the option \<open>block_restart_interval\<close>.\<close>

definition Block_Add :: "nat \<Rightarrow> slice \<Rightarrow> slice \<Rightarrow> block_builder \<Rightarrow> block_builder" where
  "Block_Add interval key val b =
     (let compress = bb_counter b < interval;
          shared = (if compress then common_prefix (bb_last_key b) key else 0);
          b = (if compress then b
               else b\<lparr>bb_restarts := bb_restarts b @ [of_nat (length (bb_buffer b))], bb_counter := 0\<rparr>);
          non_shared = length key - shared;
          buf = PutVarint32 (bb_buffer b) (of_nat shared);
          buf = PutVarint32 buf (of_nat non_shared);
          buf = PutVarint32 buf (of_nat (length val));
          buf = buf @ drop shared key;
          buf = buf @ val
      in b\<lparr>bb_buffer := buf, bb_last_key := take shared (bb_last_key b) @ drop shared key,
           bb_counter := bb_counter b + 1\<rparr>)"

subsection \<open>The block\<close>

record block =
  blk_data :: slice
  blk_size :: nat
  blk_restart_offset :: u32

definition NumRestarts :: "slice \<Rightarrow> nat \<Rightarrow> u32" where
  "NumRestarts data sz = DecodeFixed32 kLittleEndian (drop (sz - 4) data)"

definition Block :: "slice \<Rightarrow> block" where
  "Block contents =
     (let sz = length contents in
      if sz < 4 then \<lparr>blk_data = contents, blk_size = 0, blk_restart_offset = 0\<rparr>
      else
        let max_restarts_allowed = (sz - 4) div 4; num = NumRestarts contents sz
        in if max_restarts_allowed < unat num
           then \<lparr>blk_data = contents, blk_size = 0, blk_restart_offset = 0\<rparr>
           else \<lparr>blk_data = contents, blk_size = sz,
                 blk_restart_offset = ucast ((of_nat sz :: u64) - ucast (1 + num) * 4)\<rparr>)"

text \<open>
  The entry at offset \<open>p\<close>: the offset of the key delta and the three lengths. The sum of the
  lengths is a 32-bit sum.
\<close>

definition DecodeEntry :: "slice \<Rightarrow> nat \<Rightarrow> nat \<Rightarrow> (nat \<times> u32 \<times> u32 \<times> u32) option" where
  "DecodeEntry data p limit =
     (let check = (\<lambda>p shared non_shared value_length.
            if (of_nat (limit - p) :: u32) < non_shared + value_length then None
            else Some (p, shared, non_shared, value_length))
      in if limit < p + 3 then None
         else
           let shared = ucast (data ! p); non_shared = ucast (data ! (p + 1)); value_length = ucast (data ! (p + 2))
           in if shared OR non_shared OR value_length < (128 :: u32)
              then check (p + 3) shared non_shared value_length
              else
                (case GetVarint32Ptr (drop p (take limit data)) of
                   None \<Rightarrow> None
                 | Some (shared, p1) \<Rightarrow>
                     (case GetVarint32Ptr p1 of
                        None \<Rightarrow> None
                      | Some (non_shared, p2) \<Rightarrow>
                          (case GetVarint32Ptr p2 of
                             None \<Rightarrow> None
                           | Some (value_length, p3) \<Rightarrow>
                               check (limit - length p3) shared non_shared value_length))))"

subsection \<open>The iterator\<close>

text \<open>
  \<open>value_\<close> is a pointer into the block and a length: here an offset and a length, or \<open>None\<close> when
  it is the empty slice that does not point into the block.
\<close>

record block_iter =
  it_data :: slice
  it_restarts :: u32
  it_num_restarts :: u32
  it_current :: u32
  it_restart_index :: u32
  it_key :: slice
  it_value :: "(nat \<times> nat) option"
  it_status :: status

definition Iter :: "slice \<Rightarrow> u32 \<Rightarrow> u32 \<Rightarrow> block_iter" where
  "Iter data restarts num_restarts =
     \<lparr>it_data = data, it_restarts = restarts, it_num_restarts = num_restarts, it_current = restarts,
      it_restart_index = num_restarts, it_key = [], it_value = None, it_status = OK\<rparr>"

definition Valid :: "block_iter \<Rightarrow> bool" where "Valid it \<longleftrightarrow> it_current it < it_restarts it"

text \<open>The value is a slice of the block. In a corrupted block its end may lie outside (the sum that
  \<open>DecodeEntry\<close> checks can wrap); C++ would then hand out the bytes behind the block, here it is cut
  at the end of the block.\<close>

definition iter_value :: "block_iter \<Rightarrow> slice" where
  "iter_value it = (case it_value it of None \<Rightarrow> [] | Some (off, len) \<Rightarrow> take len (drop off (it_data it)))"

definition NextEntryOffset :: "block_iter \<Rightarrow> u32 exec" where
  "NextEntryOffset it = (case it_value it of None \<Rightarrow> Undefined | Some (off, len) \<Rightarrow> Done (of_nat (off + len)))"

definition GetRestartPoint :: "block_iter \<Rightarrow> u32 \<Rightarrow> u32" where
  "GetRestartPoint it index =
     DecodeFixed32 kLittleEndian (drop (unat (it_restarts it) + unat index * 4) (it_data it))"

definition SeekToRestartPoint :: "u32 \<Rightarrow> block_iter \<Rightarrow> block_iter" where
  "SeekToRestartPoint index it =
     it\<lparr>it_key := [], it_restart_index := index, it_value := Some (unat (GetRestartPoint it index), 0)\<rparr>"

definition CorruptionError :: "block_iter \<Rightarrow> block_iter" where
  "CorruptionError it =
     it\<lparr>it_current := it_restarts it, it_restart_index := it_num_restarts it,
        it_status := Corruption (str ''bad entry in block'') [], it_key := [], it_value := None\<rparr>"

function advance_restart :: "block_iter \<Rightarrow> block_iter" where
  "advance_restart it =
     (if it_restart_index it + 1 < it_num_restarts it \<and>
         GetRestartPoint it (it_restart_index it + 1) < it_current it
      then advance_restart (it\<lparr>it_restart_index := it_restart_index it + 1\<rparr>)
      else it)"
  by pat_completeness auto
termination
proof (relation "measure (\<lambda>it. unat (it_num_restarts it - it_restart_index it - 1))")
  fix it :: block_iter
  let ?n = "it_num_restarts it" and ?i = "it_restart_index it"
  assume "?i + 1 < ?n \<and> GetRestartPoint it (?i + 1) < it_current it"
  then have l: "?i + 1 < ?n" by simp
  then have "?n - ?i - 1 \<noteq> 0" by (auto simp: algebra_simps)
  then have "unat (?n - ?i - 1 - 1) < unat (?n - ?i - 1)"
    by (metis unat_minus_one diff_less unat_gt_0 less_one word_gt_0 gr_zeroI unat_eq_0)
  then show "(it\<lparr>it_restart_index := ?i + 1\<rparr>, it) \<in> measure (\<lambda>it. unat (it_num_restarts it - it_restart_index it - 1))"
    by (simp add: algebra_simps)
qed simp

declare advance_restart.simps [simp del]

definition ParseNextKey :: "block_iter \<Rightarrow> (bool \<times> block_iter) exec" where
  "ParseNextKey it =
     exec_bind (NextEntryOffset it) (\<lambda>current.
       let p = unat current; limit = unat (it_restarts it)
       in if limit \<le> p then
            Done (False, it\<lparr>it_current := it_restarts it, it_restart_index := it_num_restarts it\<rparr>)
          else
            (case DecodeEntry (it_data it) p limit of
               None \<Rightarrow> Done (False, CorruptionError it)
             | Some (q, shared, non_shared, value_length) \<Rightarrow>
                 if length (it_key it) < unat shared then Done (False, CorruptionError it)
                 else if length (it_data it) < q + unat non_shared then Undefined
                 else
                   Done (True, advance_restart
                     (it\<lparr>it_current := current,
                        it_key := take (unat shared) (it_key it) @ take (unat non_shared) (drop q (it_data it)),
                        it_value := Some (q + unat non_shared, unat value_length)\<rparr>))))"

definition Block_Next :: "block_iter \<Rightarrow> block_iter exec" where
  "Block_Next it = exec_bind (ParseNextKey it) (\<lambda>(_, it). Done it)"

text \<open>\<open>Prev\<close>: the scan backwards to a restart point before \<open>current_\<close>; \<open>None\<close>: no more entries.\<close>

fun scan_back :: "nat \<Rightarrow> block_iter \<Rightarrow> u32 \<Rightarrow> u32 \<Rightarrow> u32 option exec" where
  "scan_back 0 it original index = Out_of_fuel"
| "scan_back (Suc fuel) it original index =
     (if original \<le> GetRestartPoint it index then
        if index = 0 then Done None else scan_back fuel it original (index - 1)
      else Done (Some index))"

text \<open>\<open>do { } while (ParseNextKey() && NextEntryOffset() < bound)\<close>.\<close>

fun skip_to :: "nat \<Rightarrow> u32 \<Rightarrow> block_iter \<Rightarrow> block_iter exec" where
  "skip_to 0 bound it = Out_of_fuel"
| "skip_to (Suc fuel) bound it =
     exec_bind (ParseNextKey it) (\<lambda>(ok, it).
       if ok then exec_bind (NextEntryOffset it) (\<lambda>off. if off < bound then skip_to fuel bound it else Done it)
       else Done it)"

definition Block_Prev :: "nat \<Rightarrow> block_iter \<Rightarrow> block_iter exec" where
  "Block_Prev fuel it =
     (let original = it_current it in
      exec_bind (scan_back fuel it original (it_restart_index it)) (\<lambda>r.
        case r of
          None \<Rightarrow> Done (it\<lparr>it_current := it_restarts it, it_restart_index := it_num_restarts it\<rparr>)
        | Some index \<Rightarrow> skip_to fuel original (SeekToRestartPoint index it)))"

text \<open>The binary search over the restart points; \<open>None\<close>: a bad entry.\<close>

fun restart_search :: "nat \<Rightarrow> comparator \<Rightarrow> block_iter \<Rightarrow> slice \<Rightarrow> u32 \<Rightarrow> u32 \<Rightarrow> u32 option exec" where
  "restart_search 0 C it target left right = Out_of_fuel"
| "restart_search (Suc fuel) C it target left right =
     (if left < right then
        let mid = (left + right + 1) div 2;
            region_offset = GetRestartPoint it mid
        in case DecodeEntry (it_data it) (unat region_offset) (unat (it_restarts it)) of
             None \<Rightarrow> Done None
           | Some (key_ptr, shared, non_shared, value_length) \<Rightarrow>
               if shared \<noteq> 0 then Done None
               else if length (it_data it) < key_ptr + unat non_shared then Undefined
               else if Compare C (take (unat non_shared) (drop key_ptr (it_data it))) target < 0
                    then restart_search fuel C it target mid right
                    else restart_search fuel C it target left (mid - 1)
      else Done (Some left))"

fun linear_search :: "nat \<Rightarrow> comparator \<Rightarrow> slice \<Rightarrow> block_iter \<Rightarrow> block_iter exec" where
  "linear_search 0 C target it = Out_of_fuel"
| "linear_search (Suc fuel) C target it =
     exec_bind (ParseNextKey it) (\<lambda>(ok, it).
       if \<not> ok then Done it
       else if 0 \<le> Compare C (it_key it) target then Done it
       else linear_search fuel C target it)"

definition Block_Seek :: "nat \<Rightarrow> comparator \<Rightarrow> slice \<Rightarrow> block_iter \<Rightarrow> block_iter exec" where
  "Block_Seek fuel C target it =
     exec_bind (restart_search fuel C it target 0 (it_num_restarts it - 1)) (\<lambda>r.
       case r of
         None \<Rightarrow> Done (CorruptionError it)
       | Some left \<Rightarrow> linear_search fuel C target (SeekToRestartPoint left it))"

definition SeekToFirst :: "block_iter \<Rightarrow> block_iter exec" where
  "SeekToFirst it = exec_bind (ParseNextKey (SeekToRestartPoint 0 it)) (\<lambda>(_, it). Done it)"

definition SeekToLast :: "nat \<Rightarrow> block_iter \<Rightarrow> block_iter exec" where
  "SeekToLast fuel it = skip_to fuel (it_restarts it) (SeekToRestartPoint (it_num_restarts it - 1) it)"

datatype new_iterator = ErrorIterator status | EmptyIterator | BlockIterator block_iter

definition NewIterator :: "block \<Rightarrow> new_iterator" where
  "NewIterator b =
     (if blk_size b < 4 then ErrorIterator (Corruption (str ''bad block contents'') [])
      else
        let num_restarts = NumRestarts (blk_data b) (blk_size b)
        in if num_restarts = 0 then EmptyIterator
           else BlockIterator (Iter (blk_data b) (blk_restart_offset b) num_restarts))"

end
