(* ===== verification/Ldb_Block_Proofs.thy ===== *)
theory Ldb_Block_Proofs
  imports Ldb_Block
begin

text \<open>
  A block holds what was added to it. The builder's buffer is described as a list of entries
  with the lengths of the shared prefixes; the iterator, when it stands at the i-th entry, has
  the i-th key and value. From this: a scan forwards, a scan backwards and a seek with the
  comparator agree with the list of pairs that was added.
\<close>

unbundle bit_operations_syntax

subsection \<open>Decoding one entry\<close>

lemma less_128_iff: "(x :: u32) < 128 \<longleftrightarrow> (\<forall>n \<ge> 7. \<not> bit x n)"
proof -
  have "x < 128 \<longleftrightarrow> unat x < 2 ^ 7" by (simp add: word_less_nat_alt)
  also have "\<dots> \<longleftrightarrow> take_bit 7 x = x"
    by (simp only: word_unat_eq_iff unsigned_take_bit_eq) (metis take_bit_nat_eq_self_iff)
  also have "\<dots> \<longleftrightarrow> (\<forall>n \<ge> 7. \<not> bit x n)"
    by (metis bit_take_bit_iff bit_word_eqI linorder_not_le)
  finally show ?thesis .
qed

lemma or3_less_128: "(x OR y OR z :: u32) < 128 \<longleftrightarrow> x < 128 \<and> y < 128 \<and> z < 128"
  by (auto simp: less_128_iff bit_or_iff)

lemma ucast_less_128: "(ucast (b :: u8) :: u32) < 128 \<longleftrightarrow> unat b < 128"
  by (simp add: word_less_nat_alt unsigned_ucast_eq take_bit_nat_eq_self unsigned_less [THEN less_trans])

lemma Enc_small: "unat (hd (EncodeVarint32 v)) < 128 \<Longrightarrow> EncodeVarint32 v = [ucast v] \<and> v < 128"
  using vbytes_hd [of "unat v"] by (simp add: EncodeVarint32_vbytes [symmetric] EncodeVarint32_def word_less_nat_alt)

lemma Enc_not_Nil [simp]: "EncodeVarint32 v \<noteq> []"
  by (simp add: EncodeVarint32_vbytes)

lemma ucast_u8_u32: "v < 128 \<Longrightarrow> ucast (ucast (v :: u32) :: u8) = v"
proof -
  assume "v < 128"
  then have "n < 8" if "bit v n" for n
    using that less_128_iff [of v] by (cases "n < 8") auto
  then show ?thesis by (intro bit_word_eqI) (auto simp: bit_simps)
qed

lemma fast_entry:
  assumes "xs = EncodeVarint32 a @ EncodeVarint32 b @ EncodeVarint32 c @ r"
    and "ucast (xs ! 0) OR ucast (xs ! 1) OR ucast (xs ! 2) < (128 :: u32)"
  shows "xs = ucast a # ucast b # ucast c # r" "a < 128" "b < 128" "c < 128"
proof -
  have l: "unat (xs ! 0) < 128" "unat (xs ! 1) < 128" "unat (xs ! 2) < 128"
    using assms(2) by (simp_all add: or3_less_128 ucast_less_128)
  have a: "EncodeVarint32 a = [ucast a] \<and> a < 128"
    using l(1) by (intro Enc_small) (simp add: assms(1) nth_append hd_conv_nth)
  have b: "EncodeVarint32 b = [ucast b] \<and> b < 128"
    using l(2) a by (intro Enc_small) (simp add: assms(1) nth_append hd_conv_nth)
  have c: "EncodeVarint32 c = [ucast c] \<and> c < 128"
    using l(3) a b by (intro Enc_small) (simp add: assms(1) nth_append hd_conv_nth)
  show "xs = ucast a # ucast b # ucast c # r" "a < 128" "b < 128" "c < 128"
    using a b c by (simp_all add: assms(1))
qed

lemma DecodeEntry_entry:
  assumes "take limit data = pre @ EncodeVarint32 a @ EncodeVarint32 b @ EncodeVarint32 c @ body"
    and "limit \<le> length data" "length data < 2 ^ 32" "unat b + unat c \<le> length body"
  shows "DecodeEntry data (length pre) limit =
    Some (length pre + length (EncodeVarint32 a @ EncodeVarint32 b @ EncodeVarint32 c), a, b, c)"
proof -
  let ?xs = "EncodeVarint32 a @ EncodeVarint32 b @ EncodeVarint32 c @ body"
  have len: "limit = length pre + length ?xs"
    using arg_cong [OF assms(1), of length] assms(2) by simp
  have dr: "drop (length pre) (take limit data) = ?xs" using assms(1) by simp
  have pos: "0 < length (EncodeVarint32 v)" for v by simp
  have l3: "3 \<le> length ?xs" using pos [of a] pos [of b] pos [of c] unfolding length_append by linarith
  have nth: "data ! (length pre + j) = ?xs ! j" if "j < length ?xs" for j
    using dr that len by (metis add_leE assms(2) le_add1 nat_add_left_cancel_less nth_append_length_plus nth_take assms(1))
  have n3: "data ! length pre = ?xs ! 0" "data ! (length pre + 1) = ?xs ! 1" "data ! (length pre + 2) = ?xs ! 2"
    using nth [of 0] nth [of 1] nth [of 2] l3 by simp_all
  have "unat b + unat c < 2 ^ 32" "length body < 2 ^ 32"
    using assms(2-4) len by simp_all
  then have s: "unat (b + c) = unat b + unat c" "unat (of_nat (length body) :: u32) = length body"
    by (simp_all add: unat_word_ariths unat_of_nat)
  then have chk: "\<not> (of_nat (length body) :: u32) < b + c"
    using assms(4) by (simp add: word_less_nat_alt)
  show ?thesis
  proof (cases "ucast (?xs ! 0) OR ucast (?xs ! 1) OR ucast (?xs ! 2) < (128 :: u32)")
    case True
    note f = fast_entry [OF refl True]
    have e: "length (EncodeVarint32 a @ EncodeVarint32 b @ EncodeVarint32 c) = 3"
      using arg_cong [OF f(1), of length] by simp
    have "limit - (length pre + 3) = length body" using len e by simp
    moreover have "ucast (?xs ! 0) = a" "ucast (?xs ! 1) = b" "ucast (?xs ! 2) = c"
      unfolding f(1) using f(2-4) by (simp_all add: ucast_u8_u32)
    ultimately show ?thesis
      unfolding DecodeEntry_def Let_def n3 e using True len l3 chk by simp
  next
    case False
    have "limit - length body = length pre + length (EncodeVarint32 a @ EncodeVarint32 b @ EncodeVarint32 c)"
      using len by simp
    moreover have "limit - (limit - length body) = length body" using len by simp
    ultimately show ?thesis
      unfolding DecodeEntry_def Let_def n3 dr if_not_P [OF False]
      using len l3 chk by (simp add: varint32.dec_enc)
  qed
qed

subsection \<open>Entries\<close>

text \<open>An entry: the length of the prefix shared with the key before, the key and the value.\<close>

type_synonym entry = "nat \<times> slice \<times> slice"

definition e_shared :: "entry \<Rightarrow> nat" where "e_shared e = fst e"
definition e_key :: "entry \<Rightarrow> slice" where "e_key e = fst (snd e)"
definition e_val :: "entry \<Rightarrow> slice" where "e_val e = snd (snd e)"

definition e_header :: "entry \<Rightarrow> u8 list" where
  "e_header e = EncodeVarint32 (of_nat (e_shared e)) @ EncodeVarint32 (of_nat (length (e_key e) - e_shared e)) @
     EncodeVarint32 (of_nat (length (e_val e)))"

definition e_bytes :: "entry \<Rightarrow> u8 list" where
  "e_bytes e = e_header e @ drop (e_shared e) (e_key e) @ e_val e"

definition entries_bytes :: "entry list \<Rightarrow> u8 list" where
  "entries_bytes es = concat (map e_bytes es)"

definition off :: "entry list \<Rightarrow> nat \<Rightarrow> nat" where
  "off es i = length (entries_bytes (take i es))"

lemma entries_bytes_simps [simp]:
  "entries_bytes [] = []" "entries_bytes (e # es) = e_bytes e @ entries_bytes es"
  "entries_bytes (es @ fs) = entries_bytes es @ entries_bytes fs"
  by (simp_all add: entries_bytes_def)

lemma off_simps [simp]: "off es 0 = 0" "off es (length es) = length (entries_bytes es)"
  by (simp_all add: off_def)

lemma off_append: "i \<le> length es \<Longrightarrow> off (es @ fs) i = off es i"
  by (simp add: off_def)

lemma off_Suc: "i < length es \<Longrightarrow> off es (Suc i) = off es i + length (e_bytes (es ! i))"
  by (simp add: off_def take_Suc_conv_app_nth)

lemma e_bytes_pos: "0 < length (e_bytes e)"
  by (simp add: e_bytes_def e_header_def)

lemma off_mono: "i \<le> j \<Longrightarrow> off es i \<le> off es j"
proof -
  assume "i \<le> j"
  then have "take j es = take i es @ take (j - i) (drop i es)"
    by (metis le_add_diff_inverse take_add)
  then show ?thesis by (simp add: off_def)
qed

lemma off_less: "i < j \<Longrightarrow> j \<le> length es \<Longrightarrow> off es i < off es j"
  using off_Suc [of i es] off_mono [of "Suc i" j es] e_bytes_pos [of "es ! i"] by linarith

lemma off_less_iff: "i \<le> length es \<Longrightarrow> j \<le> length es \<Longrightarrow> off es i < off es j \<longleftrightarrow> i < j"
  using off_less off_mono by (metis linorder_not_le)

lemma off_le_end: "off es i \<le> length (entries_bytes es)"
  using off_mono [of i "max i (length es)" es] by (simp add: off_def max_def split: if_splits)

lemma entries_split:
  "i < length es \<Longrightarrow> entries_bytes es = entries_bytes (take i es) @ e_bytes (es ! i) @ entries_bytes (drop (Suc i) es)"
  by (metis id_take_nth_drop entries_bytes_simps(2,3))

definition prev_key :: "entry list \<Rightarrow> nat \<Rightarrow> slice" where
  "prev_key es i = (if i = 0 then [] else e_key (es ! (i - 1)))"

definition chained :: "entry list \<Rightarrow> bool" where
  "chained es \<longleftrightarrow> (\<forall>i < length es. e_shared (es ! i) \<le> length (prev_key es i) \<and>
     e_shared (es ! i) \<le> length (e_key (es ! i)) \<and>
     take (e_shared (es ! i)) (prev_key es i) = take (e_shared (es ! i)) (e_key (es ! i)))"

text \<open>\<open>R\<close>: the indices of the entries that are restart points.\<close>

definition restarts_ok :: "entry list \<Rightarrow> nat list \<Rightarrow> bool" where
  "restarts_ok es R \<longleftrightarrow> R \<noteq> [] \<and> R ! 0 = 0 \<and> sorted_wrt (<) R \<and>
     (\<forall>r \<in> set R. r < length es \<and> e_shared (es ! r) = 0 \<or> r = 0 \<and> es = [])"

definition layout :: "entry list \<Rightarrow> nat list \<Rightarrow> slice" where
  "layout es R = entries_bytes es @ fixed32s (map (\<lambda>r. of_nat (off es r)) R @ [of_nat (length R)])"

subsection \<open>The builder\<close>

definition built :: "block_builder \<Rightarrow> entry list \<Rightarrow> nat list \<Rightarrow> bool" where
  "built b es R \<longleftrightarrow> bb_buffer b = entries_bytes es \<and> bb_restarts b = map (\<lambda>r. of_nat (off es r)) R \<and>
     bb_last_key b = prev_key es (length es) \<and> (es = [] \<longrightarrow> bb_counter b = 0) \<and> chained es \<and> restarts_ok es R"

lemma built_new: "built BlockBuilder [] [0]"
  by (simp add: built_def BlockBuilder_def prev_key_def chained_def restarts_ok_def)

lemma built_Reset: "built (Block_Reset b) [] [0]"
  by (simp add: built_def Block_Reset_def prev_key_def chained_def restarts_ok_def)

lemma prev_key_append: "i \<le> length es \<Longrightarrow> prev_key (es @ fs) i = prev_key es i"
  by (auto simp: prev_key_def nth_append)

lemma chained_snoc:
  assumes "chained es" "s \<le> length (prev_key es (length es))" "s \<le> length k"
    and "take s (prev_key es (length es)) = take s k"
  shows "chained (es @ [(s, k, v)])"
  unfolding chained_def
proof (intro allI impI)
  fix i assume "i < length (es @ [(s, k, v)])"
  then consider "i < length es" | "i = length es" by fastforce
  then show "e_shared ((es @ [(s, k, v)]) ! i) \<le> length (prev_key (es @ [(s, k, v)]) i) \<and>
      e_shared ((es @ [(s, k, v)]) ! i) \<le> length (e_key ((es @ [(s, k, v)]) ! i)) \<and>
      take (e_shared ((es @ [(s, k, v)]) ! i)) (prev_key (es @ [(s, k, v)]) i) =
      take (e_shared ((es @ [(s, k, v)]) ! i)) (e_key ((es @ [(s, k, v)]) ! i))"
  proof cases
    case 1
    then show ?thesis using assms(1) by (simp add: chained_def nth_append prev_key_append)
  next
    case 2
    then show ?thesis using assms(2-4) by (simp add: prev_key_append e_shared_def e_key_def)
  qed
qed

lemma restarts_snoc:
  assumes "restarts_ok es R" "es = [] \<Longrightarrow> e_shared e = 0"
  shows "restarts_ok (es @ [e]) R" and "e_shared e = 0 \<Longrightarrow> es \<noteq> [] \<Longrightarrow> restarts_ok (es @ [e]) (R @ [length es])"
proof -
  have R: "R \<noteq> []" "R ! 0 = 0" "sorted_wrt (<) R"
    and r: "\<And>r. r \<in> set R \<Longrightarrow> r < length es \<and> e_shared (es ! r) = 0 \<or> r = 0 \<and> es = []"
    using assms(1) by (simp_all add: restarts_ok_def)
  have E: "r < length (es @ [e]) \<and> e_shared ((es @ [e]) ! r) = 0" if "r \<in> set R" for r
    using r [OF that] assms(2) by (auto simp: nth_append)
  then show "restarts_ok (es @ [e]) R" using R unfolding restarts_ok_def by blast
  assume e: "e_shared e = 0" "es \<noteq> []"
  have "sorted_wrt (<) (R @ [length es])" using R(3) r e(2) by (auto simp: sorted_wrt_append)
  moreover have "(R @ [length es]) ! 0 = 0" using R by (simp add: nth_append)
  moreover have "\<forall>r \<in> set (R @ [length es]). r < length (es @ [e]) \<and> e_shared ((es @ [e]) ! r) = 0"
    using E e(1) by auto
  ultimately show "restarts_ok (es @ [e]) (R @ [length es])" unfolding restarts_ok_def by blast
qed

lemma built_Add:
  assumes "built b es R" "0 < interval"
  shows "\<exists>s R1. built (Block_Add interval k v b) (es @ [(s, k, v)]) R1"
proof (cases "bb_counter b < interval")
  case True
  let ?s = "common_prefix (prev_key es (length es)) k"
  note c = common_prefix_le [of "prev_key es (length es)" k] common_prefix_take [of "prev_key es (length es)" k]
  have "es = [] \<Longrightarrow> ?s = 0" by (simp add: prev_key_def)
  then have "restarts_ok (es @ [(?s, k, v)]) R"
    using restarts_snoc(1) assms(1) by (auto simp: built_def e_shared_def)
  moreover have "map (\<lambda>r. (of_nat (off (es @ [(?s, k, v)]) r) :: u32)) R = map (\<lambda>r. of_nat (off es r)) R"
    using assms(1) by (auto simp: built_def restarts_ok_def off_append)
  moreover have "take ?s (prev_key es (length es)) @ drop ?s k = k" using c(3) by simp
  ultimately have "built (Block_Add interval k v b) (es @ [(?s, k, v)]) R"
    using assms(1) True chained_snoc [OF _ c(1,2,3), of v]
    by (simp add: built_def Block_Add_def Let_def PutVarint32_def e_bytes_def e_header_def e_shared_def e_key_def
        e_val_def prev_key_def [of "es @ [x]" for x] prev_key_def [of "es @ x" "Suc n" for x n])
  then show ?thesis by blast
next
  case False
  then have ne: "es \<noteq> []" using assms by (auto simp: built_def)
  have "restarts_ok (es @ [(0, k, v)]) (R @ [length es])"
    using restarts_snoc(2) assms(1) ne by (auto simp: built_def e_shared_def)
  moreover have "map (\<lambda>r. (of_nat (off (es @ [(0, k, v)]) r) :: u32)) R = map (\<lambda>r. of_nat (off es r)) R"
    using assms(1) by (auto simp: built_def restarts_ok_def off_append)
  ultimately have "built (Block_Add interval k v b) (es @ [(0, k, v)]) (R @ [length es])"
    using assms(1) False chained_snoc [of es 0 k v]
    by (simp add: built_def Block_Add_def Let_def PutVarint32_def e_bytes_def e_header_def e_shared_def e_key_def
        e_val_def prev_key_def off_append)
  then show ?thesis by blast
qed

text \<open>The calls of a client: the pairs in order.\<close>

definition add_pairs :: "nat \<Rightarrow> (slice \<times> slice) list \<Rightarrow> block_builder \<Rightarrow> block_builder" where
  "add_pairs interval kvs = fold (\<lambda>(k, v). Block_Add interval k v) kvs"

definition pairs :: "entry list \<Rightarrow> (slice \<times> slice) list" where
  "pairs es = map (\<lambda>e. (e_key e, e_val e)) es"

lemma built_add_pairs:
  "built b es R \<Longrightarrow> 0 < interval \<Longrightarrow>
     \<exists>fs R1. built (add_pairs interval kvs b) (es @ fs) R1 \<and> pairs fs = kvs"
proof (induction kvs arbitrary: b es R)
  case Nil
  then show ?case by (intro exI [of _ "[]"] exI [of _ R]) (simp add: add_pairs_def pairs_def)
next
  case (Cons kv kvs)
  obtain k v where kv: "kv = (k, v)" by (cases kv)
  obtain s R1 where "built (Block_Add interval k v b) (es @ [(s, k, v)]) R1"
    using built_Add Cons.prems by blast
  from Cons.IH [OF this Cons.prems(2)] obtain fs R2 where
    "built (add_pairs interval kvs (Block_Add interval k v b)) ((es @ [(s, k, v)]) @ fs) R2" "pairs fs = kvs"
    by blast
  then show ?case
    by (intro exI [of _ "(s, k, v) # fs"] exI [of _ R2]) (simp add: add_pairs_def pairs_def kv e_key_def e_val_def)
qed

lemma Finish_layout: "built b es R \<Longrightarrow> fst (Block_Finish b) = layout es R"
  by (simp add: built_def Block_Finish_def Let_def layout_def fold_PutFixed32) (simp add: PutFixed32_def)

end
