(* ===== verification/Ldb_Block_Iter.thy ===== *)
theory Ldb_Block_Iter
  imports Ldb_Block_Proofs Ldb_Iterator
begin

text \<open>
  The iterator of a block on the bytes that the builder produced: where it stands
  (\<open>ready\<close>: it will parse the i-th entry next, \<open>stands\<close>: it stands at the i-th entry, \<open>ended\<close>)
  and how each operation moves it. Scans in both directions and the seek agree with the list of
  pairs that was added.
\<close>

unbundle bit_operations_syntax

subsection \<open>Positions\<close>

definition wf_layout :: "entry list \<Rightarrow> nat list \<Rightarrow> bool" where
  "wf_layout es R \<longleftrightarrow> chained es \<and> restarts_ok es R \<and> length (layout es R) < 2 ^ 32"

definition on_layout :: "entry list \<Rightarrow> nat list \<Rightarrow> block_iter \<Rightarrow> bool" where
  "on_layout es R it \<longleftrightarrow> it_data it = layout es R \<and> it_restarts it = of_nat (length (entries_bytes es)) \<and>
     it_num_restarts it = of_nat (length R) \<and> it_status it = OK"

definition in_region :: "nat list \<Rightarrow> nat \<Rightarrow> block_iter \<Rightarrow> bool" where
  "in_region R i it \<longleftrightarrow> (\<exists>j < length R. it_restart_index it = of_nat j \<and> R ! j \<le> i)"

definition ready :: "entry list \<Rightarrow> nat list \<Rightarrow> nat \<Rightarrow> block_iter \<Rightarrow> bool" where
  "ready es R i it \<longleftrightarrow> on_layout es R it \<and> i \<le> length es \<and> in_region R i it \<and>
     (\<exists>p n. it_value it = Some (p, n) \<and> p + n = off es i) \<and>
     (i < length es \<longrightarrow> e_shared (es ! i) \<le> length (it_key it) \<and>
        take (e_shared (es ! i)) (it_key it) = take (e_shared (es ! i)) (e_key (es ! i)))"

definition stands :: "entry list \<Rightarrow> nat list \<Rightarrow> nat \<Rightarrow> block_iter \<Rightarrow> bool" where
  "stands es R i it \<longleftrightarrow> on_layout es R it \<and> i < length es \<and> in_region R i it \<and>
     it_current it = of_nat (off es i) \<and> it_key it = e_key (es ! i) \<and>
     it_value it = Some (off es (Suc i) - length (e_val (es ! i)), length (e_val (es ! i)))"

definition ended :: "entry list \<Rightarrow> nat list \<Rightarrow> block_iter \<Rightarrow> bool" where
  "ended es R it \<longleftrightarrow> on_layout es R it \<and> it_current it = it_restarts it"

lemma wf_layoutD:
  assumes "wf_layout es R"
  shows "length (entries_bytes es) < 2 ^ 32" "length R < 2 ^ 30" "0 < length R"
  using assms by (auto simp: wf_layout_def layout_def restarts_ok_def)

lemma unat_off: "wf_layout es R \<Longrightarrow> unat (of_nat (off es i) :: u32) = off es i"
  using wf_layoutD(1) [of es R] off_le_end [of es i] by (simp add: unat_of_nat)

lemma off_word_less:
  assumes "wf_layout es R" "i \<le> length es" "j \<le> length es"
  shows "(of_nat (off es i) :: u32) < of_nat (off es j) \<longleftrightarrow> i < j"
  using off_less_iff [OF assms(2,3)] unat_off [OF assms(1)] by (simp add: word_less_nat_alt)

lemma restart_le: "restarts_ok es R \<Longrightarrow> j < length R \<Longrightarrow> R ! j \<le> length es"
  by (metis nth_mem order_less_imp_le restarts_ok_def zero_le)

lemma restart_first: "restarts_ok es R \<Longrightarrow> R ! 0 = 0"
  by (simp add: restarts_ok_def)

lemma GetRestartPoint_layout:
  assumes "wf_layout es R" "on_layout es R it" "j < length R"
  shows "GetRestartPoint it (of_nat j) = of_nat (off es (R ! j))"
proof -
  note w = wf_layoutD [OF assms(1)]
  have "unat (of_nat j :: u32) = j" "unat (it_restarts it) = length (entries_bytes es)"
    using w assms(2,3) by (simp_all add: unat_of_nat on_layout_def)
  then show ?thesis
    using assms(2,3) DecodeFixed32_array [of j "map (\<lambda>r. of_nat (off es r)) R @ [of_nat (length R)]" kLittleEndian "[]"]
    by (simp add: GetRestartPoint_def on_layout_def layout_def nth_append mult.commute)
qed

lemma unat_of_nat_small: "n < 2 ^ 30 \<Longrightarrow> unat (of_nat n :: u32) = n"
  by (simp add: unat_of_nat)

lemma advance_restart_stays:
  assumes "wf_layout es R" "i \<le> length es" "it_current it = of_nat (off es i)" "on_layout es R it" "in_region R i it"
  shows "\<exists>k. advance_restart it = it\<lparr>it_restart_index := k\<rparr> \<and> in_region R i (it\<lparr>it_restart_index := k\<rparr>)"
  using assms(3-)
proof (induction it rule: advance_restart.induct)
  case (1 it)
  obtain j where j: "j < length R" "it_restart_index it = of_nat j" "R ! j \<le> i"
    using 1 by (auto simp: in_region_def)
  note w = wf_layoutD [OF assms(1)]
  show ?case
  proof (cases "it_restart_index it + 1 < it_num_restarts it \<and>
      GetRestartPoint it (it_restart_index it + 1) < it_current it")
    case True
    have idx: "it_restart_index it + 1 = of_nat (Suc j)" using j by simp
    have nr: "it_num_restarts it = of_nat (length R)" using 1 by (simp add: on_layout_def)
    have "unat (of_nat (Suc j) :: u32) = Suc j"
      using j(1) w(2) by (intro unat_of_nat_small) linarith
    then have l: "Suc j < length R"
      using True unat_of_nat_small [OF w(2)] unfolding idx nr word_less_nat_alt by linarith
    have "R ! Suc j \<le> length es" using restart_le l assms(1) by (auto simp: wf_layout_def)
    then have "R ! Suc j < i"
      using True unfolding idx GetRestartPoint_layout [OF assms(1) \<open>on_layout es R it\<close> l] \<open>it_current it = _\<close>
      using off_word_less [OF assms(1) _ assms(2)] by blast
    then have "in_region R i (it\<lparr>it_restart_index := it_restart_index it + 1\<rparr>)"
      unfolding in_region_def idx using l by (intro exI [of _ "Suc j"]) simp
    with True 1 show ?thesis by (subst advance_restart.simps) (auto simp: on_layout_def)
  next
    case False
    then have "advance_restart it = it" by (subst advance_restart.simps) (simp only: if_False)
    then show ?thesis using \<open>in_region R i it\<close> by (intro exI [of _ "it_restart_index it"]) simp
  qed
qed

lemma key_length_bound:
  "chained es \<Longrightarrow> i < length es \<Longrightarrow> length (e_key (es ! i)) \<le> off es (Suc i)"
proof (induction i)
  case 0
  then have "e_shared (es ! 0) = 0" by (auto simp: chained_def prev_key_def)
  with 0 show ?case by (simp add: off_Suc e_bytes_def)
next
  case (Suc i)
  then have "e_shared (es ! Suc i) \<le> length (e_key (es ! i))"
    by (auto simp: chained_def prev_key_def dest: spec [of _ "Suc i"])
  with Suc show ?case by (simp add: off_Suc [of "Suc i"] e_bytes_def)
qed

lemma on_layout_simps [simp]:
  "on_layout es R (it\<lparr>it_current := c\<rparr>) = on_layout es R it"
  "on_layout es R (it\<lparr>it_restart_index := x\<rparr>) = on_layout es R it"
  "on_layout es R (it\<lparr>it_key := k\<rparr>) = on_layout es R it"
  "on_layout es R (it\<lparr>it_value := v\<rparr>) = on_layout es R it"
  by (simp_all add: on_layout_def)

lemma in_region_simps [simp]:
  "in_region R i (it\<lparr>it_current := c\<rparr>) = in_region R i it"
  "in_region R i (it\<lparr>it_key := k\<rparr>) = in_region R i it"
  "in_region R i (it\<lparr>it_value := v\<rparr>) = in_region R i it"
  by (simp_all add: in_region_def)


subsection \<open>The steps\<close>

lemma limit_layout: "wf_layout es R \<Longrightarrow> on_layout es R it \<Longrightarrow> unat (it_restarts it) = length (entries_bytes es)"
  using wf_layoutD(1) [of es R] by (simp add: on_layout_def unat_of_nat)

lemma NextEntryOffset_at: "it_value it = Some (p, n) \<Longrightarrow> NextEntryOffset it = Done (of_nat (p + n))"
  by (simp add: NextEntryOffset_def)

lemma Parse_end:
  assumes "wf_layout es R" "ready es R (length es) it"
  shows "\<exists>it'. ParseNextKey it = Done (False, it') \<and> ended es R it'"
proof -
  obtain p n where v: "it_value it = Some (p, n)" "p + n = off es (length es)"
    using assms(2) by (auto simp: ready_def)
  have l: "on_layout es R it" using assms(2) by (simp add: ready_def)
  show ?thesis
    unfolding ParseNextKey_def NextEntryOffset_at [OF v(1)] exec_bind.simps Let_def
      limit_layout [OF assms(1) l] v(2) unat_off [OF assms(1)]
    using l by (simp add: ended_def on_layout_def)
qed

lemma DecodeEntry_layout:
  assumes "wf_layout es R" "i < length es"
  shows "DecodeEntry (layout es R) (off es i) (length (entries_bytes es)) =
    Some (off es i + length (e_header (es ! i)), of_nat (e_shared (es ! i)),
          of_nat (length (e_key (es ! i)) - e_shared (es ! i)), of_nat (length (e_val (es ! i))))"
    (is "_ = Some (_, ?a, ?b, ?c)")
    and "e_shared (es ! i) < 2 ^ 32" "length (e_key (es ! i)) < 2 ^ 32" "length (e_val (es ! i)) < 2 ^ 32"
proof -
  have c: "chained es" using assms(1) by (simp add: wf_layout_def)
  have len: "length (layout es R) < 2 ^ 32" "length (entries_bytes es) < 2 ^ 32"
    using assms(1) wf_layoutD(1) by (auto simp: wf_layout_def)
  have "off es (Suc i) < 2 ^ 32" using off_le_end [of es "Suc i"] len(2) by linarith
  then show k: "length (e_key (es ! i)) < 2 ^ 32" and v: "length (e_val (es ! i)) < 2 ^ 32"
    using key_length_bound [OF c assms(2)] by (simp_all add: off_Suc [OF assms(2)] e_bytes_def)
  have s: "e_shared (es ! i) \<le> length (e_key (es ! i))"
    using c assms(2) by (auto simp: chained_def)
  then show "e_shared (es ! i) < 2 ^ 32" using k by linarith
  have u: "unat ?b = length (e_key (es ! i)) - e_shared (es ! i)" "unat ?c = length (e_val (es ! i))"
    using k v by (simp_all add: unat_of_nat)
  have "take (length (entries_bytes es)) (layout es R) = entries_bytes (take i es) @
      EncodeVarint32 ?a @ EncodeVarint32 ?b @ EncodeVarint32 ?c @
      (drop (e_shared (es ! i)) (e_key (es ! i)) @ e_val (es ! i) @ entries_bytes (drop (Suc i) es))"
    using entries_split [OF assms(2)] by (simp add: layout_def e_bytes_def e_header_def)
  note DecodeEntry_entry [OF this _ len(1)]
  then show "DecodeEntry (layout es R) (off es i) (length (entries_bytes es)) =
    Some (off es i + length (e_header (es ! i)), ?a, ?b, ?c)"
    by (simp add: u off_def e_header_def layout_def)
qed

lemma layout_at:
  assumes "i < length es"
  shows "drop (off es i + length (e_header (es ! i))) (layout es R) =
    drop (e_shared (es ! i)) (e_key (es ! i)) @ e_val (es ! i) @ entries_bytes (drop (Suc i) es) @
    drop (length (entries_bytes es)) (layout es R)"
  by (simp add: layout_def off_def entries_split [OF assms] e_bytes_def)

lemma Parse_entry:
  assumes "wf_layout es R" "ready es R i it" "i < length es"
  shows "\<exists>it'. ParseNextKey it = Done (True, it') \<and> stands es R i it'"
proof -
  let ?e = "es ! i"
  let ?q = "off es i + length (e_header ?e)" and ?ns = "length (e_key ?e) - e_shared ?e"
  obtain p n where v: "it_value it = Some (p, n)" "p + n = off es i"
    using assms(2) by (auto simp: ready_def)
  have l: "on_layout es R it" and r: "in_region R i it"
    and k: "e_shared ?e \<le> length (it_key it)" "take (e_shared ?e) (it_key it) = take (e_shared ?e) (e_key ?e)"
    using assms(2,3) by (simp_all add: ready_def)
  note d = DecodeEntry_layout [OF assms(1,3)]
  have u: "unat (of_nat (e_shared ?e) :: u32) = e_shared ?e" "unat (of_nat ?ns :: u32) = ?ns"
    "unat (of_nat (length (e_val ?e)) :: u32) = length (e_val ?e)"
    using d(2-4) by (simp_all add: unat_of_nat)
  have D: "drop ?q (layout es R) = drop (e_shared ?e) (e_key ?e) @ e_val ?e @ entries_bytes (drop (Suc i) es) @
      drop (length (entries_bytes es)) (layout es R)"
    by (rule layout_at [OF assms(3)])
  have q: "?q + ?ns \<le> length (layout es R)"
    using arg_cong [OF D, of length] off_le_end [of es i] off_less [of i "Suc i" es] assms(3)
      off_le_end [of es "Suc i"] by (simp add: off_Suc e_bytes_def layout_def)
  have lt: "off es i < length (entries_bytes es)"
    using off_less [of i "Suc i" es] off_le_end [of es "Suc i"] assms(3) by simp
  have key: "take (e_shared ?e) (it_key it) @ take ?ns (drop ?q (layout es R)) = e_key ?e"
    unfolding k(2) D by simp
  let ?it = "it\<lparr>it_current := of_nat (off es i), it_key := e_key ?e,
    it_value := Some (?q + ?ns, length (e_val ?e))\<rparr>"
  have P: "ParseNextKey it = Done (True, advance_restart ?it)"
    unfolding ParseNextKey_def NextEntryOffset_at [OF v(1)] exec_bind.simps Let_def
      limit_layout [OF assms(1) l] v(2) unat_off [OF assms(1)]
    using l lt k(1) q key by (simp add: on_layout_def d(1) u)
  obtain x where x: "advance_restart ?it = ?it\<lparr>it_restart_index := x\<rparr>" "in_region R i (?it\<lparr>it_restart_index := x\<rparr>)"
    using advance_restart_stays [OF assms(1), of i ?it] assms(3) l r by auto
  have "?q + ?ns = off es (Suc i) - length (e_val ?e)"
    using off_Suc [OF assms(3)] by (simp add: e_bytes_def)
  then have "stands es R i (advance_restart ?it)"
    unfolding x(1) stands_def using assms(3) l x(2) by simp
  with P show ?thesis by blast
qed

lemma stands_ready:
  assumes "wf_layout es R" "stands es R i it"
  shows "ready es R (Suc i) it"
proof -
  have c: "chained es" using assms(1) by (simp add: wf_layout_def)
  obtain j where "j < length R" "it_restart_index it = of_nat j" "R ! j \<le> Suc i"
    using assms(2) by (auto simp: stands_def in_region_def intro: le_SucI)
  then have r: "in_region R (Suc i) it" by (auto simp: in_region_def)
  have "off es (Suc i) - length (e_val (es ! i)) + length (e_val (es ! i)) = off es (Suc i)"
    using assms(2) by (simp add: stands_def off_Suc e_bytes_def)
  then show ?thesis
    using assms(2) r c by (auto simp: ready_def stands_def chained_def prev_key_def dest: spec [of _ "Suc i"])
qed

lemma stands_Valid:
  assumes "wf_layout es R" "stands es R i it"
  shows "Valid it" "it_key it = e_key (es ! i)" "iter_value it = e_val (es ! i)"
proof -
  have i: "i < length es" and l: "on_layout es R it" using assms(2) by (simp_all add: stands_def)
  have "(of_nat (off es i) :: u32) < of_nat (off es (length es))"
    using off_word_less [OF assms(1), of i "length es"] i by simp
  then show "Valid it" using assms(2) l by (simp add: Valid_def stands_def on_layout_def)
  show "it_key it = e_key (es ! i)" using assms(2) by (simp add: stands_def)
  let ?v = "e_val (es ! i)" and ?q = "off es i + length (e_header (es ! i))"
  have "off es (Suc i) - length ?v = (length (e_key (es ! i)) - e_shared (es ! i)) + ?q"
    using off_Suc [OF i] by (simp add: e_bytes_def)
  then show "iter_value it = ?v"
    using assms(2) l layout_at [OF i, of R]
    by (simp add: iter_value_def stands_def on_layout_def drop_drop [symmetric] del: drop_drop)
qed

lemma ended_not_Valid: "ended es R it \<Longrightarrow> \<not> Valid it"
  by (simp add: ended_def Valid_def)

lemma SeekToRestartPoint_ready:
  assumes "wf_layout es R" "on_layout es R it" "j < length R"
  shows "ready es R (R ! j) (SeekToRestartPoint (of_nat j) it)"
proof -
  have ok: "restarts_ok es R" using assms(1) by (simp add: wf_layout_def)
  then have "R ! j < length es \<longrightarrow> e_shared (es ! (R ! j)) = 0"
    using assms(3) by (metis nth_mem restarts_ok_def length_pos_if_in_set less_nat_zero_code list.size(3))
  then show ?thesis
    using assms(2,3) restart_le [OF ok assms(3)] unat_off [OF assms(1)]
    by (auto simp: ready_def SeekToRestartPoint_def in_region_def GetRestartPoint_layout [OF assms])
qed


subsection \<open>Moving\<close>

definition at_or_end :: "entry list \<Rightarrow> nat list \<Rightarrow> nat \<Rightarrow> block_iter \<Rightarrow> bool" where
  "at_or_end es R i it \<longleftrightarrow> (if i < length es then stands es R i it else ended es R it)"

lemma Parse_at_or_end:
  assumes "wf_layout es R" "ready es R i it"
  shows "\<exists>it'. ParseNextKey it = Done (i < length es, it') \<and> at_or_end es R i it'"
proof (cases "i < length es")
  case True
  then show ?thesis using Parse_entry [OF assms] by (auto simp: at_or_end_def)
next
  case False
  then have "i = length es" using assms(2) by (simp add: ready_def)
  then show ?thesis using Parse_end assms by (auto simp: at_or_end_def)
qed

lemma Next_stands:
  assumes "wf_layout es R" "stands es R i it"
  shows "\<exists>it'. Block_Next it = Done it' \<and> at_or_end es R (Suc i) it'"
  using Parse_at_or_end [OF assms(1) stands_ready [OF assms]] by (auto simp: Block_Next_def)

lemma SeekToFirst_layout:
  assumes "wf_layout es R" "on_layout es R it"
  shows "\<exists>it'. SeekToFirst it = Done it' \<and> at_or_end es R 0 it'"
proof -
  have "restarts_ok es R" using assms(1) by (simp add: wf_layout_def)
  then have "ready es R 0 (SeekToRestartPoint 0 it)"
    using SeekToRestartPoint_ready [OF assms wf_layoutD(3) [OF assms(1)]] restart_first by simp
  from Parse_at_or_end [OF assms(1) this] show ?thesis by (auto simp: SeekToFirst_def)
qed

lemma skip_to_layout:
  assumes "wf_layout es R" "b \<le> length es"
  shows "ready es R i it \<Longrightarrow> i < b \<Longrightarrow> b - i \<le> fuel \<Longrightarrow>
    \<exists>it'. skip_to fuel (of_nat (off es b)) it = Done it' \<and> stands es R (b - 1) it'"
proof (induction fuel arbitrary: i it)
  case (Suc fuel)
  obtain it1 where p: "ParseNextKey it = Done (True, it1)" "stands es R i it1"
    using Parse_entry [OF assms(1) Suc.prems(1)] Suc.prems(2) assms(2) by auto
  obtain q n where v: "it_value it1 = Some (q, n)" "q + n = off es (Suc i)"
    using stands_ready [OF assms(1) p(2)] by (auto simp: ready_def)
  have less: "(of_nat (off es (Suc i)) :: u32) < of_nat (off es b) \<longleftrightarrow> Suc i < b"
    using off_word_less [OF assms(1)] Suc.prems(2) assms(2) by simp
  show ?case
  proof (cases "Suc i < b")
    case True
    then have "\<exists>it'. skip_to fuel (of_nat (off es b)) it1 = Done it' \<and> stands es R (b - 1) it'"
      using Suc.IH [OF stands_ready [OF assms(1) p(2)]] Suc.prems(3) by simp
    then show ?thesis using p(1) NextEntryOffset_at [OF v(1)] less True by (simp add: v(2) del: of_nat_Suc)
  next
    case False
    then have "b - 1 = i" using Suc.prems(2) by simp
    then show ?thesis using p NextEntryOffset_at [OF v(1)] less False by (simp add: v(2) del: of_nat_Suc)
  qed
qed simp

lemma skip_to_empty:
  assumes "wf_layout [] R" "ready [] R 0 it" "0 < fuel"
  shows "\<exists>it'. skip_to fuel bound it = Done it' \<and> ended [] R it'"
proof -
  obtain it1 where "ParseNextKey it = Done (False, it1)" "ended [] R it1"
    using Parse_end [of "[]" R it] assms(1,2) by auto
  then show ?thesis using assms(3) by (cases fuel) auto
qed

lemma SeekToLast_layout:
  assumes "wf_layout es R" "on_layout es R it" "length es \<le> fuel" "0 < fuel"
  shows "\<exists>it'. SeekToLast fuel it = Done it' \<and> (if es = [] then ended es R it' else stands es R (length es - 1) it')"
proof -
  let ?j = "length R - 1"
  have R: "?j < length R" using wf_layoutD(3) [OF assms(1)] by simp
  have ok: "restarts_ok es R" using assms(1) by (simp add: wf_layout_def)
  have "it_num_restarts it - 1 = of_nat ?j"
    using assms(2) R by (simp add: on_layout_def of_nat_diff)
  then have rd: "ready es R (R ! ?j) (SeekToRestartPoint (it_num_restarts it - 1) it)"
    using SeekToRestartPoint_ready [OF assms(1,2) R] by simp
  have r: "it_restarts it = of_nat (off es (length es))" using assms(2) by (simp add: on_layout_def)
  show ?thesis
  proof (cases "es = []")
    case True
    then have "R ! ?j = 0" using restart_le [OF ok R] by simp
    with True skip_to_empty assms(1,4) rd show ?thesis by (simp add: SeekToLast_def)
  next
    case False
    then have "R ! ?j < length es" using ok R by (metis nth_mem restarts_ok_def)
    with skip_to_layout [OF assms(1) order_refl rd this] False assms(3) show ?thesis
      by (simp add: SeekToLast_def r del: off_simps)
  qed
qed

lemma scan_back_layout:
  assumes "wf_layout es R" "on_layout es R it" "i < length es"
  shows "j < length R \<Longrightarrow> R ! j \<le> i \<Longrightarrow> j < fuel \<Longrightarrow>
    scan_back fuel it (of_nat (off es i)) (of_nat j) = Done None \<and> i = 0 \<or>
    (\<exists>k < length R. R ! k < i \<and> scan_back fuel it (of_nat (off es i)) (of_nat j) = Done (Some (of_nat k)))"
proof (induction fuel arbitrary: j)
  case (Suc fuel)
  have ok: "restarts_ok es R" using assms(1) by (simp add: wf_layout_def)
  have le: "(of_nat (off es i) :: u32) \<le> of_nat (off es (R ! j)) \<longleftrightarrow> i \<le> R ! j"
    using off_word_less [OF assms(1) restart_le [OF ok Suc.prems(1)], of i] assms(3)
    by (simp add: linorder_not_less [symmetric])
  note G = GetRestartPoint_layout [OF assms(1,2) Suc.prems(1)]
  show ?case
  proof (cases "R ! j < i")
    case True
    with G le Suc.prems show ?thesis by auto
  next
    case False
    show ?thesis
    proof (cases j)
      case 0
      with G le False Suc.prems(2) restart_first [OF ok] show ?thesis by simp
    next
      case (Suc k)
      have "unat (of_nat (Suc k) :: u32) = Suc k"
        using Suc.prems(1) Suc wf_layoutD(2) [OF assms(1)] by (intro unat_of_nat_small) simp
      then have "(of_nat (Suc k) :: u32) \<noteq> 0" by auto
      moreover have "R ! k < R ! j"
        using ok Suc.prems(1) Suc by (auto simp: restarts_ok_def intro: sorted_wrt_nth_less)
      ultimately show ?thesis using Suc.IH [of k] G le False Suc.prems Suc by simp
    qed
  qed
qed simp

lemma Prev_stands:
  assumes "wf_layout es R" "stands es R i it" "length es \<le> fuel" "length R \<le> fuel"
  shows "\<exists>it'. Block_Prev fuel it = Done it' \<and> (if i = 0 then ended es R it' else stands es R (i - 1) it')"
proof -
  have i: "i < length es" and l: "on_layout es R it" and c: "it_current it = of_nat (off es i)"
    using assms(2) by (simp_all add: stands_def)
  obtain j where j: "j < length R" "it_restart_index it = of_nat j" "R ! j \<le> i"
    using assms(2) by (auto simp: stands_def in_region_def)
  from scan_back_layout [OF assms(1) l i j(1,3), of fuel] assms(4) j(1)
  consider "scan_back fuel it (of_nat (off es i)) (of_nat j) = Done None" "i = 0"
    | k where "k < length R" "R ! k < i" "scan_back fuel it (of_nat (off es i)) (of_nat j) = Done (Some (of_nat k))"
    by fastforce
  then show ?thesis
  proof cases
    case 1
    then show ?thesis using l by (simp add: Block_Prev_def Let_def c j(2) ended_def on_layout_def)
  next
    case (2 k)
    note skip_to_layout [OF assms(1) less_imp_le [OF i] SeekToRestartPoint_ready [OF assms(1) l 2(1)] 2(2)]
    then show ?thesis using 2 assms(3) i by (simp add: Block_Prev_def Let_def c j(2))
  qed
qed


subsection \<open>Seeking\<close>

lemma linear_search_layout:
  assumes "wf_layout es R"
  shows "ready es R i it \<Longrightarrow> length es - i < fuel \<Longrightarrow>
    \<exists>m it'. linear_search fuel C target it = Done it' \<and> i \<le> m \<and> m \<le> length es \<and> at_or_end es R m it' \<and>
      (\<forall>j. i \<le> j \<longrightarrow> j < m \<longrightarrow> Compare C (e_key (es ! j)) target < 0) \<and>
      (m < length es \<longrightarrow> 0 \<le> Compare C (e_key (es ! m)) target)"
proof (induction fuel arbitrary: i it)
  case (Suc fuel)
  have le: "i \<le> length es" using Suc.prems(1) by (simp add: ready_def)
  obtain it1 where p: "ParseNextKey it = Done (i < length es, it1)" "at_or_end es R i it1"
    using Parse_at_or_end [OF assms Suc.prems(1)] by blast
  show ?case
  proof (cases "i < length es \<and> Compare C (e_key (es ! i)) target < 0")
    case True
    then have s: "stands es R i it1" using p(2) by (simp add: at_or_end_def)
    have "length es - Suc i < fuel" using True Suc.prems(2) by linarith
    from Suc.IH [OF stands_ready [OF assms s] this] obtain m it' where
      m: "linear_search fuel C target it1 = Done it'" "Suc i \<le> m" "m \<le> length es" "at_or_end es R m it'"
        "\<forall>j. Suc i \<le> j \<longrightarrow> j < m \<longrightarrow> Compare C (e_key (es ! j)) target < 0"
        "m < length es \<longrightarrow> 0 \<le> Compare C (e_key (es ! m)) target"
      by blast
    have "\<forall>j. i \<le> j \<longrightarrow> j < m \<longrightarrow> Compare C (e_key (es ! j)) target < 0"
      using m(5) True by (metis Suc_leI le_neq_implies_less)
    moreover have "linear_search (Suc fuel) C target it = Done it'"
      using m(1) p(1) True stands_Valid(2) [OF assms s] by simp
    ultimately show ?thesis using m by (intro exI [of _ m] exI [of _ it']) simp
  next
    case False
    then show ?thesis
      using p le stands_Valid(2) [OF assms, of i it1] by (intro exI [of _ i] exI [of _ it1]) (auto simp: at_or_end_def)
  qed
qed simp

text \<open>
  The binary search: at a restart point the whole key is stored, so that the comparison is with
  the key of that entry; the result is the first restart point or one with a smaller key.
\<close>

lemma restart_search_layout:
  assumes "wf_layout es R" "on_layout es R it"
  shows "l \<le> r \<Longrightarrow> r < length R \<Longrightarrow> r - l < fuel \<Longrightarrow>
    l = 0 \<or> Compare C (e_key (es ! (R ! l))) target < 0 \<Longrightarrow>
    \<exists>k < length R. restart_search fuel C it target (of_nat l) (of_nat r) = Done (Some (of_nat k)) \<and>
      (k = 0 \<or> Compare C (e_key (es ! (R ! k))) target < 0)"
proof (induction fuel arbitrary: l r)
  case (Suc fuel)
  have ok: "restarts_ok es R" using assms(1) by (simp add: wf_layout_def)
  note R30 = wf_layoutD(2) [OF assms(1)]
  have u: "unat (of_nat l :: u32) = l" "unat (of_nat r :: u32) = r"
    using Suc.prems(1,2) R30 by (auto intro!: unat_of_nat_small)
  show ?case
  proof (cases "l < r")
    case False
    then show ?thesis using Suc.prems u by (intro exI [of _ l]) (simp add: word_less_nat_alt)
  next
    case True
    let ?m = "(l + r + 1) div 2"
    have m: "l < ?m" "?m \<le> r" "?m < length R" using True Suc.prems(2) by simp_all
    have "l + r + 1 < 2 ^ 32" using Suc.prems(2) True R30 by simp
    then have "unat (of_nat (l + r + 1) :: u32) = l + r + 1"
      unfolding unat_of_nat by (intro mod_less) simp
    moreover have "(of_nat (l + r + 1) :: u32) = of_nat l + of_nat r + 1" by (simp add: algebra_simps)
    ultimately have "unat (of_nat l + of_nat r + 1 :: u32) = l + r + 1" by (simp only:)
    then have "unat ((of_nat l + of_nat r + 1 :: u32) div 2) = unat (of_nat ?m :: u32)"
      using m R30 unat_of_nat_small [of ?m] by (simp add: unat_div_distrib)
    then have mid: "(of_nat l + of_nat r + 1 :: u32) div 2 = of_nat ?m" by (simp only: word_unat_eq_iff)
    have "1 < length R" using m by linarith
    then have "0 < R ! 1" "R ! 1 \<in> set R"
      using ok sorted_wrt_nth_less [of "(<)" R 0 1] by (simp_all add: restarts_ok_def)
    then have "es \<noteq> []" using ok by (auto simp: restarts_ok_def)
    then have e: "R ! ?m < length es" "e_shared (es ! (R ! ?m)) = 0"
      using ok m(3) by (metis nth_mem restarts_ok_def)+
    let ?e = "es ! (R ! ?m)"
    let ?q = "off es (R ! ?m) + length (e_header ?e)"
    have d: "DecodeEntry (it_data it) (unat (GetRestartPoint it (of_nat ?m))) (unat (it_restarts it)) =
        Some (?q, 0, of_nat (length (e_key ?e)), of_nat (length (e_val ?e)))"
      unfolding GetRestartPoint_layout [OF assms m(3)] unat_off [OF assms(1)] limit_layout [OF assms]
      using DecodeEntry_layout(1) [OF assms(1) e(1)] assms(2) e(2) by (simp add: on_layout_def)
    have uk: "unat (of_nat (length (e_key ?e)) :: u32) = length (e_key ?e)"
      using DecodeEntry_layout(3) [OF assms(1) e(1)] by (simp add: unat_of_nat)
    have D: "drop ?q (it_data it) = e_key ?e @ e_val ?e @ entries_bytes (drop (Suc (R ! ?m)) es) @
        drop (length (entries_bytes es)) (layout es R)"
      using layout_at [OF e(1), of R] e(2) assms(2) by (simp add: on_layout_def)
    have "?q + length (e_key ?e) \<le> length (layout es R)"
      using off_Suc [OF e(1)] off_le_end [of es "Suc (R ! ?m)"] e(2) by (simp add: e_bytes_def layout_def)
    then have step: "restart_search (Suc fuel) C it target (of_nat l) (of_nat r) =
        (if Compare C (e_key ?e) target < 0 then restart_search fuel C it target (of_nat ?m) (of_nat r)
         else restart_search fuel C it target (of_nat l) (of_nat (?m - 1)))"
      unfolding restart_search.simps(2) Let_def mid d option.case prod.case uk
      using True u D m(1) assms(2) by (simp add: word_less_nat_alt on_layout_def of_nat_diff)
    show ?thesis
    proof (cases "Compare C (e_key ?e) target < 0")
      case True
      with Suc.IH [of ?m r] m Suc.prems step show ?thesis by simp
    next
      case False
      with Suc.IH [of l "?m - 1"] m Suc.prems step show ?thesis by simp
    qed
  qed
qed simp

lemma Seek_layout:
  assumes "wf_layout es R" "on_layout es R it" "length R < fuel" "length es < fuel"
    and mono: "\<And>i j. i \<le> j \<Longrightarrow> j < length es \<Longrightarrow>
      Compare C (e_key (es ! j)) target < 0 \<Longrightarrow> Compare C (e_key (es ! i)) target < 0"
  shows "\<exists>m it'. Block_Seek fuel C target it = Done it' \<and> m \<le> length es \<and> at_or_end es R m it' \<and>
    (\<forall>j < m. Compare C (e_key (es ! j)) target < 0) \<and>
    (m < length es \<longrightarrow> 0 \<le> Compare C (e_key (es ! m)) target)"
proof -
  have ok: "restarts_ok es R" using assms(1) by (simp add: wf_layout_def)
  have R: "length R - 1 < length R" using wf_layoutD(3) [OF assms(1)] by simp
  have n: "it_num_restarts it - 1 = of_nat (length R - 1)"
    using assms(2) R by (simp add: on_layout_def of_nat_diff)
  obtain k where k: "k < length R" "k = 0 \<or> Compare C (e_key (es ! (R ! k))) target < 0"
    and s: "restart_search fuel C it target 0 (of_nat (length R - 1)) = Done (Some (of_nat k))"
    using restart_search_layout [OF assms(1,2), of 0 "length R - 1" fuel C target] R assms(3) by auto
  obtain m it' where m: "linear_search fuel C target (SeekToRestartPoint (of_nat k) it) = Done it'"
    "R ! k \<le> m" "m \<le> length es" "at_or_end es R m it'"
    "\<forall>j. R ! k \<le> j \<longrightarrow> j < m \<longrightarrow> Compare C (e_key (es ! j)) target < 0"
    "m < length es \<longrightarrow> 0 \<le> Compare C (e_key (es ! m)) target"
    using linear_search_layout [OF assms(1) SeekToRestartPoint_ready [OF assms(1,2) k(1)], of fuel C target,
        OF le_less_trans [OF diff_le_self assms(4)]]
    by blast
  have "Compare C (e_key (es ! j)) target < 0" if j: "j < m" for j
  proof (cases "R ! k \<le> j")
    case True
    with m(5) j show ?thesis by blast
  next
    case False
    then have "k \<noteq> 0" using restart_first [OF ok] by (cases k) auto
    moreover have "R ! k < length es" using False restart_le [OF ok k(1)] j m(3) k(1) ok
      by (metis le_neq_implies_less less_nat_zero_code list.size(3) nth_mem restarts_ok_def)
    ultimately show ?thesis using mono [of j "R ! k"] k(2) False by simp
  qed
  with m show ?thesis unfolding Block_Seek_def n s by auto
qed


subsection \<open>Opening a block\<close>

lemma NewIterator_layout:
  assumes "wf_layout es R"
  shows "NewIterator (Block (layout es R)) =
    BlockIterator (Iter (layout es R) (of_nat (length (entries_bytes es))) (of_nat (length R)))"
    and "on_layout es R (Iter (layout es R) (of_nat (length (entries_bytes es))) (of_nat (length R)))"
proof -
  let ?d = "layout es R" and ?n = "length R" and ?e = "length (entries_bytes es)"
  note w = wf_layoutD [OF assms]
  have len: "length ?d = ?e + 4 * ?n + 4" by (simp add: layout_def)
  have num: "NumRestarts ?d (length ?d) = of_nat ?n"
    using DecodeFixed32_array [of ?n "map (\<lambda>r. of_nat (off es r)) R @ [of_nat ?n]" kLittleEndian "[]"]
    by (simp add: NumRestarts_def len) (simp add: layout_def nth_append)
  have u: "unat (of_nat ?n :: u32) = ?n" using w(2) by (rule unat_of_nat_small)
  have "unat (of_nat (Suc ?n) :: u32) = Suc ?n" unfolding unat_of_nat using w(2) by (intro mod_less) simp
  then have "unat (1 + of_nat ?n :: u32) = 1 + ?n" by simp
  then have "ucast (1 + of_nat ?n :: u32) = (of_nat (1 + ?n) :: u64)"
    using w(2) by (simp add: word_unat_eq_iff unsigned_ucast_eq unat_of_nat take_bit_eq_mod del: of_nat_Suc)
  then have A: "(of_nat (length ?d) :: u64) - ucast (1 + of_nat ?n :: u32) * 4 = of_nat ?e"
    by (simp add: len algebra_simps)
  have E: "ucast (of_nat ?e :: u64) = (of_nat ?e :: u32)"
    using w(1) by (simp add: word_unat_eq_iff unsigned_ucast_eq unat_of_nat take_bit_eq_mod)
  have B: "Block ?d = \<lparr>blk_data = ?d, blk_size = length ?d, blk_restart_offset = of_nat ?e\<rparr>"
    unfolding Block_def Let_def num u A E by (simp add: len)
  have "(of_nat ?n :: u32) \<noteq> 0" using u w(3) by auto
  then show "NewIterator (Block ?d) = BlockIterator (Iter ?d (of_nat ?e) (of_nat ?n))"
    unfolding B NewIterator_def Let_def block.simps num by (simp add: len)
  show "on_layout es R (Iter ?d (of_nat ?e) (of_nat ?n))"
    by (simp add: on_layout_def Iter_def)
qed

subsection \<open>The block as a cursor over the added pairs\<close>

definition block_pos :: "pairs \<Rightarrow> nat \<Rightarrow> block_iter \<Rightarrow> bool" where
  "block_pos kvs i it \<longleftrightarrow> (\<exists>es R. wf_layout es R \<and> pairs es = kvs \<and> at_or_end es R i it)"

lemma stands_pos: "wf_layout es R \<Longrightarrow> stands es R i it \<Longrightarrow> block_pos (pairs es) i it"
  unfolding block_pos_def at_or_end_def by (intro exI [of _ es] exI [of _ R]) (simp add: stands_def)

lemma length_pairs [simp]: "length (pairs es) = length es"
  by (simp add: pairs_def)

lemma nth_pairs [simp]: "i < length es \<Longrightarrow> pairs es ! i = (e_key (es ! i), e_val (es ! i))"
  by (simp add: pairs_def)

lemma entries_le_bytes: "length es \<le> length (entries_bytes es)"
proof (induction es)
  case (Cons e es)
  then show ?case
    using e_bytes_pos [of e] unfolding entries_bytes_simps length_append list.size(4) by linarith
qed simp

text \<open>\<open>Prev\<close> turns at most as often as the block has bytes.\<close>

definition Prev_in :: "block_iter \<Rightarrow> block_iter exec" where
  "Prev_in it = Block_Prev (length (it_data it)) it"

interpretation block_cursor: cursor Valid it_key iter_value Block_Next block_pos
proof
  fix kvs i it assume "block_pos kvs i it"
  then obtain es R where w: "wf_layout es R" "pairs es = kvs" and a: "at_or_end es R i it"
    by (auto simp: block_pos_def)
  then show "Valid it \<longleftrightarrow> i < length kvs"
    using stands_Valid(1) [OF w(1)] ended_not_Valid by (auto simp: at_or_end_def split: if_splits)
  assume i: "i < length kvs"
  then have s: "stands es R i it" using a w(2) by (auto simp: at_or_end_def)
  then show "(it_key it, iter_value it) = kvs ! i"
    using stands_Valid(2,3) [OF w(1) s] i w(2) by auto
  show "\<exists>it'. Block_Next it = Done it' \<and> block_pos kvs (Suc i) it'"
    using Next_stands [OF w(1) s] w by (auto simp: block_pos_def)
qed

interpretation block_two_way: two_way_cursor Valid it_key iter_value Block_Next block_pos Prev_in
proof
  fix kvs i it assume "block_pos kvs i it" "i < length kvs"
  then obtain es R where w: "wf_layout es R" "pairs es = kvs" and i: "i < length es" and s: "stands es R i it"
    by (auto simp: block_pos_def at_or_end_def)
  have "it_data it = layout es R" using s by (simp add: stands_def on_layout_def)
  then have "length es \<le> length (it_data it)" "length R \<le> length (it_data it)"
    using entries_le_bytes [of es] by (simp_all add: layout_def)
  from Prev_stands [OF w(1) s this] show "\<exists>it'. Prev_in it = Done it' \<and>
      (if i = 0 then \<not> Valid it' else block_pos kvs (i - 1) it')"
    using stands_pos [OF w(1)] ended_not_Valid unfolding w(2) Prev_in_def by (metis (full_types))
qed

text \<open>What a client gets from the block that a builder made of \<open>kvs\<close>.\<close>

definition block_of :: "nat \<Rightarrow> pairs \<Rightarrow> slice" where
  "block_of interval kvs = fst (Block_Finish (add_pairs interval kvs BlockBuilder))"

lemma block_of_layout:
  assumes "0 < interval" "length (block_of interval kvs) < 2 ^ 32"
  shows "\<exists>es R. wf_layout es R \<and> pairs es = kvs \<and> block_of interval kvs = layout es R"
proof -
  obtain es R where b: "built (add_pairs interval kvs BlockBuilder) es R" "pairs es = kvs"
    using built_add_pairs [OF built_new assms(1), of kvs] by auto
  then have "block_of interval kvs = layout es R" by (simp add: block_of_def Finish_layout)
  then show ?thesis using b assms(2) by (intro exI [of _ es] exI [of _ R]) (simp add: wf_layout_def built_def)
qed

text \<open>A bound for the size of the block, from the sizes of the pairs.\<close>

lemma length_EncodeVarint32: "length (EncodeVarint32 v) \<le> 5"
  by (simp add: EncodeVarint32_vbytes length_vbytes_u32)

definition pairs_size :: "pairs \<Rightarrow> nat" where
  "pairs_size kvs = sum_list (map (\<lambda>(k, v). 19 + length k + length v) kvs)"

lemma entries_bytes_size: "length (entries_bytes es) + 4 * length es \<le> pairs_size (pairs es)"
proof (induction es)
  case (Cons e es)
  have "length (e_header e) \<le> 15"
    using length_EncodeVarint32 [of "of_nat (e_shared e)"] length_EncodeVarint32 [of "of_nat (length (e_val e))"]
      length_EncodeVarint32 [of "of_nat (length (e_key e) - e_shared e)"]
    unfolding e_header_def length_append by linarith
  then have "length (e_bytes e) \<le> 15 + length (e_key e) + length (e_val e)"
    by (simp add: e_bytes_def)
  with Cons show ?case by (simp add: pairs_size_def pairs_def)
qed (simp add: pairs_size_def pairs_def)

lemma restarts_few: "restarts_ok es R \<Longrightarrow> length R \<le> length es + 1"
proof -
  assume ok: "restarts_ok es R"
  then have "distinct R" by (auto simp: restarts_ok_def strict_sorted_iff)
  moreover have "set R \<subseteq> {..<length es + 1}" using ok by (auto simp: restarts_ok_def)
  ultimately show ?thesis using card_mono [of "{..<length es + 1}" "set R"] distinct_card [of R] by simp
qed

lemma length_block_of:
  assumes "0 < interval"
  shows "length (block_of interval kvs) \<le> 8 + pairs_size kvs"
proof -
  obtain es R where b: "built (add_pairs interval kvs BlockBuilder) es R" "pairs es = kvs"
    using built_add_pairs [OF built_new assms, of kvs] by auto
  then have "block_of interval kvs = layout es R" by (simp add: block_of_def Finish_layout)
  moreover have "length R \<le> length es + 1" using b(1) restarts_few by (simp add: built_def)
  ultimately show ?thesis using entries_bytes_size [of es] b(2) by (simp add: layout_def)
qed

definition opened :: "slice \<Rightarrow> block_iter" where
  "opened contents = (case NewIterator (Block contents) of BlockIterator it \<Rightarrow> it | _ \<Rightarrow> Iter [] 0 0)"

lemma block_of_opened:
  assumes "0 < interval" "length (block_of interval kvs) < 2 ^ 32"
  shows "\<exists>es R. wf_layout es R \<and> pairs es = kvs \<and> on_layout es R (opened (block_of interval kvs)) \<and>
    NewIterator (Block (block_of interval kvs)) = BlockIterator (opened (block_of interval kvs)) \<and>
    block_of interval kvs = layout es R"
proof -
  obtain es R where w: "wf_layout es R" "pairs es = kvs" "block_of interval kvs = layout es R"
    using block_of_layout [OF assms] by blast
  then show ?thesis using NewIterator_layout [OF w(1)] by (intro exI [of _ es] exI [of _ R]) (simp add: opened_def)
qed

lemma block_scans:
  assumes "0 < interval" "length (block_of interval kvs) < 2 ^ 32" "Suc (length kvs) < fuel"
  defines "it \<equiv> opened (block_of interval kvs)"
  shows "NewIterator (Block (block_of interval kvs)) = BlockIterator it"
    and "exec_bind (SeekToFirst it) (iterate Valid it_key iter_value Block_Next fuel) = Done kvs"
    and "exec_bind (SeekToLast fuel it) (iterate Valid it_key iter_value Prev_in fuel) = Done (rev kvs)"
proof -
  obtain es R where w: "wf_layout es R" "pairs es = kvs" "on_layout es R it"
    and n: "NewIterator (Block (block_of interval kvs)) = BlockIterator it"
    using block_of_opened [OF assms(1,2)] unfolding it_def by blast
  show "NewIterator (Block (block_of interval kvs)) = BlockIterator it" by (rule n)
  have l: "length es = length kvs" using w(2) by auto
  obtain f where f: "SeekToFirst it = Done f" "at_or_end es R 0 f" using SeekToFirst_layout [OF w(1,3)] by blast
  obtain e where e: "SeekToLast fuel it = Done e" "if es = [] then ended es R e else stands es R (length es - 1) e"
    using SeekToLast_layout [OF w(1,3), of fuel] assms(3) l by auto
  have "block_pos kvs 0 f" using f w by (auto simp: block_pos_def)
  moreover have "kvs \<noteq> [] \<Longrightarrow> block_pos kvs (length kvs - 1) e" "kvs = [] \<Longrightarrow> \<not> Valid e"
    using e(2) l ended_not_Valid stands_pos [OF w(1)] unfolding w(2) by (auto split: if_splits)
  ultimately show "exec_bind (SeekToFirst it) (iterate Valid it_key iter_value Block_Next fuel) = Done kvs"
    "exec_bind (SeekToLast fuel it) (iterate Valid it_key iter_value Prev_in fuel) = Done (rev kvs)"
    using block_two_way.both_ways [of kvs f e fuel] assms(3) f(1) e(1) by simp_all
qed

text \<open>A seek: under an order, the scan from there gives the pairs that are not before the target.\<close>

lemma take_dropWhile_at:
  assumes "m \<le> length xs" "\<forall>j < m. P (xs ! j)" "m < length xs \<longrightarrow> \<not> P (xs ! m)"
  shows "dropWhile P xs = drop m xs"
  using assms
proof (induction xs arbitrary: m)
  case (Cons x xs)
  show ?case
  proof (cases m)
    case 0
    then show ?thesis using Cons.prems(3) by simp
  next
    case (Suc k)
    then have "P x" "\<forall>j < k. P (xs ! j)" using Cons.prems(2) by fastforce+
    moreover from this(2) have "dropWhile P xs = drop k xs"
      using Cons.IH [of k] Cons.prems(1,3) Suc by simp
    ultimately show ?thesis using Suc by simp
  qed
qed simp

context key_order
begin

lemma block_seek:
  assumes "0 < interval" "length (block_of interval kvs) < 2 ^ 32"
    and "length (block_of interval kvs) < fuel"
    and "\<forall>(k, v) \<in> set kvs. valid k" "valid target"
    and "sorted_wrt (\<lambda>a b. Compare C (fst a) (fst b) \<le> 0) kvs"
  shows "exec_bind (Block_Seek fuel C target (opened (block_of interval kvs)))
      (iterate Valid it_key iter_value Block_Next fuel) =
    Done (dropWhile (\<lambda>(k, v). Compare C k target < 0) kvs)"
proof -
  let ?it = "opened (block_of interval kvs)"
  obtain es R where w: "wf_layout es R" "pairs es = kvs" "on_layout es R ?it"
    and b: "block_of interval kvs = layout es R"
    using block_of_opened [OF assms(1,2)] by blast
  have l: "length R < fuel" "length es < fuel"
    using assms(3) entries_le_bytes [of es] by (simp_all add: b layout_def)
  have kv: "(e_key (es ! i), e_val (es ! i)) = kvs ! i" if "i < length es" for i
    using w(2) that by auto
  have len: "length kvs = length es" using w(2) by auto
  have v: "valid (e_key (es ! i))" if "i < length es" for i
    using assms(4) nth_mem [of i kvs] that len unfolding kv [OF that, symmetric] by fastforce
  have mono: "Compare C (e_key (es ! i)) target < 0"
    if "i \<le> j" "j < length es" "Compare C (e_key (es ! j)) target < 0" for i j
  proof (cases "i = j")
    case True
    with that show ?thesis by simp
  next
    case False
    have "Compare C (fst (kvs ! i)) (fst (kvs ! j)) \<le> 0"
      by (rule sorted_wrt_nth_less [OF assms(6)]) (use that False len in simp_all)
    then have "Compare C (e_key (es ! i)) (e_key (es ! j)) \<le> 0"
      using that(1,2) by (simp add: kv [symmetric])
    with compare_less_trans(2) [OF v v assms(5)] that show ?thesis by simp
  qed
  obtain m it' where s: "Block_Seek fuel C target ?it = Done it'" "m \<le> length es" "at_or_end es R m it'"
    "\<forall>j < m. Compare C (e_key (es ! j)) target < 0"
    "m < length es \<longrightarrow> 0 \<le> Compare C (e_key (es ! m)) target"
    using Seek_layout [OF w(1,3) l, where C = C and target = target] mono by blast
  have "dropWhile (\<lambda>(k, v). Compare C k target < 0) kvs = drop m kvs"
  proof (rule take_dropWhile_at)
    show "m \<le> length kvs" using s(2) w(2) by auto
    show "\<forall>j < m. case kvs ! j of (k, v) \<Rightarrow> Compare C k target < 0"
      using s(2,4) by (auto simp: kv [symmetric])
    show "m < length kvs \<longrightarrow> \<not> (case kvs ! m of (k, v) \<Rightarrow> Compare C k target < 0)"
      using s(5) len by (auto simp: kv [symmetric])
  qed
  moreover have "block_pos kvs m it'" using s(3) w by (auto simp: block_pos_def)
  moreover have "length kvs < fuel" using l(2) w(2) by auto
  ultimately show ?thesis using block_cursor.forward [of kvs m it' fuel] s(1) by simp
qed

end

subsection \<open>The iterator that \<open>Block::NewIterator\<close> returns\<close>

text \<open>
  It is an iterator over the block, or one of the iterators without entries of
  \<open>table/iterator.cc\<close>. The loops of the block iterator turn at most as often as the block has bytes.
\<close>

definition block_turns :: "block_iter \<Rightarrow> nat" where
  "block_turns it = Suc (length (it_data it))"

definition on_block :: "(block_iter \<Rightarrow> block_iter exec) \<Rightarrow> new_iterator \<Rightarrow> new_iterator exec" where
  "on_block f it = (case it of BlockIterator b \<Rightarrow> exec_bind (f b) (\<lambda>b. Done (BlockIterator b)) | _ \<Rightarrow> Done it)"

definition any_status :: "new_iterator \<Rightarrow> status" where
  "any_status it = (case it of ErrorIterator s \<Rightarrow> s | EmptyIterator \<Rightarrow> OK | BlockIterator b \<Rightarrow> it_status b)"

definition block_ops :: "comparator \<Rightarrow> new_iterator iterator_ops" where
  "block_ops C =
     \<lparr>op_valid = (\<lambda>it. case it of BlockIterator b \<Rightarrow> Valid b | _ \<Rightarrow> False),
      op_first = on_block SeekToFirst,
      op_last = on_block (\<lambda>b. SeekToLast (block_turns b) b),
      op_seek = (\<lambda>target. on_block (\<lambda>b. Block_Seek (block_turns b) C target b)),
      op_next = on_block Block_Next,
      op_prev = on_block Prev_in,
      op_key = (\<lambda>it. case it of BlockIterator b \<Rightarrow> it_key b | _ \<Rightarrow> []),
      op_value = (\<lambda>it. case it of BlockIterator b \<Rightarrow> iter_value b | _ \<Rightarrow> []),
      op_status = any_status\<rparr>"

definition block_on :: "pairs \<Rightarrow> new_iterator \<Rightarrow> bool" where
  "block_on kvs it \<longleftrightarrow> (\<exists>b es R. it = BlockIterator b \<and> wf_layout es R \<and> pairs es = kvs \<and> on_layout es R b)"

definition block_at :: "pairs \<Rightarrow> nat \<Rightarrow> new_iterator \<Rightarrow> bool" where
  "block_at kvs i it \<longleftrightarrow> (\<exists>b. it = BlockIterator b \<and> block_pos kvs i b)"

lemma block_onE:
  assumes "block_on kvs it"
  obtains b es R where "it = BlockIterator b" "wf_layout es R" "pairs es = kvs" "on_layout es R b"
    "length es \<le> length (it_data b)" "length R \<le> length (it_data b)"
proof -
  from assms obtain b es R where w: "it = BlockIterator b" "wf_layout es R" "pairs es = kvs" "on_layout es R b"
    unfolding block_on_def by blast
  have "it_data b = layout es R" using w(4) by (simp add: on_layout_def)
  then have "length es \<le> length (it_data b)" "length R \<le> length (it_data b)"
    using entries_le_bytes [of es] by (simp_all add: layout_def)
  with w that show thesis by blast
qed

lemma at_or_end_at: "wf_layout es R \<Longrightarrow> at_or_end es R i b \<Longrightarrow> block_at (pairs es) i (BlockIterator b)"
  unfolding block_at_def block_pos_def by blast

lemma block_at_on: "block_at kvs i it \<Longrightarrow> block_on kvs it"
  unfolding block_at_def block_on_def block_pos_def at_or_end_def stands_def ended_def by (auto split: if_splits)

lemma ended_at: "ended es R b \<Longrightarrow> at_or_end es R (length es) b"
  by (simp add: at_or_end_def)

interpretation any_block: seek_iterator "block_ops C" block_at block_on "Compare C" "\<lambda>_. True" for C
proof
  fix kvs i it t assume p: "block_at kvs i it"
  then obtain b where b: "it = BlockIterator b" "block_pos kvs i b" by (auto simp: block_at_def)
  show "op_valid (block_ops C) it \<longleftrightarrow> i < length kvs"
    using block_cursor.valid_iff [OF b(2)] by (simp add: b(1) block_ops_def)
  show "block_on kvs it" by (rule block_at_on [OF p])
  assume i: "i < length kvs"
  show "(op_key (block_ops C) it, op_value (block_ops C) it) = kvs ! i"
    using block_cursor.contents [OF b(2) i] by (simp add: b(1) block_ops_def)
  show "\<exists>it'. op_next (block_ops C) it = Done it' \<and> block_at kvs (Suc i) it'"
    using block_cursor.next_pos [OF b(2) i] by (auto simp: b(1) block_ops_def on_block_def block_at_def)
  show "\<exists>it'. op_prev (block_ops C) it = Done it' \<and>
      (if i = 0 then \<not> op_valid (block_ops C) it' else block_at kvs (i - 1) it')"
    using block_two_way.prev_pos [OF b(2) i] by (auto simp: b(1) block_ops_def on_block_def block_at_def split: if_splits)
next
  fix kvs it it' assume p: "block_at kvs 0 it" and ne: "kvs \<noteq> []" and s: "op_prev (block_ops C) it = Done it'"
  then obtain b es R where b: "it = BlockIterator b" and w: "wf_layout es R" "pairs es = kvs" "at_or_end es R 0 b"
    by (auto simp: block_at_def block_pos_def)
  have "0 < length es" using w(2) ne by (cases es) (auto simp: pairs_def)
  then have st: "stands es R 0 b" using w(3) by (simp add: at_or_end_def)
  then have "it_data b = layout es R" by (simp add: stands_def on_layout_def)
  then have l: "length es \<le> length (it_data b)" "length R \<le> length (it_data b)"
    using entries_le_bytes [of es] by (simp_all add: layout_def)
  from Prev_stands [OF w(1) st l] s have "\<exists>b'. it' = BlockIterator b' \<and> ended es R b'"
    by (auto simp: b block_ops_def on_block_def Prev_in_def)
  then show "block_at kvs (length kvs) it'"
    using at_or_end_at [OF w(1) ended_at] w(2) by auto
next
  fix kvs it t assume "block_on kvs it"
  then obtain b es R where b: "it = BlockIterator b" and w: "wf_layout es R" "pairs es = kvs" "on_layout es R b"
    and l: "length es \<le> length (it_data b)" "length R \<le> length (it_data b)" by (rule block_onE)
  have len: "length kvs = length es" using w(2) by auto
  show "op_status (block_ops C) it = OK" using w(3) by (simp add: b block_ops_def any_status_def on_layout_def)
  show "\<exists>it'. op_first (block_ops C) it = Done it' \<and> block_at kvs 0 it'"
    using SeekToFirst_layout [OF w(1,3)] at_or_end_at [OF w(1)] w(2) by (auto simp: b block_ops_def on_block_def)
  show "\<exists>it'. op_last (block_ops C) it = Done it' \<and> block_at kvs (length kvs - 1) it'"
  proof -
    obtain b' where s: "SeekToLast (block_turns b) b = Done b'"
      "if es = [] then ended es R b' else stands es R (length es - 1) b'"
      using SeekToLast_layout [OF w(1,3), of "block_turns b"] l by (auto simp: block_turns_def)
    have "at_or_end es R (length es - 1) b'" using s(2) by (cases "es = []") (simp_all add: at_or_end_def)
    from at_or_end_at [OF w(1) this] s(1) show ?thesis
      using w(2) len by (simp add: b block_ops_def on_block_def)
  qed
  assume "splits_at (Compare C) t kvs"
  then have mono: "Compare C (e_key (es ! i)) t < 0" if "i \<le> j" "j < length es" "Compare C (e_key (es ! j)) t < 0" for i j
    using that le_less_trans [OF that(1,2)] unfolding splits_at_def w(2) [symmetric]
    by (auto dest!: spec [of _ i] spec [of _ j])
  obtain m b' where s: "Block_Seek (block_turns b) C t b = Done b'" "m \<le> length es" "at_or_end es R m b'"
    "\<forall>j < m. Compare C (e_key (es ! j)) t < 0" "m < length es \<longrightarrow> 0 \<le> Compare C (e_key (es ! m)) t"
    using Seek_layout [OF w(1,3), of "block_turns b" C t] mono l by (auto simp: block_turns_def)
  have "keys_before (Compare C) t kvs = m"
    using s(2,4,5) w(2) by (intro keys_beforeI) auto
  then show "\<exists>it'. op_seek (block_ops C) t it = Done it' \<and> block_at kvs (keys_before (Compare C) t kvs) it'"
    using s(1) at_or_end_at [OF w(1) s(3)] w(2) by (auto simp: b block_ops_def on_block_def)
qed

lemma NewIterator_on:
  assumes "0 < interval" "length (block_of interval kvs) < 2 ^ 32"
  shows "block_on kvs (NewIterator (Block (block_of interval kvs)))"
  using block_of_opened [OF assms] unfolding block_on_def by metis

end
