(* ===== verification/Ldb_Wrapper.thy ===== *)
theory Ldb_Wrapper
  imports Ldb_Block_Iter
begin

text \<open>
  \<open>IteratorWrapper\<close> (\<open>table/iterator_wrapper.h\<close>): an iterator together with its validity and its
  key, which are cached after every call. It keeps the contract of the iterator it wraps.
\<close>

text \<open>The pointer to the iterator may be null.\<close>

record 'it wrapper =
  iw_iter :: "'it option"
  iw_valid :: bool
  iw_key :: slice

definition IteratorWrapper :: "'it wrapper" where
  "IteratorWrapper = \<lparr>iw_iter = None, iw_valid = False, iw_key = []\<rparr>"

definition Wrapper_Update :: "'it iterator_ops \<Rightarrow> 'it \<Rightarrow> 'it wrapper \<Rightarrow> 'it wrapper" where
  "Wrapper_Update I it w =
     w\<lparr>iw_iter := Some it, iw_valid := op_valid I it, iw_key := (if op_valid I it then op_key I it else iw_key w)\<rparr>"

definition Wrapper_Set :: "'it iterator_ops \<Rightarrow> 'it option \<Rightarrow> 'it wrapper \<Rightarrow> 'it wrapper" where
  "Wrapper_Set I iter w =
     (case iter of
        None \<Rightarrow> w\<lparr>iw_iter := None, iw_valid := False\<rparr>
      | Some it \<Rightarrow> Wrapper_Update I it w)"

text \<open>A call of the wrapped iterator; on a null pointer it is undefined.\<close>

definition Wrapper_call :: "'it iterator_ops \<Rightarrow> ('it \<Rightarrow> 'it exec) \<Rightarrow> 'it wrapper \<Rightarrow> 'it wrapper exec" where
  "Wrapper_call I f w =
     (case iw_iter w of
        None \<Rightarrow> Undefined
      | Some it \<Rightarrow> exec_bind (f it) (\<lambda>it. Done (Wrapper_Update I it w)))"

definition Wrapper_value :: "'it iterator_ops \<Rightarrow> 'it wrapper \<Rightarrow> slice" where
  "Wrapper_value I w = (case iw_iter w of None \<Rightarrow> [] | Some it \<Rightarrow> op_value I it)"

definition Wrapper_status :: "'it iterator_ops \<Rightarrow> 'it wrapper \<Rightarrow> status" where
  "Wrapper_status I w = (case iw_iter w of None \<Rightarrow> OK | Some it \<Rightarrow> op_status I it)"

definition wrapper_ops :: "'it iterator_ops \<Rightarrow> 'it wrapper iterator_ops" where
  "wrapper_ops I =
     \<lparr>op_valid = iw_valid, op_first = Wrapper_call I (op_first I), op_last = Wrapper_call I (op_last I),
      op_seek = (\<lambda>k. Wrapper_call I (op_seek I k)), op_next = Wrapper_call I (op_next I),
      op_prev = Wrapper_call I (op_prev I), op_key = iw_key, op_value = Wrapper_value I,
      op_status = Wrapper_status I\<rparr>"

lemma wrapper_ops_simps [simp]:
  "op_valid (wrapper_ops I) = iw_valid" "op_key (wrapper_ops I) = iw_key"
  "op_value (wrapper_ops I) = Wrapper_value I" "op_status (wrapper_ops I) = Wrapper_status I"
  "op_first (wrapper_ops I) = Wrapper_call I (op_first I)" "op_last (wrapper_ops I) = Wrapper_call I (op_last I)"
  "op_seek (wrapper_ops I) k = Wrapper_call I (op_seek I k)"
  "op_next (wrapper_ops I) = Wrapper_call I (op_next I)" "op_prev (wrapper_ops I) = Wrapper_call I (op_prev I)"
  by (simp_all add: wrapper_ops_def)

text \<open>The wrapper stands where its iterator stands, with an up-to-date cache.\<close>

definition cached :: "'it iterator_ops \<Rightarrow> 'it wrapper \<Rightarrow> bool" where
  "cached I w \<longleftrightarrow> (case iw_iter w of
     None \<Rightarrow> \<not> iw_valid w
   | Some it \<Rightarrow> iw_valid w = op_valid I it \<and> (op_valid I it \<longrightarrow> iw_key w = op_key I it))"

definition w_on :: "(pairs \<Rightarrow> 'it \<Rightarrow> bool) \<Rightarrow> pairs \<Rightarrow> 'it wrapper \<Rightarrow> bool" where
  "w_on on kvs w \<longleftrightarrow> (\<exists>it. iw_iter w = Some it \<and> on kvs it)"

definition w_pos :: "'it iterator_ops \<Rightarrow> (pairs \<Rightarrow> nat \<Rightarrow> 'it \<Rightarrow> bool) \<Rightarrow> pairs \<Rightarrow> nat \<Rightarrow> 'it wrapper \<Rightarrow> bool" where
  "w_pos I pos kvs i w \<longleftrightarrow> cached I w \<and> (\<exists>it. iw_iter w = Some it \<and> pos kvs i it)"

lemma cached_Update [simp]: "cached I (Wrapper_Update I it w)"
  by (simp add: cached_def Wrapper_Update_def)

lemma iter_Update [simp]: "iw_iter (Wrapper_Update I it w) = Some it"
  by (simp add: Wrapper_Update_def)

lemma cached_Set [simp]: "cached I (Wrapper_Set I iter w)"
  by (cases iter) (simp_all add: Wrapper_Set_def, simp add: cached_def)

lemma iter_Set [simp]: "iw_iter (Wrapper_Set I iter w) = iter"
  by (cases iter) (simp_all add: Wrapper_Set_def)

lemma w_pos_call:
  "iw_iter w = Some it \<Longrightarrow> f it = Done it' \<Longrightarrow> pos kvs i it' \<Longrightarrow>
     \<exists>w'. Wrapper_call I f w = Done w' \<and> w_pos I pos kvs i w'"
  by (simp add: Wrapper_call_def w_pos_def)

locale wrapped_iterator = base: seek_iterator I pos on cmp ok_key
    for I :: "'it iterator_ops" and pos on cmp ok_key

sublocale wrapped_iterator \<subseteq> w: seek_iterator "wrapper_ops I" "w_pos I pos" "w_on on" cmp ok_key
proof
  fix kvs i w assume p: "w_pos I pos kvs i w"
  then obtain it where it: "iw_iter w = Some it" "pos kvs i it" and c: "cached I w" by (auto simp: w_pos_def)
  show "op_valid (wrapper_ops I) w \<longleftrightarrow> i < length kvs"
    using c base.valid_iff [OF it(2)] it(1) by (simp add: cached_def)
  show "w_on on kvs w" using base.pos_on [OF it(2)] it(1) by (simp add: w_on_def)
  assume i: "i < length kvs"
  show "(op_key (wrapper_ops I) w, op_value (wrapper_ops I) w) = kvs ! i"
    using c base.valid_iff [OF it(2)] base.contents [OF it(2) i] i it(1) by (simp add: cached_def Wrapper_value_def)
  show "\<exists>w'. op_next (wrapper_ops I) w = Done w' \<and> w_pos I pos kvs (Suc i) w'"
    using base.next_pos [OF it(2) i] w_pos_call [OF it(1)] by fastforce
  show "\<exists>w'. op_prev (wrapper_ops I) w = Done w' \<and>
      (if i = 0 then \<not> op_valid (wrapper_ops I) w' else w_pos I pos kvs (i - 1) w')"
    using base.prev_pos [OF it(2) i] it(1) by (auto simp: Wrapper_call_def w_pos_def Wrapper_Update_def cached_def split: if_splits)
next
  fix kvs w w' assume p: "w_pos I pos kvs 0 w" "kvs \<noteq> []" and s: "op_prev (wrapper_ops I) w = Done w'"
  then obtain it where it: "iw_iter w = Some it" "pos kvs 0 it" by (auto simp: w_pos_def)
  with s obtain it' where "op_prev I it = Done it'" "w' = Wrapper_Update I it' w"
    by (auto simp: Wrapper_call_def exec_bind_Done_iff)
  then show "w_pos I pos kvs (length kvs) w'" using base.prev_end [OF it(2) p(2)] by (simp add: w_pos_def)
next
  fix kvs w t assume "w_on on kvs w"
  then obtain it where it: "iw_iter w = Some it" "on kvs it" by (auto simp: w_on_def)
  show "\<exists>w'. op_first (wrapper_ops I) w = Done w' \<and> w_pos I pos kvs 0 w'"
    using base.first_pos [OF it(2)] w_pos_call [OF it(1)] by fastforce
  show "\<exists>w'. op_last (wrapper_ops I) w = Done w' \<and> w_pos I pos kvs (length kvs - 1) w'"
    using base.last_pos [OF it(2)] w_pos_call [OF it(1)] by fastforce
  show "op_status (wrapper_ops I) w = OK" using base.status_on [OF it(2)] it(1) by (simp add: Wrapper_status_def)
  assume "ok_key t" "splits_at cmp t kvs"
  then show "\<exists>w'. op_seek (wrapper_ops I) t w = Done w' \<and> w_pos I pos kvs (keys_before cmp t kvs) w'"
    using base.seek_pos [OF it(2)] w_pos_call [OF it(1)] by fastforce
qed

interpretation wrapped_block: wrapped_iterator "block_ops C" block_at block_on "Compare C" "\<lambda>_. True" for C
  by unfold_locales

end
