(* ===== verification/Ldb_Two_Level.thy ===== *)
theory Ldb_Two_Level
  imports Ldb_Wrapper
begin

text \<open>
  The two-level iterator (\<open>table/two_level_iterator.cc\<close>): an iterator over an index, whose values
  are handles of blocks, and an iterator over the block of the current handle. The iterator over
  the index, the iterators over the blocks and the function that opens a block are parameters;
  the function works on the state \<open>arg_\<close>, as does the deletion of an iterator it has made.
\<close>

subsection \<open>The code\<close>

record ('i, 'd, 's) two_level =
  tl_arg :: 's
  tl_status :: status
  tl_index :: "'i wrapper"
  tl_data :: "'d wrapper"
  tl_handle :: slice

record ('d, 's) block_function =
  bf_open :: "'s \<Rightarrow> slice \<Rightarrow> ('d \<times> 's) exec"
  bf_delete :: "'d \<Rightarrow> 's \<Rightarrow> 's"

definition TwoLevelIterator :: "'i iterator_ops \<Rightarrow> 'i \<Rightarrow> 's \<Rightarrow> ('i, 'd, 's) two_level" where
  "TwoLevelIterator I index_iter arg =
     \<lparr>tl_arg = arg, tl_status = OK, tl_index = Wrapper_Set I (Some index_iter) IteratorWrapper,
      tl_data = IteratorWrapper, tl_handle = []\<rparr>"

definition SaveError :: "status \<Rightarrow> ('i, 'd, 's) two_level \<Rightarrow> ('i, 'd, 's) two_level" where
  "SaveError s t = (if ok (tl_status t) \<and> \<not> ok s then t\<lparr>tl_status := s\<rparr> else t)"

definition SetDataIterator ::
    "'d iterator_ops \<Rightarrow> ('d, 's) block_function \<Rightarrow> 'd option \<Rightarrow> ('i, 'd, 's) two_level \<Rightarrow> ('i, 'd, 's) two_level" where
  "SetDataIterator D F data_iter t =
     (case iw_iter (tl_data t) of
        None \<Rightarrow> t\<lparr>tl_data := Wrapper_Set D data_iter (tl_data t)\<rparr>
      | Some old \<Rightarrow>
          let t = SaveError (op_status D old) t
          in t\<lparr>tl_arg := bf_delete F old (tl_arg t), tl_data := Wrapper_Set D data_iter (tl_data t)\<rparr>)"

definition InitDataBlock ::
    "'i iterator_ops \<Rightarrow> 'd iterator_ops \<Rightarrow> ('d, 's) block_function \<Rightarrow> ('i, 'd, 's) two_level \<Rightarrow> ('i, 'd, 's) two_level exec" where
  "InitDataBlock I D F t =
     (if \<not> iw_valid (tl_index t) then Done (SetDataIterator D F None t)
      else
        let handle = Wrapper_value I (tl_index t)
        in if iw_iter (tl_data t) \<noteq> None \<and> Slice_compare handle (tl_handle t) = 0 then Done t
           else exec_bind (bf_open F (tl_arg t) handle) (\<lambda>(iter, s).
             Done (SetDataIterator D F (Some iter) (t\<lparr>tl_arg := s, tl_handle := handle\<rparr>))))"

text \<open>\<open>if (data_iter_.iter() != NULL) data_iter_.f()\<close>, and a call of the index iterator.\<close>

definition on_data :: "('d wrapper \<Rightarrow> 'd wrapper exec) \<Rightarrow> ('i, 'd, 's) two_level \<Rightarrow> ('i, 'd, 's) two_level exec" where
  "on_data f t =
     (if iw_iter (tl_data t) = None then Done t
      else exec_bind (f (tl_data t)) (\<lambda>w. Done (t\<lparr>tl_data := w\<rparr>)))"

definition on_index :: "('i wrapper \<Rightarrow> 'i wrapper exec) \<Rightarrow> ('i, 'd, 's) two_level \<Rightarrow> ('i, 'd, 's) two_level exec" where
  "on_index f t = exec_bind (f (tl_index t)) (\<lambda>w. Done (t\<lparr>tl_index := w\<rparr>))"

definition data_invalid :: "('i, 'd, 's) two_level \<Rightarrow> bool" where
  "data_invalid t \<longleftrightarrow> iw_iter (tl_data t) = None \<or> \<not> iw_valid (tl_data t)"

fun SkipEmptyDataBlocksForward ::
    "nat \<Rightarrow> 'i iterator_ops \<Rightarrow> 'd iterator_ops \<Rightarrow> ('d, 's) block_function \<Rightarrow> ('i, 'd, 's) two_level \<Rightarrow>
     ('i, 'd, 's) two_level exec" where
  "SkipEmptyDataBlocksForward 0 I D F t = Out_of_fuel"
| "SkipEmptyDataBlocksForward (Suc fuel) I D F t =
     (if data_invalid t then
        if \<not> iw_valid (tl_index t) then Done (SetDataIterator D F None t)
        else
          exec_bind (on_index (op_next (wrapper_ops I)) t) (\<lambda>t.
          exec_bind (InitDataBlock I D F t) (\<lambda>t.
          exec_bind (on_data (op_first (wrapper_ops D)) t)
            (SkipEmptyDataBlocksForward fuel I D F)))
      else Done t)"

fun SkipEmptyDataBlocksBackward ::
    "nat \<Rightarrow> 'i iterator_ops \<Rightarrow> 'd iterator_ops \<Rightarrow> ('d, 's) block_function \<Rightarrow> ('i, 'd, 's) two_level \<Rightarrow>
     ('i, 'd, 's) two_level exec" where
  "SkipEmptyDataBlocksBackward 0 I D F t = Out_of_fuel"
| "SkipEmptyDataBlocksBackward (Suc fuel) I D F t =
     (if data_invalid t then
        if \<not> iw_valid (tl_index t) then Done (SetDataIterator D F None t)
        else
          exec_bind (on_index (op_prev (wrapper_ops I)) t) (\<lambda>t.
          exec_bind (InitDataBlock I D F t) (\<lambda>t.
          exec_bind (on_data (op_last (wrapper_ops D)) t)
            (SkipEmptyDataBlocksBackward fuel I D F)))
      else Done t)"

definition TwoLevel_Seek where
  "TwoLevel_Seek fuel I D F target t =
     exec_bind (on_index (op_seek (wrapper_ops I) target) t) (\<lambda>t.
     exec_bind (InitDataBlock I D F t) (\<lambda>t.
     exec_bind (on_data (op_seek (wrapper_ops D) target) t) (SkipEmptyDataBlocksForward fuel I D F)))"

definition TwoLevel_SeekToFirst where
  "TwoLevel_SeekToFirst fuel I D F t =
     exec_bind (on_index (op_first (wrapper_ops I)) t) (\<lambda>t.
     exec_bind (InitDataBlock I D F t) (\<lambda>t.
     exec_bind (on_data (op_first (wrapper_ops D)) t) (SkipEmptyDataBlocksForward fuel I D F)))"

definition TwoLevel_SeekToLast where
  "TwoLevel_SeekToLast fuel I D F t =
     exec_bind (on_index (op_last (wrapper_ops I)) t) (\<lambda>t.
     exec_bind (InitDataBlock I D F t) (\<lambda>t.
     exec_bind (on_data (op_last (wrapper_ops D)) t) (SkipEmptyDataBlocksBackward fuel I D F)))"

definition TwoLevel_Next where
  "TwoLevel_Next fuel I D F t =
     exec_bind (Wrapper_call D (op_next D) (tl_data t)) (\<lambda>w.
       SkipEmptyDataBlocksForward fuel I D F (t\<lparr>tl_data := w\<rparr>))"

definition TwoLevel_Prev where
  "TwoLevel_Prev fuel I D F t =
     exec_bind (Wrapper_call D (op_prev D) (tl_data t)) (\<lambda>w.
       SkipEmptyDataBlocksBackward fuel I D F (t\<lparr>tl_data := w\<rparr>))"

definition TwoLevel_status :: "'i iterator_ops \<Rightarrow> 'd iterator_ops \<Rightarrow> ('i, 'd, 's) two_level \<Rightarrow> status" where
  "TwoLevel_status I D t =
     (if \<not> ok (Wrapper_status I (tl_index t)) then Wrapper_status I (tl_index t)
      else if iw_iter (tl_data t) \<noteq> None \<and> \<not> ok (Wrapper_status D (tl_data t)) then Wrapper_status D (tl_data t)
      else tl_status t)"

definition two_level_ops ::
    "nat \<Rightarrow> 'i iterator_ops \<Rightarrow> 'd iterator_ops \<Rightarrow> ('d, 's) block_function \<Rightarrow> ('i, 'd, 's) two_level iterator_ops" where
  "two_level_ops fuel I D F =
     \<lparr>op_valid = (\<lambda>t. iw_valid (tl_data t)), op_first = TwoLevel_SeekToFirst fuel I D F,
      op_last = TwoLevel_SeekToLast fuel I D F, op_seek = TwoLevel_Seek fuel I D F,
      op_next = TwoLevel_Next fuel I D F, op_prev = TwoLevel_Prev fuel I D F,
      op_key = (\<lambda>t. iw_key (tl_data t)), op_value = (\<lambda>t. Wrapper_value D (tl_data t)),
      op_status = TwoLevel_status I D\<rparr>"

end
