(* ===== verification/Ldb_Two_Level_Proofs.thy ===== *)
theory Ldb_Two_Level_Proofs
  imports Ldb_Two_Level
begin

text \<open>
  The two-level iterator is an iterator over the concatenation of the blocks that the index names,
  empty blocks included: it keeps the contract of \<open>Ldb_Iterator\<close> whenever the index iterator and the
  block iterators do.
\<close>

subsection \<open>What the index says\<close>

text \<open>
  \<open>blk\<close> gives the pairs of the block that a handle names. Each key of the index is not before the
  keys of its block and before the keys of the later ones.
\<close>

definition part_pairs :: "(slice \<Rightarrow> pairs) \<Rightarrow> pairs \<Rightarrow> pairs" where
  "part_pairs blk ikvs = concat (map (blk \<circ> snd) ikvs)"

definition part_start :: "(slice \<Rightarrow> pairs) \<Rightarrow> pairs \<Rightarrow> nat \<Rightarrow> nat" where
  "part_start blk ikvs j = length (part_pairs blk (take j ikvs))"

definition index_ok :: "comparator \<Rightarrow> (slice \<Rightarrow> bool) \<Rightarrow> (slice \<Rightarrow> bool) \<Rightarrow> (slice \<Rightarrow> pairs) \<Rightarrow> pairs \<Rightarrow> bool" where
  "index_ok C valid good blk ikvs \<longleftrightarrow>
     (\<forall>(s, h) \<in> set ikvs. good h \<and> valid s \<and> (\<forall>(k, v) \<in> set (blk h). valid k \<and> Compare C k s \<le> 0)) \<and>
     sorted_wrt (\<lambda>(s, h) (s1, h1). Compare C s s1 \<le> 0 \<and> (\<forall>(k, v) \<in> set (blk h1). Compare C s k < 0)) ikvs"

lemma part_start_0 [simp]: "part_start blk ikvs 0 = 0"
  by (simp add: part_start_def part_pairs_def)

lemma part_start_end: "length ikvs \<le> j \<Longrightarrow> part_start blk ikvs j = length (part_pairs blk ikvs)"
  by (simp add: part_start_def)

lemma part_start_Suc:
  "j < length ikvs \<Longrightarrow> part_start blk ikvs (Suc j) = part_start blk ikvs j + length (blk (snd (ikvs ! j)))"
  by (simp add: part_start_def part_pairs_def take_Suc_conv_app_nth)

lemma part_split:
  "j < length ikvs \<Longrightarrow> part_pairs blk ikvs =
     part_pairs blk (take j ikvs) @ blk (snd (ikvs ! j)) @ part_pairs blk (drop (Suc j) ikvs)"
  by (subst id_take_nth_drop [of j ikvs]) (simp_all add: part_pairs_def)

lemma part_nth:
  assumes "j < length ikvs" "i < length (blk (snd (ikvs ! j)))"
  shows "part_start blk ikvs j + i < length (part_pairs blk ikvs)"
    and "part_pairs blk ikvs ! (part_start blk ikvs j + i) = blk (snd (ikvs ! j)) ! i"
  using part_split [OF assms(1), of blk] assms(2) by (simp_all add: part_start_def nth_append)

lemma part_start_le: "part_start blk ikvs j \<le> length (part_pairs blk ikvs)"
proof (cases "j < length ikvs")
  case True
  then show ?thesis using part_split [OF True, of blk] by (simp add: part_start_def)
next
  case False
  then show ?thesis using part_start_end [of ikvs j blk] by simp
qed

lemma part_start_mono: "j \<le> j1 \<Longrightarrow> part_start blk ikvs j \<le> part_start blk ikvs j1"
proof -
  assume "j \<le> j1"
  then obtain xs where "take j1 ikvs = take j ikvs @ xs" by (metis le_Suc_ex take_add)
  then show ?thesis by (simp add: part_start_def part_pairs_def)
qed

lemma part_nth_ex:
  assumes "p < part_start blk ikvs j" "j \<le> length ikvs"
  shows "\<exists>j1 < j. \<exists>i < length (blk (snd (ikvs ! j1))). p = part_start blk ikvs j1 + i"
  using assms
proof (induction j)
  case (Suc j)
  then have j: "j < length ikvs" by simp
  show ?case
  proof (cases "p < part_start blk ikvs j")
    case True
    with Suc.IH j show ?thesis using less_SucI by (metis order_less_imp_le)
  next
    case False
    then have "p = part_start blk ikvs j + (p - part_start blk ikvs j)" "p - part_start blk ikvs j < length (blk (snd (ikvs ! j)))"
      using Suc.prems(1) part_start_Suc [OF j, of blk] by simp_all
    then show ?thesis by blast
  qed
qed simp

subsection \<open>The contracts\<close>

locale block_opener = dat: wrapped_iterator D dpos don cmp "\<lambda>_. True"
    for D :: "'d iterator_ops" and dpos don cmp +
  fixes F :: "('d, 's) block_function" and okarg :: "'s \<Rightarrow> bool" and good :: "slice \<Rightarrow> bool" and blk :: "slice \<Rightarrow> pairs"
  assumes open_law: "okarg s \<Longrightarrow> good h \<Longrightarrow> \<exists>d s1. bf_open F s h = Done (d, s1) \<and> okarg s1 \<and> don (blk h) d"
    and delete_law: "okarg s \<Longrightarrow> okarg (bf_delete F d s)"

locale two_level_parts = order: key_order C valid + idx: wrapped_iterator I ipos ion "Compare C" "\<lambda>_. True" +
    block_opener D dpos don "Compare C" F okarg good blk
    for C valid and I :: "'i iterator_ops" and ipos ion and D :: "'d iterator_ops" and dpos don
      and F :: "('d, 's) block_function" and okarg good blk +
  fixes fuel :: nat

definition tl_base ::
    "(pairs \<Rightarrow> 'i \<Rightarrow> bool) \<Rightarrow> 'd iterator_ops \<Rightarrow> (pairs \<Rightarrow> 'd \<Rightarrow> bool) \<Rightarrow> ('s \<Rightarrow> bool) \<Rightarrow> (slice \<Rightarrow> bool) \<Rightarrow> (slice \<Rightarrow> pairs) \<Rightarrow>
     pairs \<Rightarrow> ('i, 'd, 's) two_level \<Rightarrow> bool" where
  "tl_base ion D don okarg good blk ikvs t \<longleftrightarrow>
     tl_status t = OK \<and> okarg (tl_arg t) \<and> w_on ion ikvs (tl_index t) \<and> cached D (tl_data t) \<and>
     (\<forall>d. iw_iter (tl_data t) = Some d \<longrightarrow> good (tl_handle t) \<and> don (blk (tl_handle t)) d)"

context two_level_parts
begin

abbreviation base where "base \<equiv> tl_base ion D don okarg good blk"

text \<open>The index stands at block \<open>j\<close>, the data iterator at entry \<open>i\<close> of it.\<close>

definition at_part :: "pairs \<Rightarrow> nat \<Rightarrow> nat \<Rightarrow> ('i, 'd, 's) two_level \<Rightarrow> bool" where
  "at_part ikvs j i t \<longleftrightarrow> base ikvs t \<and> w_pos I ipos ikvs j (tl_index t) \<and>
     (if j < length ikvs then tl_handle t = snd (ikvs ! j) \<and> w_pos D dpos (blk (snd (ikvs ! j))) i (tl_data t)
      else iw_iter (tl_data t) = None)"

definition at_pos :: "pairs \<Rightarrow> nat \<Rightarrow> ('i, 'd, 's) two_level \<Rightarrow> bool" where
  "at_pos ikvs p t \<longleftrightarrow>
     (if p < length (part_pairs blk ikvs)
      then \<exists>j < length ikvs. \<exists>i < length (blk (snd (ikvs ! j))). p = part_start blk ikvs j + i \<and> at_part ikvs j i t
      else base ikvs t \<and> iw_iter (tl_data t) = None)"

definition index_good :: "pairs \<Rightarrow> bool" where
  "index_good ikvs \<longleftrightarrow> index_ok C valid good blk ikvs \<and> Suc (length ikvs) < fuel"

definition tl_on :: "pairs \<Rightarrow> ('i, 'd, 's) two_level \<Rightarrow> bool" where
  "tl_on kvs t \<longleftrightarrow> (\<exists>ikvs. index_good ikvs \<and> kvs = part_pairs blk ikvs \<and> base ikvs t)"

definition tl_pos :: "pairs \<Rightarrow> nat \<Rightarrow> ('i, 'd, 's) two_level \<Rightarrow> bool" where
  "tl_pos kvs p t \<longleftrightarrow> (\<exists>ikvs. index_good ikvs \<and> kvs = part_pairs blk ikvs \<and> at_pos ikvs p t)"

lemma good_handle: "index_good ikvs \<Longrightarrow> j < length ikvs \<Longrightarrow> good (snd (ikvs ! j))"
  by (auto simp: index_good_def index_ok_def dest!: nth_mem split: prod.splits)

lemma at_pos_end: "base ikvs t \<Longrightarrow> iw_iter (tl_data t) = None \<Longrightarrow> length (part_pairs blk ikvs) \<le> p \<Longrightarrow> at_pos ikvs p t"
  by (simp add: at_pos_def)

lemma at_part_pos:
  assumes "at_part ikvs j i t" "j < length ikvs" "i < length (blk (snd (ikvs ! j)))"
  shows "at_pos ikvs (part_start blk ikvs j + i) t"
  using assms part_nth(1) [of j ikvs i blk] unfolding at_pos_def by auto

lemma at_pos_base: "at_pos ikvs p t \<Longrightarrow> base ikvs t"
  by (auto simp: at_pos_def at_part_def split: if_splits)

subsection \<open>Opening the block the index stands at\<close>

lemma SetData_base:
  assumes "base ikvs t"
  shows "base ikvs (SetDataIterator D F None t)" "iw_iter (tl_data (SetDataIterator D F None t)) = None"
    "tl_index (SetDataIterator D F None t) = tl_index t"
proof -
  have s: "SaveError (op_status D d) t = t" if "iw_iter (tl_data t) = Some d" for d
    using that assms dat.base.status_on by (auto simp: tl_base_def SaveError_def)
  show "base ikvs (SetDataIterator D F None t)" "iw_iter (tl_data (SetDataIterator D F None t)) = None"
    "tl_index (SetDataIterator D F None t) = tl_index t"
    using assms s delete_law by (auto simp: tl_base_def SetDataIterator_def split: option.split)
qed

lemma SetData_open:
  assumes "tl_status t = OK" "okarg (tl_arg t)" "\<And>d. iw_iter (tl_data t) = Some d \<Longrightarrow> \<exists>h. don (blk h) d"
    and "w_on ion ikvs (tl_index t)" "good (tl_handle t)" "don (blk (tl_handle t)) d"
  shows "base ikvs (SetDataIterator D F (Some d) t)" "iw_iter (tl_data (SetDataIterator D F (Some d) t)) = Some d"
    "tl_index (SetDataIterator D F (Some d) t) = tl_index t" "tl_handle (SetDataIterator D F (Some d) t) = tl_handle t"
proof -
  have s: "SaveError (op_status D d1) t = t" if "iw_iter (tl_data t) = Some d1" for d1
    using assms(3) [OF that] dat.base.status_on by (auto simp: SaveError_def)
  show "base ikvs (SetDataIterator D F (Some d) t)" "iw_iter (tl_data (SetDataIterator D F (Some d) t)) = Some d"
    "tl_index (SetDataIterator D F (Some d) t) = tl_index t" "tl_handle (SetDataIterator D F (Some d) t) = tl_handle t"
    using assms s delete_law by (auto simp: tl_base_def SetDataIterator_def split: option.split)
qed

lemma Init_base:
  assumes "index_good ikvs" "base ikvs t" "w_pos I ipos ikvs j (tl_index t)"
  shows "\<exists>t1. InitDataBlock I D F t = Done t1 \<and> base ikvs t1 \<and> tl_index t1 = tl_index t \<and>
    (if j < length ikvs then tl_handle t1 = snd (ikvs ! j) \<and> iw_iter (tl_data t1) \<noteq> None else iw_iter (tl_data t1) = None)"
proof (cases "j < length ikvs")
  case False
  then have "\<not> iw_valid (tl_index t)" using idx.w.valid_iff [OF assms(3)] by simp
  then show ?thesis using SetData_base [OF assms(2)] False by (simp add: InitDataBlock_def)
next
  case True
  let ?h = "snd (ikvs ! j)"
  have v: "iw_valid (tl_index t)" "Wrapper_value I (tl_index t) = ?h"
    using idx.w.valid_iff [OF assms(3)] idx.w.contents [OF assms(3) True] True by (auto simp: prod_eq_iff)
  show ?thesis
  proof (cases "iw_iter (tl_data t) \<noteq> None \<and> Slice_compare ?h (tl_handle t) = 0")
    case c: True
    then show ?thesis using assms(2) v True by (auto simp: InitDataBlock_def Slice_compare_0)
  next
    case c: False
    obtain d s where o: "bf_open F (tl_arg t) ?h = Done (d, s)" "okarg s" "don (blk ?h) d"
      using open_law good_handle [OF assms(1) True] assms(2) unfolding tl_base_def by blast
    let ?t = "t\<lparr>tl_arg := s, tl_handle := ?h\<rparr>"
    have "base ikvs (SetDataIterator D F (Some d) ?t)" "iw_iter (tl_data (SetDataIterator D F (Some d) ?t)) = Some d"
      "tl_index (SetDataIterator D F (Some d) ?t) = tl_index ?t" "tl_handle (SetDataIterator D F (Some d) ?t) = tl_handle ?t"
      by (rule SetData_open; use assms(2) o good_handle [OF assms(1) True] in \<open>auto simp: tl_base_def\<close>)+
    then show ?thesis using v o(1) c True by (auto simp: InitDataBlock_def Let_def)
  qed
qed

lemma Init_on_data:
  assumes "index_good ikvs" "base ikvs t" "w_pos I ipos ikvs j (tl_index t)"
    and "\<And>w. j < length ikvs \<Longrightarrow> w_on don (blk (snd (ikvs ! j))) w \<Longrightarrow>
      \<exists>w1. f w = Done w1 \<and> w_pos D dpos (blk (snd (ikvs ! j))) m w1"
  shows "\<exists>t1. exec_bind (InitDataBlock I D F t) (\<lambda>t. exec_bind (on_data f t) k) = k t1 \<and> at_part ikvs j m t1"
proof -
  obtain t1 where t1: "InitDataBlock I D F t = Done t1" "base ikvs t1" "tl_index t1 = tl_index t"
    "if j < length ikvs then tl_handle t1 = snd (ikvs ! j) \<and> iw_iter (tl_data t1) \<noteq> None else iw_iter (tl_data t1) = None"
    using Init_base [OF assms(1-3)] by blast
  show ?thesis
  proof (cases "j < length ikvs")
    case False
    then show ?thesis using t1 assms(3) by (auto simp: on_data_def at_part_def)
  next
    case True
    then have "w_on don (blk (snd (ikvs ! j))) (tl_data t1)" using t1(2,4) by (auto simp: tl_base_def w_on_def)
    from assms(4) [OF True this] obtain w1 where w1: "f (tl_data t1) = Done w1" "w_pos D dpos (blk (snd (ikvs ! j))) m w1" by blast
    then obtain d where d: "iw_iter w1 = Some d" "don (blk (snd (ikvs ! j))) d" "cached D w1"
      using dat.base.pos_on by (auto simp: w_pos_def)
    have "at_part ikvs j m (t1\<lparr>tl_data := w1\<rparr>)"
      using t1(2-4) assms(3) True w1(2) d by (auto simp: at_part_def tl_base_def)
    then show ?thesis using t1(1,4) w1(1) True by (auto simp: on_data_def)
  qed
qed

subsection \<open>Skipping empty blocks\<close>

lemma at_part_valid:
  assumes "at_part ikvs j i t"
  shows "data_invalid t \<longleftrightarrow> \<not> (j < length ikvs \<and> i < length (blk (snd (ikvs ! j))))"
    and "iw_valid (tl_index t) \<longleftrightarrow> j < length ikvs"
  using assms dat.w.valid_iff idx.w.valid_iff
  by (auto simp: at_part_def data_invalid_def w_pos_def [of D] split: if_splits)

lemma move_index:
  assumes "at_part ikvs j i t" "w_pos I ipos ikvs j1 w"
  shows "base ikvs (t\<lparr>tl_index := w\<rparr>)" "w_pos I ipos ikvs j1 (tl_index (t\<lparr>tl_index := w\<rparr>))"
  using assms idx.w.pos_on [OF assms(2)] by (simp_all add: at_part_def tl_base_def)

lemma skip_forward:
  "index_good ikvs \<Longrightarrow> at_part ikvs j i t \<Longrightarrow> (j < length ikvs \<Longrightarrow> i \<le> length (blk (snd (ikvs ! j)))) \<Longrightarrow>
     length ikvs - j < n \<Longrightarrow>
     \<exists>t1. SkipEmptyDataBlocksForward n I D F t = Done t1 \<and>
       at_pos ikvs (part_start blk ikvs j + (if j < length ikvs then i else 0)) t1"
proof (induction n arbitrary: j i t)
  case (Suc n)
  note ap = Suc.prems(2)
  consider (e) "\<not> j < length ikvs" | (v) "j < length ikvs" "i < length (blk (snd (ikvs ! j)))"
    | (s) "j < length ikvs" "i = length (blk (snd (ikvs ! j)))"
    using Suc.prems(3) by fastforce
  then show ?case
  proof cases
    case e
    have b: "base ikvs t" using ap by (simp add: at_part_def)
    have "at_pos ikvs (part_start blk ikvs j) (SetDataIterator D F None t)"
      using SetData_base [OF b] e part_start_end [of ikvs j blk] by (intro at_pos_end) simp_all
    with e show ?thesis using at_part_valid [OF ap] by simp
  next
    case v
    then show ?thesis using at_part_valid [OF ap] at_part_pos [OF ap v] by simp
  next
    case s
    have ip: "w_pos I ipos ikvs j (tl_index t)" using ap by (simp add: at_part_def)
    obtain w where w: "Wrapper_call I (op_next I) (tl_index t) = Done w" "w_pos I ipos ikvs (Suc j) w"
      using idx.w.next_pos [OF ip s(1)] by auto
    obtain t1 where t1: "exec_bind (InitDataBlock I D F (t\<lparr>tl_index := w\<rparr>))
        (\<lambda>t. exec_bind (on_data (op_first (wrapper_ops D)) t) (SkipEmptyDataBlocksForward n I D F)) =
        SkipEmptyDataBlocksForward n I D F t1" "at_part ikvs (Suc j) 0 t1"
      using Init_on_data [OF Suc.prems(1) move_index [OF ap w(2)], of "op_first (wrapper_ops D)" 0] dat.w.first_pos by blast
    from Suc.IH [OF Suc.prems(1) t1(2)] obtain t2 where "SkipEmptyDataBlocksForward n I D F t1 = Done t2"
      "at_pos ikvs (part_start blk ikvs (Suc j)) t2"
      using Suc.prems(4) s(1) by fastforce
    then show ?thesis
      using at_part_valid [OF ap] s w(1) t1(1) part_start_Suc [OF s(1), of blk] by (simp add: on_index_def)
  qed
qed simp

definition back_pos :: "pairs \<Rightarrow> nat \<Rightarrow> nat \<Rightarrow> nat" where
  "back_pos ikvs j i =
     (if j < length ikvs \<and> i < length (blk (snd (ikvs ! j))) then part_start blk ikvs j + i
      else if length ikvs \<le> j \<or> part_start blk ikvs j = 0 then length (part_pairs blk ikvs)
      else part_start blk ikvs j - 1)"

lemma back_pos_Suc:
  assumes "Suc j < length ikvs" "length (blk (snd (ikvs ! Suc j))) \<le> i"
  shows "back_pos ikvs (Suc j) i = back_pos ikvs j (length (blk (snd (ikvs ! j))) - 1)"
proof -
  have j: "j < length ikvs" using assms(1) by simp
  show ?thesis
    using assms part_start_Suc [OF j, of blk] by (cases "blk (snd (ikvs ! j))") (simp_all add: back_pos_def)
qed

lemma skip_backward_end:
  assumes "at_part ikvs j i t" "length ikvs \<le> j" "0 < n"
  shows "\<exists>t1. SkipEmptyDataBlocksBackward n I D F t = Done t1 \<and> at_pos ikvs (length (part_pairs blk ikvs)) t1"
proof -
  have b: "base ikvs t" using assms(1) by (simp add: at_part_def)
  have "at_pos ikvs (length (part_pairs blk ikvs)) (SetDataIterator D F None t)"
    using SetData_base [OF b] by (intro at_pos_end) simp_all
  then show ?thesis using at_part_valid [OF assms(1)] assms(2,3) by (cases n) simp_all
qed

lemma skip_backward:
  "index_good ikvs \<Longrightarrow> at_part ikvs j i t \<Longrightarrow> j < length ikvs \<Longrightarrow> Suc j < n \<Longrightarrow>
     \<exists>t1. SkipEmptyDataBlocksBackward n I D F t = Done t1 \<and> at_pos ikvs (back_pos ikvs j i) t1"
proof (induction n arbitrary: j i t)
  case (Suc n)
  note ap = Suc.prems(2)
  show ?case
  proof (cases "i < length (blk (snd (ikvs ! j)))")
    case True
    then show ?thesis
      using at_part_valid [OF ap] at_part_pos [OF ap Suc.prems(3) True] Suc.prems(3) by (simp add: back_pos_def)
  next
    case False
    have ip: "w_pos I ipos ikvs j (tl_index t)" using ap by (simp add: at_part_def)
    let ?j = "if j = 0 then length ikvs else j - 1"
    let ?m = "length (blk (snd (ikvs ! ?j))) - 1"
    obtain w where w: "Wrapper_call I (op_prev I) (tl_index t) = Done w" "w_pos I ipos ikvs ?j w"
      using idx.w.prev_step [OF ip Suc.prems(3)] by auto
    obtain t1 where t1: "exec_bind (InitDataBlock I D F (t\<lparr>tl_index := w\<rparr>))
        (\<lambda>t. exec_bind (on_data (op_last (wrapper_ops D)) t) (SkipEmptyDataBlocksBackward n I D F)) =
        SkipEmptyDataBlocksBackward n I D F t1" "at_part ikvs ?j ?m t1"
      using Init_on_data [OF Suc.prems(1) move_index [OF ap w(2)], of "op_last (wrapper_ops D)" ?m] dat.w.last_pos by blast
    have "\<exists>t2. SkipEmptyDataBlocksBackward n I D F t1 = Done t2 \<and> at_pos ikvs (back_pos ikvs j i) t2"
    proof (cases j)
      case 0
      then have "back_pos ikvs j i = length (part_pairs blk ikvs)" using False Suc.prems(3) by (simp add: back_pos_def)
      then show ?thesis using skip_backward_end [OF t1(2), of n] 0 Suc.prems(4) by simp
    next
      case (Suc k)
      then have "at_part ikvs k (length (blk (snd (ikvs ! k))) - 1) t1" using t1(2) by simp
      from Suc.IH [OF Suc.prems(1) this] show ?thesis
        using Suc Suc.prems(3,4) False back_pos_Suc [of k ikvs i] by simp
    qed
    then show ?thesis using at_part_valid [OF ap] False Suc.prems(3) w(1) t1(1) by (simp add: on_index_def)
  qed
qed simp

subsection \<open>Seeking\<close>

lemmas nth_part = part_nth(2) [where blk = blk]

lemma index_sep:
  assumes "index_good ikvs" "j < length ikvs"
  shows "valid (fst (ikvs ! j))"
    and "i < length (blk (snd (ikvs ! j))) \<Longrightarrow> valid (fst (blk (snd (ikvs ! j)) ! i)) \<and>
      Compare C (fst (blk (snd (ikvs ! j)) ! i)) (fst (ikvs ! j)) \<le> 0"
    and "j1 < j \<Longrightarrow> Compare C (fst (ikvs ! j1)) (fst (ikvs ! j)) \<le> 0"
    and "j1 < j \<Longrightarrow> i < length (blk (snd (ikvs ! j))) \<Longrightarrow>
      Compare C (fst (ikvs ! j1)) (fst (blk (snd (ikvs ! j)) ! i)) < 0"
proof -
  have all: "\<forall>(s, h) \<in> set ikvs. good h \<and> valid s \<and> (\<forall>(k, v) \<in> set (blk h). valid k \<and> Compare C k s \<le> 0)"
    and s: "sorted_wrt (\<lambda>(s, h) (s1, h1). Compare C s s1 \<le> 0 \<and> (\<forall>(k, v) \<in> set (blk h1). Compare C s k < 0)) ikvs"
    using assms(1) by (simp_all add: index_good_def index_ok_def)
  have j: "good (snd (ikvs ! j)) \<and> valid (fst (ikvs ! j)) \<and>
      (\<forall>(k, v) \<in> set (blk (snd (ikvs ! j))). valid k \<and> Compare C k (fst (ikvs ! j)) \<le> 0)"
    using bspec [OF all nth_mem [OF assms(2)]] by (simp add: case_prod_unfold)
  then show "valid (fst (ikvs ! j))" by blast
  show "i < length (blk (snd (ikvs ! j))) \<Longrightarrow> valid (fst (blk (snd (ikvs ! j)) ! i)) \<and>
      Compare C (fst (blk (snd (ikvs ! j)) ! i)) (fst (ikvs ! j)) \<le> 0"
    using j by (auto simp: case_prod_unfold)
  assume "j1 < j"
  from sorted_wrt_nth_less [OF s this assms(2)]
  show "Compare C (fst (ikvs ! j1)) (fst (ikvs ! j)) \<le> 0" and
    "i < length (blk (snd (ikvs ! j))) \<Longrightarrow> Compare C (fst (ikvs ! j1)) (fst (blk (snd (ikvs ! j)) ! i)) < 0"
    by (auto simp: case_prod_unfold)
qed

lemma index_splits:
  assumes "index_good ikvs" "valid t"
  shows "splits_at (Compare C) t ikvs"
  unfolding splits_at_def
proof (intro allI impI)
  fix i j assume ij: "i \<le> j" "j < length ikvs" "Compare C (fst (ikvs ! j)) t < 0"
  show "Compare C (fst (ikvs ! i)) t < 0"
  proof (cases "i = j")
    case False
    then have i: "i < j" "i < length ikvs" using ij by simp_all
    show ?thesis
      by (rule order.compare_less_trans(2) [OF index_sep(1) [OF assms(1) i(2)] index_sep(1) [OF assms(1) ij(2)] assms(2)
            index_sep(3) [OF assms(1) ij(2) i(1)] ij(3)])
  qed (use ij in simp)
qed

lemma block_splits:
  assumes "j < length ikvs" "splits_at cmp t (part_pairs blk ikvs)"
  shows "splits_at cmp t (blk (snd (ikvs ! j)))"
  unfolding splits_at_def
proof (intro allI impI)
  fix i m assume im: "i \<le> m" "m < length (blk (snd (ikvs ! j)))" "cmp (fst (blk (snd (ikvs ! j)) ! m)) t < 0"
  let ?p = "part_start blk ikvs j"
  have "?p + i \<le> ?p + m \<longrightarrow> ?p + m < length (part_pairs blk ikvs) \<longrightarrow>
      cmp (fst (part_pairs blk ikvs ! (?p + m))) t < 0 \<longrightarrow> cmp (fst (part_pairs blk ikvs ! (?p + i))) t < 0"
    using assms(2) unfolding splits_at_def by blast
  then show "cmp (fst (blk (snd (ikvs ! j)) ! i)) t < 0"
    using im nth_part [OF assms(1) im(2)] nth_part [OF assms(1) le_less_trans [OF im(1,2)]] part_nth(1) [where blk = blk, OF assms(1) im(2)] by simp
qed

lemma seek_split:
  assumes "index_good ikvs" "valid t" "j = keys_before (Compare C) t ikvs"
    and "m = keys_before (Compare C) t (blk (snd (ikvs ! j)))"
  shows "keys_before (Compare C) t (part_pairs blk ikvs) = part_start blk ikvs j + (if j < length ikvs then m else 0)"
proof (rule keys_beforeI)
  let ?p = "part_start blk ikvs j + (if j < length ikvs then m else 0)"
  have m: "m \<le> length (blk (snd (ikvs ! j)))" unfolding assms(4) by (rule keys_before_le)
  have jl: "j \<le> length ikvs" unfolding assms(3) by (rule keys_before_le)
  show "?p \<le> length (part_pairs blk ikvs)"
    using m part_start_Suc [of j ikvs blk] part_start_le [of blk ikvs "Suc j"] part_start_le [of blk ikvs j] by auto
  fix p assume p: "p < ?p"
  show "Compare C (fst (part_pairs blk ikvs ! p)) t < 0"
  proof (cases "p < part_start blk ikvs j")
    case True
    then obtain j1 i where ji: "j1 < j" "i < length (blk (snd (ikvs ! j1)))" "p = part_start blk ikvs j1 + i"
      using part_nth_ex jl by blast
    have j1: "j1 < length ikvs" using ji(1) jl by simp
    have st: "Compare C (fst (ikvs ! j1)) t < 0" using nth_before ji(1) unfolding assms(3) by blast
    note k = index_sep(2) [OF assms(1) j1 ji(2)]
    show ?thesis
      using order.compare_less_trans(2) [OF _ index_sep(1) [OF assms(1) j1] assms(2) _ st] k nth_part [OF j1 ji(2)] ji(3) by simp
  next
    case False
    then have "j < length ikvs" "p - part_start blk ikvs j < m" using p by (auto split: if_splits)
    then show ?thesis
      using nth_before [of "p - part_start blk ikvs j" "Compare C" t] nth_part [of j ikvs "p - part_start blk ikvs j"] m False
      unfolding assms(4) by simp
  qed
next
  let ?p = "part_start blk ikvs j + (if j < length ikvs then m else 0)"
  have m: "m \<le> length (blk (snd (ikvs ! j)))" unfolding assms(4) by (rule keys_before_le)
  assume pl: "?p < length (part_pairs blk ikvs)"
  have j: "j < length ikvs"
  proof (rule ccontr)
    assume "\<not> j < length ikvs"
    with pl part_start_end [of ikvs j blk] show False by simp
  qed
  show "0 \<le> Compare C (fst (part_pairs blk ikvs ! ?p)) t"
  proof (cases "m < length (blk (snd (ikvs ! j)))")
    case True
    then show ?thesis using nth_not_before nth_part [OF j True] j unfolding assms(4) by simp
  next
    case False
    then have e: "?p = part_start blk ikvs (Suc j)" using m j part_start_Suc [OF j, of blk] by simp
    have "?p < part_start blk ikvs (length ikvs)" using pl part_start_end [of ikvs "length ikvs" blk] by simp
    then obtain j2 i where ji: "j2 < length ikvs" "i < length (blk (snd (ikvs ! j2)))" "?p = part_start blk ikvs j2 + i"
      using part_nth_ex by blast
    have "j < j2"
    proof (rule ccontr)
      assume "\<not> j < j2"
      then have "part_start blk ikvs (Suc j2) \<le> part_start blk ikvs (Suc j)" by (intro part_start_mono) simp
      then show False using part_start_Suc [OF ji(1), of blk] ji(2,3) e by simp
    qed
    note gt = index_sep(4) [OF assms(1) ji(1) this ji(2)]
    have "0 \<le> Compare C (fst (ikvs ! j)) t" using nth_not_before j unfolding assms(3) by blast
    then have "Compare C t (fst (ikvs ! j)) \<le> 0"
      using order.compare_swap [OF index_sep(1) [OF assms(1) j] assms(2)] order.compare_swap [OF assms(2) index_sep(1) [OF assms(1) j]]
      by linarith
    then have "Compare C t (fst (blk (snd (ikvs ! j2)) ! i)) < 0"
      using order.compare_less_trans(2) [OF assms(2) index_sep(1) [OF assms(1) j] _ _ gt] index_sep(2) [OF assms(1) ji(1,2)] by blast
    then show ?thesis
      unfolding ji(3) nth_part [OF ji(1,2)] using order.compare_swap [OF assms(2)] index_sep(2) [OF assms(1) ji(1,2)] by simp
  qed
qed

subsection \<open>The operations\<close>

lemma move_data:
  assumes "index_good ikvs" "at_part ikvs j i t" "j < length ikvs" "w_pos D dpos (blk (snd (ikvs ! j))) m w"
  shows "at_part ikvs j m (t\<lparr>tl_data := w\<rparr>)"
  using assms good_handle [OF assms(1,3)] dat.base.pos_on
  by (auto simp: at_part_def tl_base_def w_pos_def [of D])

lemma Next_part:
  assumes "index_good ikvs" "at_part ikvs j i t" "j < length ikvs" "i < length (blk (snd (ikvs ! j)))"
  shows "\<exists>t1. TwoLevel_Next fuel I D F t = Done t1 \<and> at_pos ikvs (Suc (part_start blk ikvs j + i)) t1"
proof -
  have dp: "w_pos D dpos (blk (snd (ikvs ! j))) i (tl_data t)" using assms(2,3) by (simp add: at_part_def)
  obtain w where w: "Wrapper_call D (op_next D) (tl_data t) = Done w" "w_pos D dpos (blk (snd (ikvs ! j))) (Suc i) w"
    using dat.w.next_pos [OF dp assms(4)] by auto
  have "length ikvs - j < fuel" using assms(1) by (auto simp: index_good_def)
  from skip_forward [OF assms(1) move_data [OF assms(1-3) w(2)] _ this] show ?thesis
    using w(1) assms(3,4) by (simp add: TwoLevel_Next_def)
qed

lemma Prev_part:
  assumes "index_good ikvs" "at_part ikvs j i t" "j < length ikvs" "i < length (blk (snd (ikvs ! j)))"
  shows "\<exists>t1. TwoLevel_Prev fuel I D F t = Done t1 \<and>
    at_pos ikvs (if part_start blk ikvs j + i = 0 then length (part_pairs blk ikvs) else part_start blk ikvs j + i - 1) t1"
proof -
  let ?m = "if i = 0 then length (blk (snd (ikvs ! j))) else i - 1"
  have dp: "w_pos D dpos (blk (snd (ikvs ! j))) i (tl_data t)" using assms(2,3) by (simp add: at_part_def)
  obtain w where w: "Wrapper_call D (op_prev D) (tl_data t) = Done w" "w_pos D dpos (blk (snd (ikvs ! j))) ?m w"
    using dat.w.prev_step [OF dp assms(4)] by auto
  have f: "Suc j < fuel" using assms(1,3) by (auto simp: index_good_def)
  have "back_pos ikvs j ?m =
      (if part_start blk ikvs j + i = 0 then length (part_pairs blk ikvs) else part_start blk ikvs j + i - 1)"
    using assms(3,4) by (auto simp: back_pos_def)
  with skip_backward [OF assms(1) move_data [OF assms(1-3) w(2)] assms(3) f] show ?thesis
    using w(1) by (simp add: TwoLevel_Prev_def)
qed

lemma first_base:
  assumes "index_good ikvs" "base ikvs t"
  shows "\<exists>t1. TwoLevel_SeekToFirst fuel I D F t = Done t1 \<and> at_pos ikvs 0 t1"
proof -
  have on: "w_on ion ikvs (tl_index t)" using assms(2) by (simp add: tl_base_def)
  obtain w where w: "Wrapper_call I (op_first I) (tl_index t) = Done w" "w_pos I ipos ikvs 0 w"
    using idx.w.first_pos [OF on] by auto
  have b: "base ikvs (t\<lparr>tl_index := w\<rparr>)" using assms(2) idx.w.pos_on [OF w(2)] by (simp add: tl_base_def)
  have ip: "w_pos I ipos ikvs 0 (tl_index (t\<lparr>tl_index := w\<rparr>))" using w(2) by simp
  obtain t1 where t1: "exec_bind (InitDataBlock I D F (t\<lparr>tl_index := w\<rparr>))
      (\<lambda>t. exec_bind (on_data (op_first (wrapper_ops D)) t) (SkipEmptyDataBlocksForward fuel I D F)) =
      SkipEmptyDataBlocksForward fuel I D F t1" "at_part ikvs 0 0 t1"
    using Init_on_data [OF assms(1) b ip, of "op_first (wrapper_ops D)" 0] dat.w.first_pos by blast
  from skip_forward [OF assms(1) t1(2), of fuel] t1(1) show ?thesis
    using w(1) assms(1) by (simp add: TwoLevel_SeekToFirst_def on_index_def index_good_def)
qed

lemma last_base:
  assumes "index_good ikvs" "base ikvs t"
  shows "\<exists>t1. TwoLevel_SeekToLast fuel I D F t = Done t1 \<and> at_pos ikvs (length (part_pairs blk ikvs) - 1) t1"
proof -
  let ?j = "length ikvs - 1"
  let ?m = "length (blk (snd (ikvs ! ?j))) - 1"
  have on: "w_on ion ikvs (tl_index t)" using assms(2) by (simp add: tl_base_def)
  obtain w where w: "Wrapper_call I (op_last I) (tl_index t) = Done w" "w_pos I ipos ikvs ?j w"
    using idx.w.last_pos [OF on] by auto
  have b: "base ikvs (t\<lparr>tl_index := w\<rparr>)" using assms(2) idx.w.pos_on [OF w(2)] by (simp add: tl_base_def)
  have ip: "w_pos I ipos ikvs ?j (tl_index (t\<lparr>tl_index := w\<rparr>))" using w(2) by simp
  obtain t1 where t1: "exec_bind (InitDataBlock I D F (t\<lparr>tl_index := w\<rparr>))
      (\<lambda>t. exec_bind (on_data (op_last (wrapper_ops D)) t) (SkipEmptyDataBlocksBackward fuel I D F)) =
      SkipEmptyDataBlocksBackward fuel I D F t1" "at_part ikvs ?j ?m t1"
    using Init_on_data [OF assms(1) b ip, of "op_last (wrapper_ops D)" ?m] dat.w.last_pos by blast
  have f: "Suc (length ikvs) < fuel" using assms(1) by (simp add: index_good_def)
  have "\<exists>t2. SkipEmptyDataBlocksBackward fuel I D F t1 = Done t2 \<and> at_pos ikvs (length (part_pairs blk ikvs) - 1) t2"
  proof (cases "ikvs = []")
    case True
    then show ?thesis using skip_backward_end [OF t1(2), of fuel] f by (simp add: part_pairs_def)
  next
    case False
    then have j: "?j < length ikvs" by simp
    have p: "length (part_pairs blk ikvs) = part_start blk ikvs ?j + length (blk (snd (ikvs ! ?j)))"
      using part_start_Suc [OF j, of blk] part_start_end [of ikvs "Suc ?j" blk] False by simp
    have e: "back_pos ikvs ?j ?m = length (part_pairs blk ikvs) - 1"
      using j p by (cases "blk (snd (ikvs ! ?j))") (auto simp: back_pos_def)
    from skip_backward [OF assms(1) t1(2) j, of fuel] f j e show ?thesis by auto
  qed
  then show ?thesis using w(1) t1(1) by (simp add: TwoLevel_SeekToLast_def on_index_def)
qed

lemma seek_base:
  assumes "index_good ikvs" "base ikvs t" "valid target" "splits_at (Compare C) target (part_pairs blk ikvs)"
  shows "\<exists>t1. TwoLevel_Seek fuel I D F target t = Done t1 \<and>
    at_pos ikvs (keys_before (Compare C) target (part_pairs blk ikvs)) t1"
proof -
  define j where "j = keys_before (Compare C) target ikvs"
  define m where "m = keys_before (Compare C) target (blk (snd (ikvs ! j)))"
  have on: "w_on ion ikvs (tl_index t)" using assms(2) by (simp add: tl_base_def)
  obtain w where w: "Wrapper_call I (op_seek I target) (tl_index t) = Done w" "w_pos I ipos ikvs j w"
    using idx.w.seek_pos [OF on _ index_splits [OF assms(1,3)]] by (auto simp: j_def)
  have b: "base ikvs (t\<lparr>tl_index := w\<rparr>)" using assms(2) idx.w.pos_on [OF w(2)] by (simp add: tl_base_def)
  have ip: "w_pos I ipos ikvs j (tl_index (t\<lparr>tl_index := w\<rparr>))" using w(2) by simp
  have d: "\<exists>w1. op_seek (wrapper_ops D) target w0 = Done w1 \<and> w_pos D dpos (blk (snd (ikvs ! j))) m w1"
    if "j < length ikvs" "w_on don (blk (snd (ikvs ! j))) w0" for w0
    unfolding m_def by (rule dat.w.seek_pos [OF that(2) TrueI block_splits [OF that(1) assms(4)]])
  obtain t1 where t1: "exec_bind (InitDataBlock I D F (t\<lparr>tl_index := w\<rparr>))
      (\<lambda>t. exec_bind (on_data (op_seek (wrapper_ops D) target) t) (SkipEmptyDataBlocksForward fuel I D F)) =
      SkipEmptyDataBlocksForward fuel I D F t1" "at_part ikvs j m t1"
    using Init_on_data [OF assms(1) b ip, of "op_seek (wrapper_ops D) target" m] d by blast
  have "m \<le> length (blk (snd (ikvs ! j)))" unfolding m_def by (rule keys_before_le)
  with skip_forward [OF assms(1) t1(2), of fuel] t1(1) show ?thesis
    unfolding seek_split [OF assms(1,3) j_def m_def]
    using w(1) assms(1) by (auto simp: TwoLevel_Seek_def on_index_def index_good_def)
qed

end

subsection \<open>The contract is kept\<close>

sublocale two_level_parts \<subseteq> two: seek_iterator "two_level_ops fuel I D F" tl_pos tl_on "Compare C" valid
proof
  fix kvs p t assume "tl_pos kvs p t"
  then obtain ikvs where g: "index_good ikvs" "kvs = part_pairs blk ikvs" "at_pos ikvs p t" by (auto simp: tl_pos_def)
  show "op_valid (two_level_ops fuel I D F) t \<longleftrightarrow> p < length kvs"
  proof (cases "p < length kvs")
    case True
    then obtain j i where "j < length ikvs" "i < length (blk (snd (ikvs ! j)))" "at_part ikvs j i t"
      using g by (auto simp: at_pos_def)
    then show ?thesis using at_part_valid(1) [of ikvs j i t] True by (simp add: two_level_ops_def data_invalid_def)
  next
    case False
    then have "base ikvs t" "iw_iter (tl_data t) = None" using g by (auto simp: at_pos_def)
    then show ?thesis using False by (simp add: two_level_ops_def tl_base_def cached_def)
  qed
  show "tl_on kvs t" using g at_pos_base by (auto simp: tl_on_def)
  assume p: "p < length kvs"
  then obtain j i where ji: "j < length ikvs" "i < length (blk (snd (ikvs ! j)))" "at_part ikvs j i t"
    "p = part_start blk ikvs j + i"
    using g by (auto simp: at_pos_def)
  have dp: "w_pos D dpos (blk (snd (ikvs ! j))) i (tl_data t)" using ji(1,3) by (simp add: at_part_def)
  show "(op_key (two_level_ops fuel I D F) t, op_value (two_level_ops fuel I D F) t) = kvs ! p"
    using dat.w.contents [OF dp ji(2)] nth_part [OF ji(1,2)] ji(4) g(2) by (simp add: two_level_ops_def)
  show "\<exists>t1. op_next (two_level_ops fuel I D F) t = Done t1 \<and> tl_pos kvs (Suc p) t1"
    using Next_part [OF g(1) ji(3,1,2)] g(1,2) ji(4) by (auto simp: two_level_ops_def tl_pos_def)
  obtain t1 where t1: "TwoLevel_Prev fuel I D F t = Done t1" "at_pos ikvs (if p = 0 then length kvs else p - 1) t1"
    using Prev_part [OF g(1) ji(3,1,2)] g(2) ji(4) by auto
  have "\<not> iw_valid (tl_data t1)" if "p = 0"
    using t1(2) that g(2) by (auto simp: at_pos_def tl_base_def cached_def)
  then show "\<exists>t1. op_prev (two_level_ops fuel I D F) t = Done t1 \<and>
      (if p = 0 then \<not> op_valid (two_level_ops fuel I D F) t1 else tl_pos kvs (p - 1) t1)"
    using t1 g(1,2) by (auto simp: two_level_ops_def tl_pos_def)
next
  fix kvs t t1 assume "tl_pos kvs 0 t" "kvs \<noteq> []" "op_prev (two_level_ops fuel I D F) t = Done t1"
  moreover from this obtain ikvs where g: "index_good ikvs" "kvs = part_pairs blk ikvs" "at_pos ikvs 0 t"
    by (auto simp: tl_pos_def)
  ultimately obtain j i where ji: "j < length ikvs" "i < length (blk (snd (ikvs ! j)))" "at_part ikvs j i t"
    "part_start blk ikvs j + i = 0"
    by (auto simp: at_pos_def)
  from Prev_part [OF g(1) ji(3,1,2)] \<open>op_prev (two_level_ops fuel I D F) t = Done t1\<close> g(1,2) ji(4)
  show "tl_pos kvs (length kvs) t1" by (auto simp: two_level_ops_def tl_pos_def)
next
  fix kvs t target assume "tl_on kvs t"
  then obtain ikvs where g: "index_good ikvs" "kvs = part_pairs blk ikvs" "base ikvs t" by (auto simp: tl_on_def)
  have "Wrapper_status I (tl_index t) = OK" using idx.w.status_on g(3) by (auto simp: tl_base_def)
  moreover have "Wrapper_status D (tl_data t) = OK"
    using g(3) dat.base.status_on by (auto simp: tl_base_def Wrapper_status_def split: option.split)
  ultimately show "op_status (two_level_ops fuel I D F) t = OK"
    using g(3) by (simp add: two_level_ops_def TwoLevel_status_def tl_base_def)
  show "\<exists>t1. op_first (two_level_ops fuel I D F) t = Done t1 \<and> tl_pos kvs 0 t1"
    using first_base [OF g(1,3)] g(1,2) by (auto simp: two_level_ops_def tl_pos_def)
  show "\<exists>t1. op_last (two_level_ops fuel I D F) t = Done t1 \<and> tl_pos kvs (length kvs - 1) t1"
    using last_base [OF g(1,3)] g(1,2) by (auto simp: two_level_ops_def tl_pos_def)
  assume v: "valid target" "splits_at (Compare C) target kvs"
  from seek_base [OF g(1,3) v(1) v(2) [unfolded g(2)]]
  show "\<exists>t1. op_seek (two_level_ops fuel I D F) target t = Done t1 \<and> tl_pos kvs (keys_before (Compare C) target kvs) t1"
    using g(1,2) unfolding two_level_ops_def tl_pos_def by (simp, blast)
qed

text \<open>A fresh iterator belongs to the concatenation of the blocks.\<close>

context two_level_parts
begin

lemma new_two_level_on:
  assumes "index_good ikvs" "okarg s" "ion ikvs it"
  shows "tl_on (part_pairs blk ikvs) (TwoLevelIterator I it s)"
  using assms by (auto simp: tl_on_def tl_base_def TwoLevelIterator_def IteratorWrapper_def w_on_def cached_def)

end

end
