(* ===== verification/Ldb_Format.thy ===== *)
theory Ldb_Format
  imports Ldb_Block_Iter Ldb_Env Ldb_Crc32c
begin

text \<open>
  The format of table files (\<open>table/format.h\<close>, \<open>table/format.cc\<close>): handles of blocks, the footer and
  the reading of a block with its checksum; with the options (\<open>include/leveldb/options.h\<close>,
  \<open>util/options.cc\<close>) and the compression interface (\<open>port/port_posix.h\<close>) that they use.
\<close>

subsection \<open>Options and compression\<close>

definition kNoCompression :: u8 where "kNoCompression = 0"
definition kSnappyCompression :: u8 where "kSnappyCompression = 1"

text \<open>
  Comparators are compared by address (\<open>opt_comparator_ptr\<close>); \<open>opt_block_cache\<close> says whether there
  is a cache. The environment and the log for messages are left out: they are parameters of the
  code that uses them.
\<close>

record options =
  opt_comparator :: comparator
  opt_comparator_ptr :: nat
  opt_create_if_missing :: bool
  opt_error_if_exists :: bool
  opt_paranoid_checks :: bool
  opt_write_buffer_size :: nat
  opt_max_open_files :: int
  opt_block_cache :: bool
  opt_block_size :: nat
  opt_block_restart_interval :: nat
  opt_max_file_size :: nat
  opt_compression :: u8
  opt_reuse_logs :: bool
  opt_filter_policy :: "filter_policy option"

definition Options :: options where
  "Options =
     \<lparr>opt_comparator = BytewiseComparator, opt_comparator_ptr = 0, opt_create_if_missing = False,
      opt_error_if_exists = False, opt_paranoid_checks = False, opt_write_buffer_size = 4194304,
      opt_max_open_files = 1000, opt_block_cache = False, opt_block_size = 4096,
      opt_block_restart_interval = 16, opt_max_file_size = 2097152,
      opt_compression = kSnappyCompression, opt_reuse_logs = False, opt_filter_policy = None\<rparr>"

record read_options =
  ro_verify_checksums :: bool
  ro_fill_cache :: bool

definition ReadOptions :: read_options where
  "ReadOptions = \<lparr>ro_verify_checksums = False, ro_fill_cache = True\<rparr>"

text \<open>The pod is built without \<open>SNAPPY\<close>: the functions return false.\<close>

definition Snappy_Compress :: "slice \<Rightarrow> slice option" where "Snappy_Compress input = None"
definition Snappy_GetUncompressedLength :: "slice \<Rightarrow> nat option" where "Snappy_GetUncompressedLength input = None"
definition Snappy_Uncompress :: "slice \<Rightarrow> slice option" where "Snappy_Uncompress input = None"

subsection \<open>Handles\<close>

record block_handle =
  bh_offset :: u64
  bh_size :: u64

definition BlockHandle :: block_handle where "BlockHandle = \<lparr>bh_offset = - 1, bh_size = - 1\<rparr>"

definition kMaxEncodedLength :: nat where "kMaxEncodedLength = 10 + 10"

definition Handle_EncodeTo :: "block_handle \<Rightarrow> u8 list \<Rightarrow> u8 list" where
  "Handle_EncodeTo h dst = PutVarint64 (PutVarint64 dst (bh_offset h)) (bh_size h)"

text \<open>The status, the handle and the input after the call.\<close>

definition Handle_DecodeFrom :: "slice \<Rightarrow> block_handle \<Rightarrow> status \<times> block_handle \<times> slice" where
  "Handle_DecodeFrom input h =
     (case GetVarint64 input of
        (None, input) \<Rightarrow> (Corruption (str ''bad block handle'') [], h, input)
      | (Some offset, input) \<Rightarrow>
          (case GetVarint64 input of
             (None, input) \<Rightarrow> (Corruption (str ''bad block handle'') [], h\<lparr>bh_offset := offset\<rparr>, input)
           | (Some n, input) \<Rightarrow> (OK, \<lparr>bh_offset = offset, bh_size = n\<rparr>, input)))"

subsection \<open>The footer\<close>

record footer =
  metaindex_handle :: block_handle
  index_handle :: block_handle

definition kEncodedLength :: nat where "kEncodedLength = 2 * kMaxEncodedLength + 8"
definition kTableMagicNumber :: u64 where "kTableMagicNumber = 0xdb4775248b80fb57"
definition kBlockTrailerSize :: nat where "kBlockTrailerSize = 5"

text \<open>The padding brings the whole destination to 40 bytes, whatever it held before.\<close>

definition Footer_EncodeTo :: "footer \<Rightarrow> u8 list \<Rightarrow> u8 list" where
  "Footer_EncodeTo f dst =
     (let dst = Handle_EncodeTo (metaindex_handle f) dst;
          dst = Handle_EncodeTo (index_handle f) dst;
          dst = take (2 * kMaxEncodedLength) dst @ replicate (2 * kMaxEncodedLength - length dst) 0;
          dst = PutFixed32 dst (ucast (kTableMagicNumber AND 0xffffffff))
      in PutFixed32 dst (ucast (drop_bit 32 kTableMagicNumber)))"

text \<open>The magic number is read at a fixed offset, without a check of the length of the input.\<close>

definition Footer_DecodeFrom :: "slice \<Rightarrow> footer \<Rightarrow> (status \<times> footer \<times> slice) exec" where
  "Footer_DecodeFrom input f =
     (if length input < kEncodedLength then Undefined
      else
        let magic_ptr = drop (kEncodedLength - 8) input;
            magic_lo = DecodeFixed32 kLittleEndian magic_ptr;
            magic_hi = DecodeFixed32 kLittleEndian (drop 4 magic_ptr);
            magic = push_bit 32 (ucast magic_hi) OR (ucast magic_lo :: u64)
        in if magic \<noteq> kTableMagicNumber
           then Done (Corruption (str ''not an sstable (bad magic number)'') [], f, input)
           else
             (case Handle_DecodeFrom input (metaindex_handle f) of
                (result, mh, rest) \<Rightarrow>
                  if \<not> ok result then Done (result, f\<lparr>metaindex_handle := mh\<rparr>, rest)
                  else
                    (case Handle_DecodeFrom rest (index_handle f) of
                       (result, ih, rest) \<Rightarrow>
                         Done (result, \<lparr>metaindex_handle = mh, index_handle = ih\<rparr>,
                           if ok result then drop kEncodedLength input else rest))))"

subsection \<open>Reading a block\<close>

record block_contents =
  bc_data :: slice
  bc_cachable :: bool
  bc_heap_allocated :: bool

text \<open>
  The size of the read, \<open>n + kBlockTrailerSize\<close>, is a 64-bit sum; when it wraps, the type byte is
  read outside the buffer.
\<close>

definition ReadBlock ::
    "'f random_access_file \<Rightarrow> 'f \<Rightarrow> read_options \<Rightarrow> block_handle \<Rightarrow> (status \<times> block_contents) exec" where
  "ReadBlock R file opts handle =
     (let n = bh_size handle;
          none = \<lparr>bc_data = [], bc_cachable = False, bc_heap_allocated = False\<rparr>
      in exec_bind (raf_read R file (bh_offset handle) (n + of_nat kBlockTrailerSize)) (\<lambda>(s, contents, in_buf).
           if \<not> ok s then Done (s, none)
           else if length contents \<noteq> unat (n + of_nat kBlockTrailerSize)
           then Done (Corruption (str ''truncated block read'') [], none)
           else if length contents < unat n + kBlockTrailerSize then Undefined
           else if ro_verify_checksums opts \<and>
              Value 0 (take (unat n + 1) contents) \<noteq> Unmask (DecodeFixed32 kLittleEndian (drop (unat n + 1) contents))
           then Done (Corruption (str ''block checksum mismatch'') [], none)
           else
             let type = contents ! unat n; data = take (unat n) contents
             in if type = kNoCompression then
                  Done (OK, \<lparr>bc_data = data, bc_cachable = in_buf, bc_heap_allocated = in_buf\<rparr>)
                else if type = kSnappyCompression then
                  (case Snappy_GetUncompressedLength data of
                     None \<Rightarrow> Done (Corruption (str ''corrupted compressed block contents'') [], none)
                   | Some ulength \<Rightarrow>
                       (case Snappy_Uncompress data of
                          None \<Rightarrow> Done (Corruption (str ''corrupted compressed block contents'') [], none)
                        | Some ubuf \<Rightarrow> Done (OK, \<lparr>bc_data = ubuf, bc_cachable = True, bc_heap_allocated = True\<rparr>)))
                else Done (Corruption (str ''bad block type'') [], none)))"

subsection \<open>Handles and footers are read back\<close>

abbreviation handle_bytes :: "block_handle \<Rightarrow> u8 list" where "handle_bytes h \<equiv> Handle_EncodeTo h []"

lemma Handle_EncodeTo_append: "Handle_EncodeTo h dst = dst @ handle_bytes h"
  by (simp add: Handle_EncodeTo_def PutVarint64_def)

lemma Handle_Decode_Encode [simp]: "Handle_DecodeFrom (handle_bytes h @ rest) g = (OK, h, rest)"
  by (simp add: Handle_DecodeFrom_def Handle_EncodeTo_def PutVarint64_def)

lemma length_handle_bytes: "length (handle_bytes h) \<le> kMaxEncodedLength"
  using length_vbytes_u64 [of "bh_offset h"] length_vbytes_u64 [of "bh_size h"]
  by (simp add: Handle_EncodeTo_def PutVarint64_def EncodeVarint64_vbytes kMaxEncodedLength_def)

lemma handle_bytes_inject: "handle_bytes h = handle_bytes h1 \<longleftrightarrow> h = h1"
  using Handle_Decode_Encode [of h "[]" BlockHandle] Handle_Decode_Encode [of h1 "[]" BlockHandle]
  by (metis prod.inject)

lemma magic_word:
  "push_bit 32 (ucast (ucast (drop_bit 32 kTableMagicNumber) :: u32)) OR
   ucast (ucast (kTableMagicNumber AND 0xffffffff) :: u32) = kTableMagicNumber"
  by code_simp

lemma Footer_bytes:
  "\<exists>pad. Footer_EncodeTo f [] = handle_bytes (metaindex_handle f) @ handle_bytes (index_handle f) @ pad @
     EncodeFixed32 kLittleEndian (ucast (kTableMagicNumber AND 0xffffffff)) @
     EncodeFixed32 kLittleEndian (ucast (drop_bit 32 kTableMagicNumber)) \<and>
     length (handle_bytes (metaindex_handle f) @ handle_bytes (index_handle f) @ pad) = 2 * kMaxEncodedLength"
  using length_handle_bytes [of "metaindex_handle f"] length_handle_bytes [of "index_handle f"]
  unfolding Footer_EncodeTo_def Let_def Handle_EncodeTo_append [of "index_handle f" "handle_bytes (metaindex_handle f)"] PutFixed32_def
  by (intro exI [of _ "replicate (2 * kMaxEncodedLength -
        length (handle_bytes (metaindex_handle f) @ handle_bytes (index_handle f))) 0"]) simp

lemma length_Footer [simp]: "length (Footer_EncodeTo f []) = kEncodedLength"
  using Footer_bytes [of f] by (auto simp: kEncodedLength_def)

lemma Footer_Decode_Encode: "Footer_DecodeFrom (Footer_EncodeTo f [] @ rest) g = Done (OK, f, rest)"
proof -
  obtain pad where p: "Footer_EncodeTo f [] = handle_bytes (metaindex_handle f) @ handle_bytes (index_handle f) @ pad @
     EncodeFixed32 kLittleEndian (ucast (kTableMagicNumber AND 0xffffffff)) @
     EncodeFixed32 kLittleEndian (ucast (drop_bit 32 kTableMagicNumber))"
    "length (handle_bytes (metaindex_handle f) @ handle_bytes (index_handle f) @ pad) = 2 * kMaxEncodedLength"
    using Footer_bytes by blast
  let ?in = "Footer_EncodeTo f [] @ rest"
  have l: "\<not> length ?in < kEncodedLength" "drop kEncodedLength ?in = rest" by simp_all
  have d: "drop (kEncodedLength - 8) ?in = EncodeFixed32 kLittleEndian (ucast (kTableMagicNumber AND 0xffffffff)) @
     EncodeFixed32 kLittleEndian (ucast (drop_bit 32 kTableMagicNumber)) @ rest"
    using p by (simp add: kEncodedLength_def)
  have h: "Handle_DecodeFrom ?in g1 = (OK, metaindex_handle f, handle_bytes (index_handle f) @ pad @
      EncodeFixed32 kLittleEndian (ucast (kTableMagicNumber AND 0xffffffff)) @
      EncodeFixed32 kLittleEndian (ucast (drop_bit 32 kTableMagicNumber)) @ rest)" for g1
    unfolding p(1) append_assoc by simp
  show ?thesis
    unfolding Footer_DecodeFrom_def Let_def if_not_P [OF l(1)] d
    by (simp add: h l(2) magic_word)
qed

subsection \<open>A block that is stored in a file\<close>

definition block_trailer :: "slice \<Rightarrow> u8 list" where
  "block_trailer data =
     kNoCompression # EncodeFixed32 kLittleEndian (Mask (Extend 0 (Value 0 data) [kNoCompression]))"

definition stored :: "u8 list \<Rightarrow> block_handle \<Rightarrow> slice \<Rightarrow> bool" where
  "stored file h data \<longleftrightarrow> length file < 2 ^ 63 \<and> unat (bh_size h) = length data \<and>
     (\<exists>pre post. file = pre @ data @ block_trailer data @ post \<and> length pre = unat (bh_offset h))"

lemma length_block_trailer [simp]: "length (block_trailer data) = kBlockTrailerSize"
  by (simp add: block_trailer_def kBlockTrailerSize_def)

lemma stored_append: "stored file h data \<Longrightarrow> length (file @ xs) < 2 ^ 63 \<Longrightarrow> stored (file @ xs) h data"
  unfolding stored_def by fastforce

context random_file
begin

lemma ReadBlock_stored:
  assumes "good f" "stored (contents f) h data"
  shows "\<exists>c. ReadBlock R f opts h = Done (OK, c) \<and> bc_data c = data"
proof -
  obtain pre post where x: "contents f = pre @ data @ block_trailer data @ post" "length pre = unat (bh_offset h)"
    and n: "unat (bh_size h) = length data" and l: "length (contents f) < 2 ^ 63"
    using assms(2) by (auto simp: stored_def)
  have "length data + 5 < 2 ^ 64" using l x(1) by (simp add: kBlockTrailerSize_def)
  then have w: "unat (bh_size h + of_nat kBlockTrailerSize) = length data + kBlockTrailerSize"
    using n by (simp add: unat_word_ariths kBlockTrailerSize_def)
  have "unat (bh_offset h) + unat (bh_size h + of_nat kBlockTrailerSize) \<le> length (contents f)"
    unfolding w using x by simp
  from read_law [OF assms(1) this] obtain sc where r: "raf_read R f (bh_offset h) (bh_size h + of_nat kBlockTrailerSize) =
      Done (OK, data @ block_trailer data, sc)"
    unfolding w using x by auto
  have t: "(data @ block_trailer data) ! length data = kNoCompression" by (simp add: block_trailer_def nth_append)
  have k: "take (length data + 1) (data @ block_trailer data) = data @ [kNoCompression]"
    "drop (length data + 1) (data @ block_trailer data) = EncodeFixed32 kLittleEndian (Mask (Extend 0 (Value 0 data) [kNoCompression]))"
    by (simp_all add: block_trailer_def)
  have c: "Value 0 (data @ [kNoCompression]) = Extend 0 (Value 0 data) [kNoCompression]"
    by (simp add: Value_def Extend_crc32c crc32c_append)
  have e: "DecodeFixed32 kLittleEndian (EncodeFixed32 kLittleEndian v) = v" for v
    using DecodeFixed32_Encode [of kLittleEndian kLittleEndian v "[]"] by simp
  show ?thesis
    unfolding ReadBlock_def Let_def r exec_bind.simps prod.case w n t k c e Unmask_Mask by simp
qed

end

end
