(* ===== verification/Ldb_Table_Builder.thy ===== *)
theory Ldb_Table_Builder
  imports Ldb_Format
begin

text \<open>
  The builder of table files (\<open>table/table_builder.cc\<close>): it cuts the pairs into blocks, writes each
  block with its trailer, and collects the index, the filters and the footer. The file is a
  parameter, an implementation of \<open>WritableFile\<close>. The asserted preconditions (keys in increasing
  order, no call after \<open>Finish\<close> or \<open>Abandon\<close>) are hypotheses of the lemmas.
\<close>

text \<open>
  The options of the index block differ from the others in the restart interval only, which is 1.
  A filter block builder carries its policy.
\<close>

record 'f table_builder =
  tb_options :: options
  tb_file :: 'f
  tb_offset :: u64
  tb_status :: status
  tb_data_block :: block_builder
  tb_index_block :: block_builder
  tb_last_key :: slice
  tb_num_entries :: u64
  tb_closed :: bool
  tb_filter_block :: "(filter_policy \<times> FilterBlockBuilder) option"
  tb_pending_index_entry :: bool
  tb_pending_handle :: block_handle

definition kIndexRestartInterval :: nat where "kIndexRestartInterval = 1"

definition TableBuilder :: "options \<Rightarrow> 'f \<Rightarrow> 'f table_builder" where
  "TableBuilder opts f =
     \<lparr>tb_options = opts, tb_file = f, tb_offset = 0, tb_status = OK, tb_data_block = BlockBuilder,
      tb_index_block = BlockBuilder, tb_last_key = [], tb_num_entries = 0, tb_closed = False,
      tb_filter_block = map_option (\<lambda>P. (P, StartBlock P 0 new_FilterBlockBuilder)) (opt_filter_policy opts),
      tb_pending_index_entry = False, tb_pending_handle = BlockHandle\<rparr>"

definition TableBuilder_ChangeOptions :: "options \<Rightarrow> 'f table_builder \<Rightarrow> status \<times> 'f table_builder" where
  "TableBuilder_ChangeOptions opts r =
     (if opt_comparator_ptr opts \<noteq> opt_comparator_ptr (tb_options r)
      then (InvalidArgument (str ''changing comparator while building table'') [], r)
      else (OK, r\<lparr>tb_options := opts\<rparr>))"

definition tb_ok :: "'f table_builder \<Rightarrow> bool" where "tb_ok r \<longleftrightarrow> ok (tb_status r)"

definition WriteRawBlock ::
    "'f writable_file \<Rightarrow> slice \<Rightarrow> u8 \<Rightarrow> 'f table_builder \<Rightarrow> block_handle \<times> 'f table_builder" where
  "WriteRawBlock W contents type r =
     (let handle = \<lparr>bh_offset = tb_offset r, bh_size = of_nat (length contents)\<rparr>;
          (s, f) = wf_append W (tb_file r) contents;
          r = r\<lparr>tb_status := s, tb_file := f\<rparr>
      in if ok s then
           let trailer = [type] @ EncodeFixed32 kLittleEndian (Mask (Extend 0 (Value 0 contents) [type]));
               (s, f) = wf_append W (tb_file r) trailer;
               r = r\<lparr>tb_status := s, tb_file := f\<rparr>
           in (handle, if ok s then r\<lparr>tb_offset := tb_offset r + of_nat (length contents + kBlockTrailerSize)\<rparr> else r)
         else (handle, r))"

text \<open>What is stored of a finished block, and with which type.\<close>

definition compress_block :: "u8 \<Rightarrow> slice \<Rightarrow> slice \<times> u8" where
  "compress_block type raw =
     (if type = kNoCompression then (raw, type)
      else if type = kSnappyCompression then
        (case Snappy_Compress raw of
           None \<Rightarrow> (raw, kNoCompression)
         | Some compressed \<Rightarrow>
             if length compressed < length raw - length raw div 8 then (compressed, type) else (raw, kNoCompression))
      else ([], type))"

text \<open>The block after the call, its handle, and the builder.\<close>

definition WriteBlock ::
    "'f writable_file \<Rightarrow> block_builder \<Rightarrow> 'f table_builder \<Rightarrow> block_builder \<times> block_handle \<times> 'f table_builder" where
  "WriteBlock W block r =
     (let (raw, block) = Block_Finish block;
          (block_contents, type) = compress_block (opt_compression (tb_options r)) raw;
          (handle, r) = WriteRawBlock W block_contents type r
      in (Block_Reset block, handle, r))"

definition TableBuilder_Flush :: "'f writable_file \<Rightarrow> 'f table_builder \<Rightarrow> 'f table_builder" where
  "TableBuilder_Flush W r =
     (if \<not> tb_ok r \<or> Block_empty (tb_data_block r) then r
      else
        let (block, handle, r) = WriteBlock W (tb_data_block r) r;
            r = r\<lparr>tb_data_block := block, tb_pending_handle := handle\<rparr>;
            r = (if tb_ok r then
                   let (s, f) = wf_flush W (tb_file r)
                   in r\<lparr>tb_pending_index_entry := True, tb_status := s, tb_file := f\<rparr>
                 else r)
        in case tb_filter_block r of
             None \<Rightarrow> r
           | Some (P, b) \<Rightarrow> r\<lparr>tb_filter_block := Some (P, StartBlock P (tb_offset r) b)\<rparr>)"

text \<open>The entry of the index for the block that was written last, under the given key.\<close>

definition add_index_entry :: "slice \<Rightarrow> 'f table_builder \<Rightarrow> 'f table_builder" where
  "add_index_entry key r =
     r\<lparr>tb_last_key := key,
       tb_index_block := Block_Add kIndexRestartInterval key (Handle_EncodeTo (tb_pending_handle r) []) (tb_index_block r),
       tb_pending_index_entry := False\<rparr>"

definition TableBuilder_Add :: "'f writable_file \<Rightarrow> slice \<Rightarrow> slice \<Rightarrow> 'f table_builder \<Rightarrow> 'f table_builder" where
  "TableBuilder_Add W key val r =
     (if \<not> tb_ok r then r
      else
        let r = (if tb_pending_index_entry r
                 then add_index_entry (FindShortestSeparator (opt_comparator (tb_options r)) (tb_last_key r) key) r
                 else r);
            r = (case tb_filter_block r of
                   None \<Rightarrow> r
                 | Some (P, b) \<Rightarrow> r\<lparr>tb_filter_block := Some (P, AddKey key b)\<rparr>);
            r = r\<lparr>tb_last_key := key, tb_num_entries := tb_num_entries r + 1,
                  tb_data_block := Block_Add (opt_block_restart_interval (tb_options r)) key val (tb_data_block r)\<rparr>
        in if opt_block_size (tb_options r) \<le> CurrentSizeEstimate (tb_data_block r) then TableBuilder_Flush W r else r)"

definition filter_key :: "filter_policy \<Rightarrow> slice" where
  "filter_key P = str ''filter.'' @ policy_name P"

text \<open>
  The three blocks at the end and the footer. The name of the filter comes from the options, which
  must still have a policy when the builder has a filter block.
\<close>

definition write_filter_block :: "'f writable_file \<Rightarrow> 'f table_builder \<Rightarrow> block_handle \<times> 'f table_builder" where
  "write_filter_block W r =
     (case tb_filter_block r of
        Some (P, b) \<Rightarrow>
          if tb_ok r then
            let (contents, b) = Finish_filter P b
            in WriteRawBlock W contents kNoCompression (r\<lparr>tb_filter_block := Some (P, b)\<rparr>)
          else (BlockHandle, r)
      | None \<Rightarrow> (BlockHandle, r))"

definition write_metaindex_block ::
    "'f writable_file \<Rightarrow> block_handle \<Rightarrow> 'f table_builder \<Rightarrow> (block_handle \<times> 'f table_builder) exec" where
  "write_metaindex_block W filter_handle r =
     (if \<not> tb_ok r then Done (BlockHandle, r)
      else
        exec_bind
          (case tb_filter_block r of
             None \<Rightarrow> Done BlockBuilder
           | Some _ \<Rightarrow>
               (case opt_filter_policy (tb_options r) of
                  None \<Rightarrow> Undefined
                | Some P \<Rightarrow>
                    Done (Block_Add (opt_block_restart_interval (tb_options r)) (filter_key P)
                      (Handle_EncodeTo filter_handle []) BlockBuilder)))
          (\<lambda>block. case WriteBlock W block r of (_, handle, r) \<Rightarrow> Done (handle, r)))"

definition write_index_block :: "'f writable_file \<Rightarrow> 'f table_builder \<Rightarrow> block_handle \<times> 'f table_builder" where
  "write_index_block W r =
     (if \<not> tb_ok r then (BlockHandle, r)
      else
        let r = (if tb_pending_index_entry r
                 then add_index_entry (FindShortSuccessor (opt_comparator (tb_options r)) (tb_last_key r)) r
                 else r);
            (block, handle, r) = WriteBlock W (tb_index_block r) r
        in (handle, r\<lparr>tb_index_block := block\<rparr>))"

definition write_footer :: "'f writable_file \<Rightarrow> footer \<Rightarrow> 'f table_builder \<Rightarrow> 'f table_builder" where
  "write_footer W footer r =
     (if \<not> tb_ok r then r
      else
        let bytes = Footer_EncodeTo footer [];
            (s, f) = wf_append W (tb_file r) bytes;
            r = r\<lparr>tb_status := s, tb_file := f\<rparr>
        in if ok s then r\<lparr>tb_offset := tb_offset r + of_nat (length bytes)\<rparr> else r)"

definition TableBuilder_Finish :: "'f writable_file \<Rightarrow> 'f table_builder \<Rightarrow> (status \<times> 'f table_builder) exec" where
  "TableBuilder_Finish W r =
     (let r = (TableBuilder_Flush W r)\<lparr>tb_closed := True\<rparr>;
          (filter_handle, r) = write_filter_block W r
      in exec_bind (write_metaindex_block W filter_handle r) (\<lambda>(metaindex, r).
           let (index, r) = write_index_block W r;
               r = write_footer W \<lparr>metaindex_handle = metaindex, index_handle = index\<rparr> r
           in Done (tb_status r, r)))"

definition TableBuilder_Abandon :: "'f table_builder \<Rightarrow> 'f table_builder" where
  "TableBuilder_Abandon r = r\<lparr>tb_closed := True\<rparr>"

definition TableBuilder_NumEntries :: "'f table_builder \<Rightarrow> u64" where "TableBuilder_NumEntries r = tb_num_entries r"
definition TableBuilder_FileSize :: "'f table_builder \<Rightarrow> u64" where "TableBuilder_FileSize r = tb_offset r"

end
