(* ===== verification/Ldb_Table_Build_Proofs.thy ===== *)
theory Ldb_Table_Build_Proofs
  imports Ldb_Table_Builder
begin

text \<open>
  What \<open>TableBuilder\<close> has written after any calls of \<open>Add\<close> and \<open>Flush\<close>, and the file after \<open>Finish\<close>,
  for any writable file that appends what it is given.
\<close>

subsection \<open>Writing blocks\<close>

lemma Block_Reset_new [simp]: "Block_Reset b = BlockBuilder"
  by (cases b) (simp add: Block_Reset_def BlockBuilder_def)

lemma add_pairs_snoc: "add_pairs n (kvs @ [(k, v)]) b = Block_Add n k v (add_pairs n kvs b)"
  by (simp add: add_pairs_def)

lemma add_pairs_empty: "0 < n \<Longrightarrow> Block_empty (add_pairs n kvs BlockBuilder) \<longleftrightarrow> kvs = []"
proof -
  assume "0 < n"
  then obtain es R where b: "built (add_pairs n kvs BlockBuilder) es R" "pairs es = kvs"
    using built_add_pairs [OF built_new] by (metis append_Nil)
  have "entries_bytes es = [] \<longleftrightarrow> es = []"
    using entries_le_bytes [of es] by auto
  then show ?thesis using b by (auto simp: Block_empty_def built_def pairs_def)
qed

lemma build_filters_snoc:
  "build_filters P (bs @ [(offset, [])]) b = StartBlock P offset (build_filters P bs b)"
  "build_filters P (bs @ [(offset, keys @ [k])]) b = AddKey k (build_filters P (bs @ [(offset, keys)]) b)"
  by (simp_all add: build_filters_def)

definition block_image :: "slice \<Rightarrow> u8 list" where "block_image d = d @ block_trailer d"

lemma length_block_image [simp]: "length (block_image d) = length d + kBlockTrailerSize"
  by (simp add: block_image_def)

text \<open>The builder after a block \<open>d\<close> has been written: its offset and its file.\<close>

definition wrote :: "('f \<Rightarrow> bool) \<Rightarrow> ('f \<Rightarrow> u8 list) \<Rightarrow> slice \<Rightarrow> 'f table_builder \<Rightarrow> 'f table_builder \<Rightarrow> bool" where
  "wrote good contents d r r1 \<longleftrightarrow> (\<exists>f. good f \<and> contents f = contents (tb_file r) @ block_image d \<and>
     r1 = r\<lparr>tb_status := OK, tb_file := f, tb_offset := tb_offset r + of_nat (length d + kBlockTrailerSize)\<rparr>)"

definition synced :: "('f \<Rightarrow> bool) \<Rightarrow> ('f \<Rightarrow> u8 list) \<Rightarrow> 'f table_builder \<Rightarrow> bool" where
  "synced good contents r \<longleftrightarrow> tb_status r = OK \<and> good (tb_file r) \<and> tb_offset r = of_nat (length (contents (tb_file r)))"

lemma wrote_synced: "wrote good contents d r r1 \<Longrightarrow> synced good contents r \<Longrightarrow> synced good contents r1"
  by (auto simp: wrote_def synced_def)

definition handle_at :: "nat \<Rightarrow> slice \<Rightarrow> block_handle" where
  "handle_at p d = \<lparr>bh_offset = of_nat p, bh_size = of_nat (length d)\<rparr>"

lemma stored_image:
  assumes "length (pre @ block_image d @ post) < 2 ^ 63"
  shows "stored (pre @ block_image d @ post) (handle_at (length pre) d) d"
proof -
  have "length pre < 2 ^ 64" "length d < 2 ^ 64" using assms by simp_all
  then show ?thesis
    using assms by (auto simp: stored_def handle_at_def block_image_def unat_of_nat)
qed

lemma compress_raw: "t = kNoCompression \<or> t = kSnappyCompression \<Longrightarrow> compress_block t raw = (raw, kNoCompression)"
  by (auto simp: compress_block_def Snappy_Compress_def)

context appending_file
begin

lemma WriteRawBlock_wrote:
  assumes "synced good contents r"
  shows "\<exists>r1. WriteRawBlock W d kNoCompression r = (handle_at (length (contents (tb_file r))) d, r1) \<and>
    wrote good contents d r r1"
proof -
  have g: "good (tb_file r)" and o: "tb_offset r = of_nat (length (contents (tb_file r)))"
    using assms by (simp_all add: synced_def)
  obtain f where f: "wf_append W (tb_file r) d = (OK, f)" "good f" "contents f = contents (tb_file r) @ d"
    using append_law [OF g] by blast
  obtain f1 where f1: "wf_append W f (block_trailer d) = (OK, f1)" "good f1" "contents f1 = contents f @ block_trailer d"
    using append_law [OF f(2)] by blast
  show ?thesis
    using f f1 o by (auto simp: WriteRawBlock_def Let_def wrote_def handle_at_def block_image_def block_trailer_def)
qed

lemma WriteBlock_wrote:
  assumes "synced good contents r"
    and "opt_compression (tb_options r) = kNoCompression \<or> opt_compression (tb_options r) = kSnappyCompression"
  shows "\<exists>r1. WriteBlock W b r =
      (BlockBuilder, handle_at (length (contents (tb_file r))) (fst (Block_Finish b)), r1) \<and>
    wrote good contents (fst (Block_Finish b)) r r1"
  using WriteRawBlock_wrote [OF assms(1), of "fst (Block_Finish b)"] compress_raw [OF assms(2)]
  by (auto simp: WriteBlock_def Let_def split: prod.split)

end

subsection \<open>The invariant\<close>

text \<open>
  \<open>written\<close> are the pairs of the blocks written so far, \<open>seps\<close> the separators in the index, and \<open>cur\<close> the
  pairs of the block that is being filled.
\<close>

definition images :: "nat \<Rightarrow> pairs list \<Rightarrow> u8 list" where
  "images n ps = concat (map (\<lambda>p. block_image (block_of n p)) ps)"

definition handles :: "nat \<Rightarrow> pairs list \<Rightarrow> block_handle list" where
  "handles n ps = map (\<lambda>j. handle_at (length (images n (take j ps))) (block_of n (ps ! j))) [0..<length ps]"

definition index_pairs :: "nat \<Rightarrow> slice list \<Rightarrow> pairs list \<Rightarrow> pairs" where
  "index_pairs n seps ps = zip seps (map handle_bytes (handles n ps))"

definition filter_input :: "nat \<Rightarrow> pairs list \<Rightarrow> (u64 \<times> slice list) list" where
  "filter_input n ps = map (\<lambda>j. (of_nat (length (images n (take j ps))), map fst (ps ! j))) [0..<length ps]"

lemma images_snoc [simp]: "images n (ps @ [p]) = images n ps @ block_image (block_of n p)"
  by (simp add: images_def)

lemma images_Nil [simp]: "images n [] = []"
  by (simp add: images_def)

lemma handles_snoc: "handles n (ps @ [p]) = handles n ps @ [handle_at (length (images n ps)) (block_of n p)]"
  by (auto simp: handles_def nth_append)

lemma length_handles [simp]: "length (handles n ps) = length ps"
  by (simp add: handles_def)

lemma handles_nth: "j < length ps \<Longrightarrow> handles n ps ! j = handle_at (length (images n (take j ps))) (block_of n (ps ! j))"
  by (simp add: handles_def)

lemma filter_input_snoc:
  "filter_input n (ps @ [p]) = filter_input n ps @ [(of_nat (length (images n ps)), map fst p)]"
  by (auto simp: filter_input_def nth_append)

lemma filter_input_Nil [simp]: "filter_input n [] = []"
  by (simp add: filter_input_def)

text \<open>The separators lie between the last key of a block and the first key after it.\<close>

definition separators :: "comparator \<Rightarrow> slice list \<Rightarrow> pairs list \<Rightarrow> pairs \<Rightarrow> bool" where
  "separators C seps ps cur \<longleftrightarrow> length seps \<le> length ps \<and>
     (\<forall>j < length seps. concat (drop (Suc j) ps) @ cur \<noteq> [] \<and>
        seps ! j = FindShortestSeparator C (fst (last (ps ! j))) (fst (hd (concat (drop (Suc j) ps) @ cur))))"

definition building ::
    "('f \<Rightarrow> bool) \<Rightarrow> ('f \<Rightarrow> u8 list) \<Rightarrow> options \<Rightarrow> pairs list \<Rightarrow> slice list \<Rightarrow> pairs \<Rightarrow> 'f table_builder \<Rightarrow> bool" where
  "building good contents opts ps seps cur r \<longleftrightarrow>
     (let n = opt_block_restart_interval opts in
      tb_options r = opts \<and> synced good contents r \<and> contents (tb_file r) = images n ps \<and>
      tb_data_block r = add_pairs n cur BlockBuilder \<and>
      tb_index_block r = add_pairs kIndexRestartInterval (index_pairs n seps ps) BlockBuilder \<and>
      length ps = length seps + (if tb_pending_index_entry r then 1 else 0) \<and>
      (tb_pending_index_entry r \<longrightarrow> cur = [] \<and> tb_pending_handle r = last (handles n ps)) \<and>
      (concat ps @ cur \<noteq> [] \<longrightarrow> tb_last_key r = fst (last (concat ps @ cur))) \<and>
      [] \<notin> set ps \<and> separators (opt_comparator opts) seps ps cur \<and>
      tb_filter_block r = map_option (\<lambda>P. (P,
        build_filters P (filter_input n ps @ [(of_nat (length (images n ps)), map fst cur)]) new_FilterBlockBuilder))
        (opt_filter_policy opts))"

definition good_options :: "options \<Rightarrow> bool" where
  "good_options opts \<longleftrightarrow> 0 < opt_block_restart_interval opts \<and>
     (opt_compression opts = kNoCompression \<or> opt_compression opts = kSnappyCompression)"

lemma separators_Add:
  assumes "separators C seps ps cur"
  shows "separators C seps ps (cur @ [kv])"
  using assms by (auto simp: separators_def hd_append)

lemma separators_entry:
  assumes "separators C seps ps []" "length ps = Suc (length seps)"
  shows "separators C (seps @ [FindShortestSeparator C (fst (last (last ps))) (fst kv)]) ps [kv]"
proof -
  have l: "last ps = ps ! length seps" using assms(2) by (simp add: last_conv_nth length_0_conv [symmetric] del: length_0_conv)
  show ?thesis
    unfolding separators_def
  proof (intro conjI allI impI)
    fix j assume j: "j < length (seps @ [FindShortestSeparator C (fst (last (last ps))) (fst kv)])"
    show "(seps @ [FindShortestSeparator C (fst (last (last ps))) (fst kv)]) ! j =
        FindShortestSeparator C (fst (last (ps ! j))) (fst (hd (concat (drop (Suc j) ps) @ [kv])))"
      using j assms l by (cases "j < length seps") (auto simp: separators_def nth_append hd_append less_Suc_eq)
  qed (use assms in \<open>simp_all add: separators_def\<close>)
qed

lemma separators_Flush: "separators C seps ps cur \<Longrightarrow> length seps = length ps \<Longrightarrow> separators C seps (ps @ [cur]) []"
  by (auto simp: separators_def nth_append)

lemma index_pairs_snoc: "length seps \<le> length ps \<Longrightarrow> index_pairs n seps (ps @ [p]) = index_pairs n seps ps"
  by (simp add: index_pairs_def handles_snoc zip_append2)

lemma index_pairs_entry:
  assumes "length ps = Suc (length seps)"
  shows "index_pairs n (seps @ [s]) ps = index_pairs n seps ps @ [(s, handle_bytes (last (handles n ps)))]"
proof -
  let ?hs = "handles n ps"
  have "?hs \<noteq> []" using assms by (simp add: length_0_conv [symmetric] del: length_0_conv)
  then have h: "?hs = butlast ?hs @ [last ?hs]" by simp
  have l: "length (butlast ?hs) = length seps" using assms by simp
  show ?thesis unfolding index_pairs_def by (subst (1 2) h) (simp add: assms l zip_append2)
qed

context appending_file
begin

lemma building_new:
  assumes "good f" "contents f = []"
  shows "building good contents opts [] [] [] (TableBuilder opts f)"
  using assms
  by (simp add: building_def Let_def TableBuilder_def synced_def add_pairs_def index_pairs_def separators_def
      build_filters_def)

lemma building_Flush_empty:
  assumes "building good contents opts ps seps [] r" "good_options opts"
  shows "TableBuilder_Flush W r = r"
  using assms add_pairs_empty [of "opt_block_restart_interval opts" "[]"]
  by (simp add: building_def Let_def TableBuilder_Flush_def good_options_def)

lemma building_Flush:
  assumes b: "building good contents opts ps seps cur r" and "good_options opts" "cur \<noteq> []"
  shows "building good contents opts (ps @ [cur]) seps [] (TableBuilder_Flush W r)"
proof -
  let ?n = "opt_block_restart_interval opts"
  have n: "0 < ?n" and t: "opt_compression opts = kNoCompression \<or> opt_compression opts = kSnappyCompression"
    using assms(2) by (simp_all add: good_options_def)
  have r: "tb_options r = opts" "synced good contents r" "contents (tb_file r) = images ?n ps"
    "tb_data_block r = add_pairs ?n cur BlockBuilder" "\<not> tb_pending_index_entry r" "length seps = length ps"
    "tb_ok r"
    using b assms(3) by (auto simp: building_def Let_def synced_def tb_ok_def)
  have "\<not> Block_empty (tb_data_block r)" using add_pairs_empty [OF n, of cur] assms(3) r(4) by simp
  obtain r1 where w: "WriteBlock W (tb_data_block r) r =
      (BlockBuilder, handle_at (length (images ?n ps)) (block_of ?n cur), r1)" "wrote good contents (block_of ?n cur) r r1"
    using WriteBlock_wrote [OF r(2), of "tb_data_block r"] t by (auto simp: r block_of_def)
  obtain f where f: "good f" "contents f = images ?n ps @ block_image (block_of ?n cur)"
    "r1 = r\<lparr>tb_status := OK, tb_file := f, tb_offset := tb_offset r + of_nat (length (block_of ?n cur) + kBlockTrailerSize)\<rparr>"
    using w(2) r(3) by (auto simp: wrote_def)
  obtain f1 where f1: "wf_flush W f = (OK, f1)" "good f1" "contents f1 = contents f" using flush_law [OF f(1)] by blast
  have o: "tb_offset r + of_nat (length (block_of ?n cur) + kBlockTrailerSize) = of_nat (length (images ?n (ps @ [cur])))"
    using r(2,3) by (simp add: synced_def)
  show ?thesis
    using b \<open>\<not> Block_empty (tb_data_block r)\<close> r f f1 w(1) o assms(3)
      separators_Flush [of "opt_comparator opts" seps ps cur] index_pairs_snoc [of seps ps ?n cur]
    unfolding building_def Let_def TableBuilder_Flush_def
    by (cases "opt_filter_policy opts")
      (simp_all add: tb_ok_def synced_def handles_snoc add_pairs_def filter_input_snoc build_filters_def)
qed

lemma building_Add:
  assumes b: "building good contents opts ps seps cur r" and "good_options opts"
  shows "\<exists>ps1 seps1 cur1. building good contents opts ps1 seps1 cur1 (TableBuilder_Add W key val r) \<and>
    concat ps1 @ cur1 = concat ps @ cur @ [(key, val)]"
proof -
  let ?n = "opt_block_restart_interval opts"
  let ?seps = "if tb_pending_index_entry r
    then seps @ [FindShortestSeparator (opt_comparator opts) (tb_last_key r) key] else seps"
  let ?r1 = "if tb_pending_index_entry r
    then add_index_entry (FindShortestSeparator (opt_comparator (tb_options r)) (tb_last_key r) key) r else r"
  let ?r2 = "case tb_filter_block ?r1 of None \<Rightarrow> ?r1 | Some (P, b) \<Rightarrow> ?r1\<lparr>tb_filter_block := Some (P, AddKey key b)\<rparr>"
  let ?r3 = "?r2\<lparr>tb_last_key := key, tb_num_entries := tb_num_entries ?r2 + 1,
    tb_data_block := Block_Add (opt_block_restart_interval (tb_options ?r2)) key val (tb_data_block ?r2)\<rparr>"
  have okr: "tb_ok r" using b by (simp add: building_def Let_def synced_def tb_ok_def)
  have ne: "tb_last_key r = fst (last (last ps))" if "tb_pending_index_entry r"
  proof -
    have "ps \<noteq> []" "[] \<notin> set ps" using b that by (auto simp: building_def Let_def)
    then obtain qs p where "ps = qs @ [p]" "p \<noteq> []" by (metis append_butlast_last_id in_set_conv_decomp)
    then show ?thesis using b that by (simp add: building_def Let_def)
  qed
  have sp: "separators (opt_comparator opts) ?seps ps (cur @ [(key, val)])"
    using b separators_Add separators_entry [of "opt_comparator opts" seps ps "(key, val)"] ne
    by (auto simp: building_def Let_def)
  note f = b [unfolded building_def Let_def]
  have fb: "tb_filter_block r = map_option (\<lambda>P. (P,
      build_filters P (filter_input ?n ps @ [(of_nat (length (images ?n ps)), map fst cur)]) new_FilterBlockBuilder))
      (opt_filter_policy opts)"
    using f by blast
  have b3: "building good contents opts ps ?seps (cur @ [(key, val)]) ?r3"
  proof (cases "tb_pending_index_entry r")
    case True
    have g: "tb_options r = opts" "synced good contents r" "contents (tb_file r) = images ?n ps" "cur = []" "[] \<notin> set ps"
      "tb_data_block r = add_pairs ?n [] BlockBuilder" "length ps = Suc (length seps)"
      "tb_index_block r = add_pairs kIndexRestartInterval (index_pairs ?n seps ps) BlockBuilder"
      "tb_pending_handle r = last (handles ?n ps)"
      using f True by simp_all
    show ?thesis
      using sp g fb True by (cases "opt_filter_policy opts")
        (simp_all add: building_def add_index_entry_def synced_def add_pairs_snoc [where kvs = "[]", simplified]
          index_pairs_entry add_pairs_snoc build_filters_def)
  next
    case False
    have g: "tb_options r = opts" "synced good contents r" "contents (tb_file r) = images ?n ps" "[] \<notin> set ps"
      "tb_data_block r = add_pairs ?n cur BlockBuilder" "length ps = length seps"
      "tb_index_block r = add_pairs kIndexRestartInterval (index_pairs ?n seps ps) BlockBuilder"
      using f False by simp_all
    show ?thesis
      using sp g fb False by (cases "opt_filter_policy opts")
        (simp_all add: building_def synced_def add_pairs_snoc build_filters_def)
  qed
  have a: "TableBuilder_Add W key val r =
      (if opt_block_size (tb_options ?r3) \<le> CurrentSizeEstimate (tb_data_block ?r3) then TableBuilder_Flush W ?r3 else ?r3)"
    using okr by (simp only: TableBuilder_Add_def Let_def not_True_eq_False if_False)
  show ?thesis
  proof (cases "opt_block_size (tb_options ?r3) \<le> CurrentSizeEstimate (tb_data_block ?r3)")
    case True
    have "building good contents opts (ps @ [cur @ [(key, val)]]) ?seps [] (TableBuilder_Add W key val r)"
      unfolding a if_P [OF True] by (rule building_Flush [OF b3 assms(2)]) simp
    then show ?thesis by (intro exI [of _ "ps @ [cur @ [(key, val)]]"] exI [of _ ?seps] exI [of _ "[]"]) simp
  next
    case False
    have "building good contents opts ps ?seps (cur @ [(key, val)]) (TableBuilder_Add W key val r)"
      unfolding a if_not_P [OF False] by (rule b3)
    then show ?thesis by (intro exI [of _ ps] exI [of _ ?seps] exI [of _ "cur @ [(key, val)]"]) simp
  qed
qed

end

subsection \<open>The finished file\<close>

definition add_table_pairs :: "'f writable_file \<Rightarrow> pairs \<Rightarrow> 'f table_builder \<Rightarrow> 'f table_builder" where
  "add_table_pairs W kvs = fold (\<lambda>(k, v). TableBuilder_Add W k v) kvs"

definition filter_block_of :: "filter_policy \<Rightarrow> nat \<Rightarrow> pairs list \<Rightarrow> slice" where
  "filter_block_of P n ps =
     fst (Finish_filter P (build_filters P (filter_input n ps @ [(of_nat (length (images n ps)), [])]) new_FilterBlockBuilder))"

text \<open>The blocks up to the filter block, and the pairs of the metaindex block.\<close>

definition data_and_filter :: "options \<Rightarrow> pairs list \<Rightarrow> u8 list \<times> pairs" where
  "data_and_filter opts ps =
     (let n = opt_block_restart_interval opts; X = images n ps in
      case opt_filter_policy opts of
        None \<Rightarrow> (X, [])
      | Some P \<Rightarrow> (X @ block_image (filter_block_of P n ps),
                   [(filter_key P, handle_bytes (handle_at (length X) (filter_block_of P n ps)))]))"

definition table_file :: "options \<Rightarrow> pairs list \<Rightarrow> slice list \<Rightarrow> u8 list" where
  "table_file opts ps seps =
     (let n = opt_block_restart_interval opts;
          (X1, meta) = data_and_filter opts ps;
          mb = block_of n meta;
          X2 = X1 @ block_image mb;
          ib = block_of kIndexRestartInterval (index_pairs n seps ps)
      in X2 @ block_image ib @
         Footer_EncodeTo \<lparr>metaindex_handle = handle_at (length X1) mb, index_handle = handle_at (length X2) ib\<rparr> [])"

definition all_separators :: "comparator \<Rightarrow> slice list \<Rightarrow> pairs list \<Rightarrow> bool" where
  "all_separators C seps ps \<longleftrightarrow> length seps = length ps \<and>
     (\<forall>j < length ps. seps ! j =
        (if Suc j < length ps then FindShortestSeparator C (fst (last (ps ! j))) (fst (hd (ps ! Suc j)))
         else FindShortSuccessor C (fst (last (ps ! j)))))"

lemma hd_concat_drop: "Suc j < length ps \<Longrightarrow> [] \<notin> set ps \<Longrightarrow> hd (concat (drop (Suc j) ps)) = hd (ps ! Suc j)"
  by (metis Cons_nth_drop_Suc concat.simps(2) hd_append2 nth_mem)

lemma separators_last:
  assumes "separators C seps ps []" "length ps = Suc (length seps)" "[] \<notin> set ps"
  shows "all_separators C (seps @ [FindShortSuccessor C (fst (last (concat ps)))]) ps"
proof -
  have ne: "ps \<noteq> []" using assms(2) by auto
  then obtain qs q where q: "ps = qs @ [q]" by (metis rev_exhaust)
  have l: "last (concat ps) = last (ps ! length seps)" using q assms(2,3) by (auto simp: nth_append last_append)
  show ?thesis
    unfolding all_separators_def
  proof (intro conjI allI impI)
    fix j assume j: "j < length ps"
    show "(seps @ [FindShortSuccessor C (fst (last (concat ps)))]) ! j =
        (if Suc j < length ps then FindShortestSeparator C (fst (last (ps ! j))) (fst (hd (ps ! Suc j)))
         else FindShortSuccessor C (fst (last (ps ! j))))"
    proof (cases "j < length seps")
      case True
      then show ?thesis using assms(1,2) hd_concat_drop [OF _ assms(3), of j] by (simp add: separators_def nth_append)
    next
      case False
      then have "j = length seps" using j assms(2) by simp
      then show ?thesis using l assms(2) by simp
    qed
  qed (use assms(2) in simp)
qed

lemma separators_none:
  assumes "separators C seps ps []" "length ps = length seps"
  shows "ps = []"
proof (rule ccontr)
  assume "ps \<noteq> []"
  then have "length ps - 1 < length seps" using assms(2) by (cases ps) simp_all
  with assms(1) have "concat (drop (Suc (length ps - 1)) ps) \<noteq> []" unfolding separators_def by auto
  then show False using \<open>ps \<noteq> []\<close> by simp
qed

context appending_file
begin

lemma building_add_pairs:
  "building good contents opts ps seps cur r \<Longrightarrow> good_options opts \<Longrightarrow>
     \<exists>ps1 seps1 cur1. building good contents opts ps1 seps1 cur1 (add_table_pairs W kvs r) \<and>
       concat ps1 @ cur1 = concat ps @ cur @ kvs"
proof (induction kvs arbitrary: ps seps cur r)
  case Nil
  then show ?case by (intro exI [of _ ps] exI [of _ seps] exI [of _ cur]) (simp add: add_table_pairs_def)
next
  case (Cons kv kvs)
  obtain k v where kv: "kv = (k, v)" by (cases kv)
  obtain ps1 seps1 cur1 where 1: "building good contents opts ps1 seps1 cur1 (TableBuilder_Add W k v r)"
    "concat ps1 @ cur1 = concat ps @ cur @ [(k, v)]"
    using building_Add [OF Cons.prems] by blast
  obtain ps2 seps2 cur2 where 2: "building good contents opts ps2 seps2 cur2 (add_table_pairs W kvs (TableBuilder_Add W k v r))"
    "concat ps2 @ cur2 = concat ps1 @ cur1 @ kvs"
    using Cons.IH [OF 1(1) Cons.prems(2)] by blast
  have "concat ps2 @ cur2 = concat ps @ cur @ kv # kvs" using 1(2) 2(2) kv by (metis append.assoc append_Cons append_Nil)
  then show ?case using 2(1) kv
    by (intro exI [of _ ps2] exI [of _ seps2] exI [of _ cur2]) (simp add: add_table_pairs_def)
qed

lemma write_filter_block_image:
  assumes "building good contents opts ps seps [] r"
  shows "\<exists>h r1. write_filter_block W r = (h, r1) \<and> synced good contents r1 \<and>
    contents (tb_file r1) = fst (data_and_filter opts ps) \<and> tb_options r1 = opts \<and>
    tb_index_block r1 = tb_index_block r \<and> tb_pending_index_entry r1 = tb_pending_index_entry r \<and>
    tb_pending_handle r1 = tb_pending_handle r \<and> tb_last_key r1 = tb_last_key r \<and>
    (case opt_filter_policy opts of
       None \<Rightarrow> tb_filter_block r1 = None \<and> snd (data_and_filter opts ps) = []
     | Some P \<Rightarrow> tb_filter_block r1 \<noteq> None \<and> snd (data_and_filter opts ps) = [(filter_key P, handle_bytes h)])"
proof -
  let ?n = "opt_block_restart_interval opts"
  have b: "tb_options r = opts" "synced good contents r" "contents (tb_file r) = images ?n ps" "tb_ok r"
    "tb_filter_block r = map_option (\<lambda>P. (P,
      build_filters P (filter_input ?n ps @ [(of_nat (length (images ?n ps)), [])]) new_FilterBlockBuilder)) (opt_filter_policy opts)"
    using assms by (simp_all add: building_def Let_def synced_def tb_ok_def)
  show ?thesis
  proof (cases "opt_filter_policy opts")
    case None
    then show ?thesis using b by (simp add: write_filter_block_def data_and_filter_def Let_def)
  next
    case (Some P)
    let ?b = "build_filters P (filter_input ?n ps @ [(of_nat (length (images ?n ps)), [])]) new_FilterBlockBuilder"
    let ?r = "r\<lparr>tb_filter_block := Some (P, snd (Finish_filter P ?b))\<rparr>"
    have sy: "synced good contents ?r" using b(2) by (simp add: synced_def)
    from WriteRawBlock_wrote [OF sy, of "filter_block_of P ?n ps"] obtain r1 where
      r1: "WriteRawBlock W (filter_block_of P ?n ps) kNoCompression ?r = (handle_at (length (images ?n ps)) (filter_block_of P ?n ps), r1)"
      "wrote good contents (filter_block_of P ?n ps) ?r r1" "synced good contents r1"
      using b(3) wrote_synced [OF _ sy] by auto
    have "write_filter_block W r = (handle_at (length (images ?n ps)) (filter_block_of P ?n ps), r1)"
      using r1(1) b(4,5) Some by (simp add: write_filter_block_def filter_block_of_def case_prod_unfold)
    then show ?thesis using r1(2,3) b Some by (auto simp: wrote_def data_and_filter_def Let_def)
  qed
qed

lemma Finish_image:
  assumes "building good contents opts ps seps [] r" "good_options opts"
  shows "\<exists>seps1 r1. TableBuilder_Finish W r = Done (OK, r1) \<and> good (tb_file r1) \<and>
    contents (tb_file r1) = table_file opts ps seps1 \<and> all_separators (opt_comparator opts) seps1 ps"
proof -
  let ?n = "opt_block_restart_interval opts" and ?C = "opt_comparator opts"
  let ?meta = "snd (data_and_filter opts ps)" and ?X1 = "fst (data_and_filter opts ps)"
  let ?r0 = "r\<lparr>tb_closed := True\<rparr>"
  define seps1 where "seps1 = (if tb_pending_index_entry r then seps @ [FindShortSuccessor ?C (tb_last_key r)] else seps)"
  have t: "opt_compression opts = kNoCompression \<or> opt_compression opts = kSnappyCompression"
    using assms(2) by (simp add: good_options_def)
  have b0: "building good contents opts ps seps [] ?r0" using assms(1) by (simp add: building_def Let_def synced_def)
  obtain h r1 where r1: "write_filter_block W ?r0 = (h, r1)" "synced good contents r1" "contents (tb_file r1) = ?X1"
    "tb_options r1 = opts" "tb_index_block r1 = tb_index_block r" "tb_pending_index_entry r1 = tb_pending_index_entry r"
    "tb_pending_handle r1 = tb_pending_handle r" "tb_last_key r1 = tb_last_key r"
    and p: "case opt_filter_policy opts of None \<Rightarrow> tb_filter_block r1 = None \<and> ?meta = []
      | Some P \<Rightarrow> tb_filter_block r1 \<noteq> None \<and> ?meta = [(filter_key P, handle_bytes h)]"
    using write_filter_block_image [OF b0] by auto
  obtain r2 where r2: "WriteBlock W (add_pairs ?n ?meta BlockBuilder) r1 =
      (BlockBuilder, handle_at (length ?X1) (block_of ?n ?meta), r2)" "wrote good contents (block_of ?n ?meta) r1 r2"
    using WriteBlock_wrote [OF r1(2)] t r1(3,4) by (metis block_of_def)
  have s2: "synced good contents r2" using wrote_synced r2(2) r1(2) by blast
  have f2: "contents (tb_file r2) = ?X1 @ block_image (block_of ?n ?meta)" "tb_options r2 = opts" "tb_index_block r2 = tb_index_block r"
    "tb_pending_index_entry r2 = tb_pending_index_entry r" "tb_pending_handle r2 = tb_pending_handle r"
    "tb_last_key r2 = tb_last_key r"
    using r2(2) r1 by (auto simp: wrote_def)
  have "tb_ok r1" using r1(2) by (simp add: synced_def tb_ok_def)
  then have m: "write_metaindex_block W h r1 = Done (handle_at (length ?X1) (block_of ?n ?meta), r2)"
    using p r2(1) r1(4) by (auto simp: write_metaindex_block_def add_pairs_def split: option.splits)
  let ?ib = "block_of kIndexRestartInterval (index_pairs ?n seps1 ps)"
  let ?r2 = "if tb_pending_index_entry r2 then add_index_entry (FindShortSuccessor (opt_comparator (tb_options r2)) (tb_last_key r2)) r2 else r2"
  have bb: "length ps = length seps + (if tb_pending_index_entry r then 1 else 0)"
    "tb_index_block r = add_pairs kIndexRestartInterval (index_pairs ?n seps ps) BlockBuilder"
    "tb_pending_index_entry r \<longrightarrow> tb_pending_handle r = last (handles ?n ps)"
    "concat ps \<noteq> [] \<longrightarrow> tb_last_key r = fst (last (concat ps))" "[] \<notin> set ps" "separators ?C seps ps []"
    using assms(1) by (simp_all add: building_def Let_def)
  have i: "tb_index_block ?r2 = add_pairs kIndexRestartInterval (index_pairs ?n seps1 ps) BlockBuilder"
    using f2 bb(1-3) index_pairs_entry [of ps seps ?n] by (simp add: seps1_def add_index_entry_def add_pairs_snoc)
  have s2': "synced good contents ?r2" "contents (tb_file ?r2) = contents (tb_file r2)" "tb_options ?r2 = opts"
    using s2 f2(2) by (simp_all add: synced_def add_index_entry_def)
  obtain r3 where r3: "WriteBlock W (tb_index_block ?r2) ?r2 =
      (BlockBuilder, handle_at (length (?X1 @ block_image (block_of ?n ?meta))) ?ib, r3)" "wrote good contents ?ib ?r2 r3"
    using WriteBlock_wrote [OF s2'(1)] t s2'(2,3) f2(1) i by (metis block_of_def)
  have s3: "synced good contents r3" using wrote_synced r3(2) s2'(1) by blast
  have f3: "contents (tb_file r3) = ?X1 @ block_image (block_of ?n ?meta) @ block_image ?ib"
    using r3(2) s2'(2) f2(1) by (auto simp: wrote_def)
  have "tb_ok r2" using s2 by (simp add: synced_def tb_ok_def)
  then have x: "write_index_block W r2 = (handle_at (length (?X1 @ block_image (block_of ?n ?meta))) ?ib, r3\<lparr>tb_index_block := BlockBuilder\<rparr>)"
    using r3(1) by (simp add: write_index_block_def Let_def)
  let ?foot = "\<lparr>metaindex_handle = handle_at (length ?X1) (block_of ?n ?meta),
    index_handle = handle_at (length (?X1 @ block_image (block_of ?n ?meta))) ?ib\<rparr>"
  obtain f where f: "wf_append W (tb_file r3) (Footer_EncodeTo ?foot []) = (OK, f)" "good f"
    "contents f = contents (tb_file r3) @ Footer_EncodeTo ?foot []"
    using append_law s3 unfolding synced_def by blast
  have c: "contents f = table_file opts ps seps1"
    unfolding f(3) f3 by (simp add: table_file_def Let_def case_prod_unfold)
  have "\<exists>r4. write_footer W ?foot (r3\<lparr>tb_index_block := BlockBuilder\<rparr>) = r4 \<and> tb_status r4 = OK \<and> tb_file r4 = f"
    using f(1) s3 by (simp add: write_footer_def synced_def tb_ok_def Let_def)
  then obtain r4 where r4: "write_footer W ?foot (r3\<lparr>tb_index_block := BlockBuilder\<rparr>) = r4" "tb_status r4 = OK" "tb_file r4 = f" by blast
  have F: "TableBuilder_Finish W r = Done (OK, r4)"
    using building_Flush_empty [OF assms(1,2)] r1(1) m x r4 by (simp add: TableBuilder_Finish_def)
  have "all_separators ?C seps1 ps"
  proof (cases "tb_pending_index_entry r")
    case True
    have "concat ps \<noteq> []" using bb(1,5) True by (cases ps) auto
    then show ?thesis using separators_last [OF bb(6) _ bb(5)] bb(1,4) True by (simp add: seps1_def)
  next
    case False
    then have "ps = []" using separators_none [OF bb(6)] bb(1) by simp
    then show ?thesis using bb(1) False by (simp add: seps1_def all_separators_def)
  qed
  then show ?thesis using F r4 f(2) c by (intro exI [of _ seps1] exI [of _ r4]) simp
qed

text \<open>The file that is built from a list of pairs.\<close>

lemma table_built:
  assumes "good f" "contents f = []" "good_options opts"
  shows "\<exists>ps seps r. TableBuilder_Finish W (add_table_pairs W kvs (TableBuilder opts f)) = Done (OK, r) \<and>
    good (tb_file r) \<and> contents (tb_file r) = table_file opts ps seps \<and> concat ps = kvs \<and> [] \<notin> set ps \<and>
    all_separators (opt_comparator opts) seps ps"
proof -
  obtain ps seps cur where b: "building good contents opts ps seps cur (add_table_pairs W kvs (TableBuilder opts f))"
    "concat ps @ cur = kvs"
    using building_add_pairs [OF building_new [OF assms(1,2)] assms(3), of kvs] by auto
  let ?r = "add_table_pairs W kvs (TableBuilder opts f)"
  have "\<exists>ps1 r1. building good contents opts ps1 seps [] r1 \<and> concat ps1 = kvs \<and>
    TableBuilder_Finish W ?r = TableBuilder_Finish W r1"
  proof (cases "cur = []")
    case True
    then show ?thesis using b by auto
  next
    case False
    have b1: "building good contents opts (ps @ [cur]) seps [] (TableBuilder_Flush W ?r)"
      by (rule building_Flush [OF b(1) assms(3) False])
    have "TableBuilder_Finish W (TableBuilder_Flush W ?r) = TableBuilder_Finish W ?r"
      unfolding TableBuilder_Finish_def building_Flush_empty [OF b1 assms(3)] ..
    then show ?thesis using b1 b(2) by (intro exI [of _ "ps @ [cur]"] exI [of _ "TableBuilder_Flush W ?r"]) simp
  qed
  then obtain ps1 r1 where 1: "building good contents opts ps1 seps [] r1" "concat ps1 = kvs"
    "TableBuilder_Finish W ?r = TableBuilder_Finish W r1" by blast
  have "[] \<notin> set ps1" using 1(1) by (simp add: building_def Let_def)
  with Finish_image [OF 1(1) assms(3)] 1(2,3) show ?thesis by auto
qed

end

end
