(* ===== verification/Ldb_Properties.thy ===== *)
theory Ldb_Properties
  imports Ldb_Version_Edit Ldb_Memtable Ldb_Two_Level_Proofs Ldb_Table_Build_Proofs
begin

text \<open>
  The properties of the storage structures of LevelDB: filters, file names, the order of the
  internal keys, blocks, version edits, write batches, the skip list and the memtable. Each rests
  on the lemmas of the component's theory, through the interpretations of its locales.
\<close>

section \<open>Filters\<close>

text \<open>C28: a filter block built with the Bloom filter policy, read back, answers "may match" for every key
  that was added for a block, at the offset of that block: no key of a table is lost to its filter.\<close>

theorem bloom_filter_block_no_miss:
  assumes "sorted (map (filter_index \<circ> fst) blocks)" "length (all_keys blocks) < 2 ^ 31"
    and "fst (Finish_filter (BloomFilterPolicy bits) (build_filters (BloomFilterPolicy bits) blocks new_FilterBlockBuilder)) = contents"
    and "length contents < 2 ^ 32" "(boff, keys) \<in> set blocks" "key \<in> set keys"
  shows "filter_KeyMayMatch (BloomFilterPolicy bits) (new_FilterBlockReader contents) boff key = Done True"
  by (rule bloom.filter_block_match [OF assms])

theorem bloom_filter_block_no_miss_witness:
  "\<exists>contents. filter_KeyMayMatch (BloomFilterPolicy 10) (new_FilterBlockReader contents) 5 [7, 8] = Done True \<and>
     contents \<noteq> []"
proof -
  let ?blocks = "[(5, [[7, 8]])] :: (u64 \<times> slice list) list"
  let ?c = "fst (Finish_filter (BloomFilterPolicy 10) (build_filters (BloomFilterPolicy 10) ?blocks new_FilterBlockBuilder))"
  have s: "StartBlock (BloomFilterPolicy 10) 5 new_FilterBlockBuilder = new_FilterBlockBuilder"
    by (subst StartBlock_def, subst generate_to.simps) (simp add: new_FilterBlockBuilder_def kFilterBase_def kFilterBaseLg_def)
  have b: "build_filters (BloomFilterPolicy 10) ?blocks new_FilterBlockBuilder = AddKey [7, 8] new_FilterBlockBuilder"
    by (simp add: build_filters_def s)
  have l: "length ?c = 18"
    unfolding b
    by (simp add: AddKey_def new_FilterBlockBuilder_def Finish_filter_def GenerateFilter_def Let_def
        BloomFilterPolicy_def Bloom_CreateFilter_def PutFixed32_def)
  have "filter_KeyMayMatch (BloomFilterPolicy 10) (new_FilterBlockReader ?c) 5 [7, 8] = Done True"
    by (rule bloom_filter_block_no_miss [where blocks = ?blocks and keys = "[[7, 8]]"])
      (simp_all add: l filter_index_def all_keys_def)
  moreover have "?c \<noteq> []" using l by (metis length_0_conv zero_neq_numeral)
  ultimately show ?thesis by blast
qed

section \<open>Numbers and file names\<close>

text \<open>C29: \<open>ConsumeDecimalNumber\<close> on a run of digits followed by something else: the value and the rest if the value
  fits into 64 bits, and a failure if it does not; no overflow goes unnoticed.\<close>

theorem ConsumeDecimalNumber_exact:
  assumes "list_all is_digit ds" "ds \<noteq> []" "rest \<noteq> [] \<Longrightarrow> \<not> is_digit (hd rest)"
  shows "if digits_value ds 0 < 2 ^ 64
    then ConsumeDecimalNumber (ds @ rest) = (True, Some (of_nat (digits_value ds 0)), rest)
    else \<exists>r. ConsumeDecimalNumber (ds @ rest) = (False, None, r)"
  by (rule Consume_digits [OF assms])

theorem ConsumeDecimalNumber_exact_witness:
  "ConsumeDecimalNumber (str ''18446744073709551615x'') = (True, Some (-1), str ''x'') \<and>
   (\<exists>r. ConsumeDecimalNumber (str ''18446744073709551616'') = (False, None, r))"
proof -
  have d: "list_all is_digit (str ''18446744073709551615'')" "list_all is_digit (str ''18446744073709551616'')"
    by (simp_all add: is_digit_def)
  have v: "digits_value (str ''18446744073709551615'') 0 = 18446744073709551615"
    "digits_value (str ''18446744073709551616'') 0 = 18446744073709551616"
    by simp_all
  show ?thesis
    using ConsumeDecimalNumber_exact [OF d(1), of "str ''x''"] ConsumeDecimalNumber_exact [OF d(2), of "[]"]
    unfolding v by (simp add: is_digit_def)
qed

text \<open>C30: file names are parsed back to the number and type they were made from, and a name that is parsed as a
  log, table or temporary file is the decimal number followed by one of the known suffixes.\<close>

theorem file_names_parse_back:
  "ParseFileName (drop (length name + 1) (LogFileName name n)) = Some (n, kLogFile) \<and>
   ParseFileName (drop (length name + 1) (TableFileName name n)) = Some (n, kTableFile) \<and>
   ParseFileName (drop (length name + 1) (SSTTableFileName name n)) = Some (n, kTableFile) \<and>
   ParseFileName (drop (length name + 1) (TempFileName name n)) = Some (n, kTempFile) \<and>
   ParseFileName (drop (length name + 1) (DescriptorFileName name n)) = Some (n, kDescriptorFile) \<and>
   (ParseFileName fname = Some (n, t) \<longrightarrow> t \<in> {kLogFile, kTableFile, kTempFile} \<longrightarrow>
      (\<exists>ds suffix. fname = ds @ suffix \<and> ds \<noteq> [] \<and> list_all is_digit ds \<and> digits_value ds 0 = unat n \<and>
        (t = kLogFile \<and> suffix = str ''.log'' \<or> t = kTableFile \<and> suffix \<in> {str ''.sst'', str ''.ldb''} \<or>
         t = kTempFile \<and> suffix = str ''.dbtmp'')))"
  using ParseFileName_Make [of name n] ParseFileName_Descriptor [of name n] ParseFileName_number_file [of fname n t]
  unfolding LogFileName_def TableFileName_def SSTTableFileName_def TempFileName_def by blast

theorem file_names_parse_back_witness:
  "ParseFileName (str ''000012.log'') = Some (12, kLogFile) \<and>
   (\<exists>ds suffix. str ''000012.log'' = ds @ suffix \<and> suffix = str ''.log'' \<and> digits_value ds 0 = 12)"
proof -
  have e: "drop (length (str ''db'') + 1) (LogFileName (str ''db'') 12) = str ''000012.log''"
    by code_simp
  have p: "ParseFileName (str ''000012.log'') = Some (12, kLogFile)"
    using file_names_parse_back [of "str ''db''" 12] unfolding e by blast
  have "\<exists>ds suffix. str ''000012.log'' = ds @ suffix \<and> ds \<noteq> [] \<and> list_all is_digit ds \<and>
      digits_value ds 0 = unat (12 :: u64) \<and> (kLogFile = kLogFile \<and> suffix = str ''.log'' \<or>
        kLogFile = kTableFile \<and> suffix \<in> {str ''.sst'', str ''.ldb''} \<or> kLogFile = kTempFile \<and> suffix = str ''.dbtmp'')"
    using file_names_parse_back [of "[]" 12 "str ''000012.log''" kLogFile] p by blast
  then show ?thesis using p by auto
qed

section \<open>The order of the internal keys\<close>

text \<open>C31: the internal comparator orders internal keys by increasing user key, then by decreasing sequence number and
  type, so that the newest entry of a key comes first. Over the bytewise comparator, the separator that the internal comparator computes for two internal keys
  lies between them, the successor is not before the key, and both are internal keys again; an internal
  key is parsed back to its user key, sequence number and type.\<close>

theorem internal_keys_ordered:
  assumes "8 \<le> length a" "8 \<le> length b" "s \<le> kMaxSequenceNumber" "t \<le> kTypeValue" "s1 \<le> kMaxSequenceNumber"
  defines "K \<equiv> InternalKeyComparator BytewiseComparator"
  shows "(Compare K (AppendInternalKey [] \<lparr>user_key = u, sequence = s, ktype = t\<rparr>)
         (AppendInternalKey [] \<lparr>user_key = u1, sequence = s1, ktype = t1\<rparr>) < 0 \<longleftrightarrow>
       Slice_compare u u1 < 0 \<or> u = u1 \<and> (s1 < s \<or> s1 = s \<and> t1 < t)) \<and>
     (Compare K a b < 0 \<longrightarrow> 8 \<le> length (FindShortestSeparator K a b) \<and>
       Compare K a (FindShortestSeparator K a b) \<le> 0 \<and> Compare K (FindShortestSeparator K a b) b < 0) \<and>
     8 \<le> length (FindShortSuccessor K a) \<and> Compare K a (FindShortSuccessor K a) \<le> 0 \<and>
     ParseInternalKey (AppendInternalKey [] \<lparr>user_key = u, sequence = s, ktype = t\<rparr>) =
       Some \<lparr>user_key = u, sequence = s, ktype = t\<rparr>"
  using bytewise_db.internal.separator [of a b] bytewise_db.internal.successor [of a] assms(1,2)
    Parse_Append [OF assms(3,4)] bytewise_internal_order [OF assms(3,5)]
  by (auto simp: K_def internal_valid_def)

theorem internal_keys_ordered_witness:
  "let K = InternalKeyComparator BytewiseComparator;
       a = AppendInternalKey [] \<lparr>user_key = str ''the quick'', sequence = 5, ktype = kTypeValue\<rparr>;
       b = AppendInternalKey [] \<lparr>user_key = str ''the who'', sequence = 9, ktype = kTypeValue\<rparr>
   in Compare K a b < 0 \<and> Compare K a (FindShortestSeparator K a b) \<le> 0 \<and>
      Compare K (FindShortestSeparator K a b) b < 0"
proof -
  let ?K = "InternalKeyComparator BytewiseComparator"
  let ?a = "AppendInternalKey [] \<lparr>user_key = str ''the quick'', sequence = 5, ktype = kTypeValue\<rparr>"
  let ?b = "AppendInternalKey [] \<lparr>user_key = str ''the who'', sequence = 9, ktype = kTypeValue\<rparr>"
  have l: "8 \<le> length ?a" "8 \<le> length ?b" by (simp_all add: AppendInternalKey_def PutFixed64_def)
  have c: "Compare ?K ?a ?b < 0"
    by code_simp
  have "kTypeValue \<le> kTypeValue" "0 \<le> kMaxSequenceNumber" by simp_all
  from internal_keys_ordered [OF l this(2,1,2)] c show ?thesis by (simp add: Let_def)
qed


section \<open>Blocks\<close>

text \<open>C32: the iterator of a block that was built from any list of pairs, with any restart interval, yields exactly
  these pairs, forwards from \<open>SeekToFirst\<close> and backwards from \<open>SeekToLast\<close>.\<close>

theorem block_iterates_pairs:
  assumes "0 < interval" "length (block_of interval kvs) < 2 ^ 32" "Suc (length kvs) < fuel"
  shows "\<exists>it. NewIterator (Block (block_of interval kvs)) = BlockIterator it \<and>
    exec_bind (SeekToFirst it) (iterate Valid it_key iter_value Block_Next fuel) = Done kvs \<and>
    exec_bind (SeekToLast fuel it) (iterate Valid it_key iter_value Prev_in fuel) = Done (rev kvs)"
  using block_scans [OF assms] by blast

theorem block_iterates_pairs_witness:
  "\<exists>it. NewIterator (Block (block_of 2 [([1, 2], [9]), ([1, 2, 3], []), ([1, 4], [8, 8])])) = BlockIterator it \<and>
    exec_bind (SeekToFirst it) (iterate Valid it_key iter_value Block_Next 5) =
      Done [([1, 2], [9]), ([1, 2, 3], []), ([1, 4], [8, 8])]"
proof -
  let ?kvs = "[([1, 2], [9]), ([1, 2, 3], []), ([1, 4], [8, 8])] :: pairs"
  have "length (block_of 2 ?kvs) < 2 ^ 32" using length_block_of [of 2 ?kvs] by (simp add: pairs_size_def)
  with block_iterates_pairs [of 2 ?kvs 5] show ?thesis by auto
qed

text \<open>C33: in a block of internal keys in increasing order, \<open>Seek\<close> (the binary search over the restart points and the
  linear search after it) positions the iterator at the first key that is not before the target.\<close>

theorem block_seek_finds:
  assumes "0 < interval" "length (block_of interval kvs) < 2 ^ 32" "length (block_of interval kvs) < fuel"
    and "\<forall>(k, v) \<in> set kvs. 8 \<le> length k" "8 \<le> length target"
    and "sorted_wrt (\<lambda>a b. Compare (InternalKeyComparator BytewiseComparator) (fst a) (fst b) \<le> 0) kvs"
  shows "exec_bind (Block_Seek fuel (InternalKeyComparator BytewiseComparator) target (opened (block_of interval kvs)))
      (iterate Valid it_key iter_value Block_Next fuel) =
    Done (dropWhile (\<lambda>(k, v). Compare (InternalKeyComparator BytewiseComparator) k target < 0) kvs)"
  by (rule bytewise_db.internal.block_seek) (use assms in \<open>auto simp: internal_valid_def\<close>)

theorem block_seek_finds_witness:
  "let k = (\<lambda>u s. AppendInternalKey [] \<lparr>user_key = str u, sequence = s, ktype = kTypeValue\<rparr>);
       kvs = [(k ''a'' 4, [1 :: u8]), (k ''b'' 9, [2]), (k ''b'' 2, [3]), (k ''d'' 3, [4])]
   in exec_bind (Block_Seek 200 (InternalKeyComparator BytewiseComparator) (k ''b'' 5) (opened (block_of 2 kvs)))
        (iterate Valid it_key iter_value Block_Next 200) = Done [(k ''b'' 2, [3]), (k ''d'' 3, [4])]"
proof -
  let ?k = "\<lambda>u s. AppendInternalKey [] \<lparr>user_key = str u, sequence = s, ktype = kTypeValue\<rparr>"
  let ?kvs = "[(?k ''a'' 4, [1 :: u8]), (?k ''b'' 9, [2]), (?k ''b'' 2, [3]), (?k ''d'' 3, [4])]"
  let ?C = "InternalKeyComparator BytewiseComparator"
  have l: "length (block_of 2 ?kvs) < 200"
    using length_block_of [of 2 ?kvs] by (simp add: pairs_size_def AppendInternalKey_def PutFixed64_def)
  then have l2: "length (block_of 2 ?kvs) < 2 ^ 32" by (rule less_trans) simp
  have s: "sorted_wrt (\<lambda>a b. Compare ?C (fst a) (fst b) \<le> 0) ?kvs" by code_simp
  have d: "dropWhile (\<lambda>(k, v). Compare ?C k (?k ''b'' 5) < 0) ?kvs = [(?k ''b'' 2, [3]), (?k ''d'' 3, [4])]"
    by code_simp
  have v: "\<forall>(k, v) \<in> set ?kvs. 8 \<le> length k" "8 \<le> length (?k ''b'' 5)"
    by (simp_all add: AppendInternalKey_def PutFixed64_def)
  have "exec_bind (Block_Seek 200 ?C (?k ''b'' 5) (opened (block_of 2 ?kvs)))
      (iterate Valid it_key iter_value Block_Next 200) = Done (dropWhile (\<lambda>(k, v). Compare ?C k (?k ''b'' 5) < 0) ?kvs)"
    by (rule block_seek_finds [OF _ l2 l v s]) simp
  then show ?thesis unfolding d Let_def .
qed

section \<open>Version edits\<close>

text \<open>C34: a well-formed version edit is decoded from its encoding: every field of the edit, and the compaction
  pointers appended to those that the receiving edit already had, because \<open>Clear\<close> does not remove them.\<close>

theorem version_edit_roundtrip:
  assumes "edit_ok v"
  shows "DecodeFrom (EncodeTo v []) w = (OK, v\<lparr>ve_compact_pointers := ve_compact_pointers w @ ve_compact_pointers v\<rparr>)"
  by (rule Decode_Encode [OF assms])

theorem version_edit_roundtrip_witness:
  "let v = AddFile 2 7 100 [1] [2] (DeleteFile 1 5 (SetLogNumber 300 (SetComparatorName [65] new_VersionEdit)))
   in DecodeFrom (EncodeTo v []) new_VersionEdit = (OK, v)"
proof -
  let ?v = "AddFile 2 7 100 [1] [2] (DeleteFile 1 5 (SetLogNumber 300 (SetComparatorName [65] new_VersionEdit)))"
  have "edit_ok ?v"
    by (intro edit_ok_set edit_ok_new) (simp_all add: short_def level_ok_def kNumLevels_def)
  note r = version_edit_roundtrip [OF this, of new_VersionEdit]
  have "ve_compact_pointers ?v = []" "ve_compact_pointers new_VersionEdit = []"
    by simp_all
  moreover have "v\<lparr>ve_compact_pointers := []\<rparr> = v" if "ve_compact_pointers v = []" for v :: version_edit
    using that by (cases v) simp
  ultimately show ?thesis using r by (simp only: Let_def append_Nil)
qed

text \<open>C35: the well-formedness of an edit (levels in range, lengths of 32 bits, the set sorted and without duplicates,
  default values where nothing is set) is established by the constructor and kept by every setter and by
  decoding arbitrary bytes, whether the decoder succeeds or reports corruption.\<close>

theorem version_edit_well_typed:
  "edit_ok new_VersionEdit \<and>
   (edit_ok v \<longrightarrow> edit_ok (VersionEdit_Clear v) \<and> edit_ok (snd (DecodeFrom src v)) \<and>
      edit_ok (SetLogNumber n v) \<and> edit_ok (SetPrevLogNumber n v) \<and> edit_ok (SetNextFile n v) \<and>
      edit_ok (SetLastSequence n v) \<and>
      (level_ok l \<longrightarrow> edit_ok (DeleteFile l n v) \<and>
         (short a \<longrightarrow> edit_ok (SetCompactPointer l a v) \<and> edit_ok (SetComparatorName a v) \<and>
            (short b \<longrightarrow> edit_ok (AddFile l n s a b v)))))"
  by (intro conjI impI edit_ok_new edit_ok_Clear edit_ok_set DecodeFrom_ok; assumption)

theorem version_edit_well_typed_witness:
  "edit_ok (AddFile 6 1 1 [] [] (snd (DecodeFrom [7, 6, 1, 2, 0, 9] new_VersionEdit)))"
proof -
  have l: "level_ok 6" "short []" by (simp_all add: level_ok_def kNumLevels_def short_def)
  have "edit_ok (snd (DecodeFrom [7, 6, 1, 2, 0, 9] new_VersionEdit))"
    using version_edit_well_typed [of new_VersionEdit] by blast
  with version_edit_well_typed l show ?thesis by blast
qed

section \<open>Write batches\<close>

text \<open>C36: \<open>Iterate\<close> on a batch made by \<open>Put\<close>, \<open>Delete\<close> and \<open>Append\<close> hands the handler exactly these updates, in
  order, and reports OK.\<close>

theorem batch_iterates_updates:
  assumes "\<forall>u \<in> set us \<union> set vs. update_ok u" "length us + length vs < 2 ^ 31"
  shows "Iterate h (Batch_Append (fold add_update us Batch_Clear) (fold add_update vs Batch_Clear)) t =
    exec_bind (handle_all h (us @ vs) t) (\<lambda>t. Done (OK, t))"
proof -
  have b: "fold add_update us Batch_Clear = batch_rep 0 us" "fold add_update vs Batch_Clear = batch_rep 0 vs"
    using assms(2) add_updates_batch_rep [of "[]" us 0] add_updates_batch_rep [of "[]" vs 0]
    by (simp_all add: Clear_batch_rep)
  show ?thesis unfolding b
    using assms by (subst Append_batch_rep) (auto intro!: Iterate_batch_rep)
qed

theorem batch_iterates_updates_witness:
  "Iterate \<lparr>on_Put = (\<lambda>k v s. Done (s @ [Put k v])), on_Delete = (\<lambda>k s. Done (s @ [Delete k]))\<rparr>
     (Batch_Append (Batch_Put [1] [2, 3] Batch_Clear) (Batch_Delete [4] Batch_Clear)) [] =
   Done (OK, [Put [1] [2, 3], Delete [4]])"
  using batch_iterates_updates [of "[Put [1] [2, 3]]" "[Delete [4]]"
      "\<lparr>on_Put = (\<lambda>k v s. Done (s @ [Put k v])), on_Delete = (\<lambda>k s. Done (s @ [Delete k]))\<rparr>" "[]"]
  by simp

text \<open>C37: a batch that was cut at any byte after its header is reported as corrupted; but by then the handler has been
  given the complete records before the cut, and only those: the first \<open>i\<close> updates, where the record of the
  \<open>i\<close>-th ends at or before the cut and that of the next one after it.\<close>

theorem batch_cut_reported:
  assumes "\<forall>u \<in> set us. update_ok u" "length us < 2 ^ 31" "kHeader \<le> m" "m < length (batch_rep s us)"
  shows "\<exists>i < length us. length (batch_rep s (take i us)) \<le> m \<and> m < length (batch_rep s (take (Suc i) us)) \<and>
    (\<exists>msg. Iterate h (take m (batch_rep s us)) t =
      exec_bind (handle_all h (take i us) t) (\<lambda>t. Done (Corruption msg [], t)))"
  by (rule Iterate_cut [OF assms])

theorem batch_cut_reported_witness:
  "\<exists>msg. Iterate \<lparr>on_Put = (\<lambda>k v s. Done (s @ [k])), on_Delete = (\<lambda>k s. Done (s @ [k]))\<rparr>
     (take 19 (batch_rep 1 [Put [1] [2, 3], Delete [4]])) [] = Done (Corruption msg [], [[1]])"
proof -
  let ?h = "\<lparr>on_Put = (\<lambda>k v s. Done (s @ [k])), on_Delete = (\<lambda>k s. Done (s @ [k]))\<rparr>"
  let ?us = "[Put [1] [2, 3], Delete [4 :: u8]]"
  have l: "19 < length (batch_rep 1 ?us)" and e: "length (batch_rep 1 (take (Suc 0) ?us)) = 18" by code_simp+
  obtain i msg where i: "i < 2" "19 < length (batch_rep 1 (take (Suc i) ?us))"
    and r: "Iterate ?h (take 19 (batch_rep 1 ?us)) [] =
      exec_bind (handle_all ?h (take i ?us) []) (\<lambda>t. Done (Corruption msg [], t))"
  proof -
    have "\<forall>u \<in> set ?us. update_ok u" "length ?us < 2 ^ 31" "kHeader \<le> 19" by (simp_all add: kHeader_def)
    from batch_cut_reported [OF this l, of ?h "[]"] show thesis
      by (elim exE conjE) (rule that, simp_all)
  qed
  have "i \<noteq> 0" using i(2) e by (cases i) simp_all
  with i(1) have "i = Suc 0" by linarith
  then have "handle_all ?h (take i ?us) [] = Done [[1]]" by simp
  with r show ?thesis by auto
qed


section \<open>The skip list and the memtable\<close>

text \<open>C38: inserting an entry whose internal key is new into the memtable's skip list gives again a well-formed skip list
  (sorted bottom level, the chain of each level the nodes that are high enough), with the entry at its place
  in the order and everything else unchanged, whatever heights the random numbers choose.\<close>

theorem skip_list_insert:
  assumes "sl_holds (mem_compare BytewiseComparator) (mem_valid (\<lambda>_. True)) sl ks"
    and "mem_valid (\<lambda>_. True) e" "\<forall>k \<in> set ks. mem_compare BytewiseComparator k e \<noteq> 0"
  shows "\<exists>sl1. Insert (mem_compare BytewiseComparator) e sl = Done sl1 \<and>
    sl_holds (mem_compare BytewiseComparator) (mem_valid (\<lambda>_. True)) sl1
      (takeWhile (\<lambda>k. mem_compare BytewiseComparator k e < 0) ks @ e #
       dropWhile (\<lambda>k. mem_compare BytewiseComparator k e < 0) ks)"
  by (rule bytewise_db.table.Insert_holds [OF assms])

theorem skip_list_insert_witness:
  "\<exists>sl1. Insert (mem_compare BytewiseComparator) (mem_entry (1, Put [65] [66])) (SkipList []) = Done sl1 \<and>
     sl_holds (mem_compare BytewiseComparator) (mem_valid (\<lambda>_. True)) sl1 [mem_entry (1, Put [65] [66])]"
proof -
  have "mem_valid (\<lambda>_. True) (mem_entry (1, Put [65] [66]))"
    by (rule upd_ok_parts) (simp add: upd_ok_def)
  from skip_list_insert [OF SkipList_holds this, of "[]"] show ?thesis by simp
qed

text \<open>C39: a batch of updates that is inserted into a memtable with the sequence numbers from \<open>s\<close> on succeeds, and from
  then on a lookup of any key at any sequence number sees the last update of that key up to that number, in
  the history extended by the batch: its value, or its deletion, or nothing.\<close>

theorem memtable_serves_history:
  assumes "mem_history BytewiseComparator (\<lambda>_. True) m hs" "\<forall>(s1, _) \<in> set hs. s1 < s"
    and "unat s + length us \<le> 2 ^ 56" "length us < 2 ^ 31" "\<forall>u \<in> set us. upd_ok (\<lambda>_. True) u"
    and "length k + 8 < 2 ^ 32" "at \<le> kMaxSequenceNumber"
  shows "\<exists>m1. InsertInto BytewiseComparator (batch_rep s us) m = Done (OK, m1) \<and>
    mem_history BytewiseComparator (\<lambda>_. True) m1 (hs @ numbered s us) \<and>
    MemTable_Get BytewiseComparator (LookupKey k at) m1 out =
      Done (answer (latest BytewiseComparator (hs @ numbered s us) k at) out)"
  using bytewise_db.InsertInto_history [OF assms(1-3,5,4)] bytewise_db.Get_history assms(6,7) by blast

theorem memtable_serves_history_witness:
  "\<exists>m1. InsertInto BytewiseComparator (batch_rep 1 [Put [65] [1], Put [66] [2], Delete [65]]) MemTable = Done (OK, m1) \<and>
    MemTable_Get BytewiseComparator (LookupKey [65] 2) m1 ([], OK) = Done (True, [1], OK)"
proof -
  let ?us = "[Put [65] [1], Put [66] [2], Delete [65]]"
  have "\<forall>u \<in> set ?us. upd_ok (\<lambda>_. True) u" by (simp add: upd_ok_def)
  moreover have "(2 :: u64) \<le> kMaxSequenceNumber" by (simp add: kMaxSequenceNumber_def)
  moreover have "latest BytewiseComparator ([] @ numbered 1 ?us) [65] 2 = Some (Put [65] [1])"
    by (simp add: latest_def BytewiseComparator_def Slice_compare_0)
  ultimately show ?thesis
    using memtable_serves_history [OF mem_history_new, where s = 1 and us = ?us and k = "[65]" and at = 2 and out = "([], OK)"]
    by simp blast
qed

end
