(* ===== verification/Spec2Isabelle.thy ===== *)
theory Spec2Isabelle
  imports Pb_Example Pb_Encode_Spec Pb_Decode_Total FBase64 Ldb_Log_Proofs Ldb_Properties
begin

text \<open>
  Verification of the C and C++ code that the application \<open>PicksOnMap\<close> links: the pods
  nanopb, the Base64 routines of the Firebase database client, and LevelDB. The two
  applications themselves are Swift and are not modelled. Paths below are relative to
  \<open>src/1. PicksOnMap/Pods/\<close>; "LevelDB" is \<open>leveldb-library\<close>.

  \<^bold>\<open>The parts and how they interact.\<close> nanopb encodes structures in memory, described by
  arrays of field descriptors, as protocol buffer messages and decodes them; the encoder and
  the decoder share the field iterator and meet in the wire format. LevelDB stores key-value
  pairs; its durability rests on the write-ahead log, which uses the integer encodings, the
  checksum, the status type and the files of the environment. nanopb and LevelDB implement
  the same varint format, which is one reference definition here.

  \<^bold>\<open>Theories.\<close>
  \<^item> \<open>Prelude\<close>: machine words, the flat memory, little-endian loads and stores, the outcome
    type of code that may leave the defined behaviour of C. \<open>Varint\<close>: the reference varint
    format and the locale \<open>codec\<close> of self-delimiting encodings.
  \<^item> nanopb: \<open>Pb_Types\<close> (\<open>pb.h\<close>), \<open>Pb_Common\<close> (\<open>pb_common.c\<close>), \<open>Pb_Layout\<close> (the descriptor
    macros of \<open>pb.h\<close> over structures given by C types and offsets), \<open>Pb_Ostream\<close> and
    \<open>Pb_Encode\<close> (\<open>pb_encode.c\<close>), \<open>Pb_Istream\<close> and \<open>Pb_Decode\<close> (\<open>pb_decode.c\<close>); one
    definition per function, with the name of the function, and one per loop. The state is the
    stream record, the flat memory and the heap. \<open>Pb_Encode_Spec\<close> gives the wire format as a
    function of memory and shows that the encoder refines it; \<open>Pb_Istream_Lemmas\<close> holds the
    contracts of the readers; \<open>Pb_Decode_Safety\<close> and \<open>Pb_Decode_Total\<close> show that decoding is
    total and memory safe; \<open>Pb_Roundtrip\<close> and \<open>Pb_Message_Roundtrip\<close> that it inverts
    encoding; \<open>Pb_Example\<close> is a message on which the theorems are instantiated.
  \<^item> \<open>FBase64\<close>: \<open>f_b64_ntop\<close> and \<open>f_b64_pton\<close> of
    \<open>FirebaseDatabase/Firebase/Database/third_party/SocketRocket/fbase64.c\<close>, with the RFC 1521
    encoding as reference.
  \<^item> LevelDB: \<open>Ldb_Coding\<close> (\<open>util/coding\<close>), \<open>Ldb_Crc32c\<close> (\<open>util/crc32c\<close>), \<open>Ldb_Status\<close>
    (\<open>util/status.cc\<close>), \<open>Ldb_Env\<close> (file interfaces of \<open>include/leveldb/env.h\<close> as the locales
    \<open>appending_file\<close>, \<open>reading_file\<close> and \<open>random_file\<close>, and their POSIX implementations in
    \<open>util/env_posix.cc\<close>), \<open>Ldb_Log\<close> (\<open>db/log_format.h\<close>, \<open>db/log_writer\<close>, \<open>db/log_reader\<close>).
    \<open>Ldb_Log_Proofs\<close> proves the log correct in the locales, for any file that keeps the
    contracts; the properties here are the instances for the POSIX files.
  \<^item> The storage structures of LevelDB: \<open>Ldb_Filter\<close> (\<open>util/hash.cc\<close>, \<open>util/bloom.cc\<close>,
    \<open>table/filter_block.cc\<close>; the locale \<open>no_false_negatives\<close> is the contract of a filter policy),
    \<open>Ldb_Filename\<close> (\<open>util/logging.cc\<close>, \<open>db/filename.cc\<close>), \<open>Ldb_Dbformat\<close>
    (\<open>util/comparator.cc\<close>, \<open>db/dbformat\<close>; a comparator's contract as a locale, kept by the
    bytewise and by the internal comparator), \<open>Ldb_Block\<close>, \<open>Ldb_Block_Proofs\<close> and \<open>Ldb_Block_Iter\<close>
    (\<open>table/block_builder\<close>, \<open>table/block\<close>), \<open>Ldb_Version_Edit\<close> (\<open>db/version_edit\<close>),
    \<open>Ldb_Write_Batch\<close> (\<open>db/write_batch.cc\<close>), \<open>Ldb_Skiplist\<close> and \<open>Ldb_Skiplist_Proofs\<close>
    (\<open>db/skiplist.h\<close>, \<open>util/random.h\<close>; nodes are cells of a store, linked by their indices),
    \<open>Ldb_Memtable\<close> (\<open>db/memtable.cc\<close>). \<open>Ldb_Iterator\<close> is the contract of LevelDB's iterators,
    which the block iterator and the memtable iterator are both shown to keep.
  \<^item> Table files: \<open>Ldb_Wrapper\<close> (\<open>table/iterator_wrapper.h\<close>), \<open>Ldb_Two_Level\<close> and
    \<open>Ldb_Two_Level_Proofs\<close> (\<open>table/two_level_iterator.cc\<close>: an iterator over the concatenation of
    blocks), \<open>Ldb_Format\<close> (\<open>table/format\<close>, \<open>options.h\<close>), \<open>Ldb_Table_Builder\<close> and
    \<open>Ldb_Table_Build_Proofs\<close> (\<open>table/table_builder.cc\<close>: the bytes a built table consists of).
  \<^item> \<open>Ldb_Properties\<close> holds the properties of the storage structures, C28 to C39.

  \<^bold>\<open>What is shown.\<close> C1 to C4: the encoder writes what the wire format says, stops within a
  buffer that is too small, and its size and length prefix are right. C5, C6: on the descriptors made of
  a C structure, the iterator gives the addresses of its members, and the search for a tag ends. C7:
  decoding arbitrary input into static fields is total and memory safe. C8 to C13: plain messages,
  scalars and tags survive a round trip, and unknown fields are skipped exactly. C14 to C17: the Base64 routines against RFC 1521,
  error results and bounds included. C18 to C20: the encodings of LevelDB. C21, C22: the
  checksum against the bit-serial CRC-32C, and the errors it detects. C23 to C26: recovery
  from a log cut at any byte, the writer's invariant, termination of the reader on any file,
  and the report for a damaged last record. C27: statuses keep their code and message. C28: no key is
  lost to its filter. C29, C30: numbers and file names. C31: separators of internal keys. C32,
  C33: a block yields the pairs it was built from, in both directions, and \<open>Seek\<close> finds the first
  key that is not before the target. C34, C35: round trip and well-formedness of version edits.
  C36, C37: the updates of a batch reach the handler in order, and a cut batch is reported after the records before the cut. C38:
  the skip list's invariant. C39: the memtable implements the history of the updates.

  \<^bold>\<open>Bounds and fuel.\<close> The targets are 64-bit, little-endian, with signed \<open>char\<close>; words have
  the width of the C types. The recursion of nanopb over submessages takes its depth as fuel:
  the theorems hold for every depth at which the specification (\<open>message_bytes\<close>,
  \<open>static_ok\<close>) is defined, and running out is the outcome \<open>Out_of_fuel\<close>, which the theorems
  exclude. The loop of \<open>ReadRecord\<close> takes the number of physical records as fuel; C25 shows
  that the number of bytes left, plus one, is enough. The loops of the block iterator take fuel;
  the length of the block is enough, as C33 shows. The searches of the skip list take as many
  turns as there are nodes and levels (\<open>search_fuel\<close>), and C38 shows that they never run out.
  Batches are bounded by \<open>2 ^ 31\<close> updates, the width of their counter. All other loops are total
  functions.

  \<^bold>\<open>Left to the caller.\<close> A buffer stream of nanopb is read within \<open>bytes_left\<close>, which its creator
  promises not to exceed the buffer (\<open>pb_read_in_buffer\<close>); C7 excludes arrays of fixed count, whose
  initialisation can write behind the message (\<open>fixed_count_overrun\<close>). Assertions of LevelDB that are
  preconditions of a call are hypotheses of the lemmas or, where nothing depends on them, left out,
  as the theories say.

  \<^bold>\<open>Not modelled.\<close> The Swift applications and the Objective-C headers of the pods (no code of
  the modelled language). Of nanopb, the build without 64-bit integers. Of LevelDB: the reader of table
  files (\<open>table/table.cc\<close>) and the merging iterator, the database with its background threads, versions
  and compactions, the arena and the cache (memory management: allocation is taken to succeed and
  usage is not counted), the functions that only print (\<open>DebugString\<close>), \<open>SetCurrentFile\<close>, and of
  the POSIX environment everything but the sequential, writable and random access files. The skip
  list is modelled for one thread; that readers may run beside the writer is not. The SSE4.2 path of
  the checksum is not compiled into the application.
\<close>

unbundle bit_operations_syntax

section \<open>The message encoder\<close>

text \<open>C1: on a buffer with room for it, \<open>pb_encode\<close> returns true and has written exactly the
  bytes that \<open>message_bytes\<close>, the specification of the wire format, gives for the message.\<close>

theorem pb_encode_writes_message:
  assumes "message_bytes n E m fs a = Some bs" "length bs \<le> unat cap"
  shows "pb_encode n E m (pb_ostream_from_buffer cap) fs a =
           Done (True, (pb_ostream_from_buffer cap)
                         \<lparr>state := bs, bytes_written := of_nat (length bs)\<rparr>)"
  using emitsD_fits [OF pb.msg_emits [OF assms(1)], of "pb_ostream_from_buffer cap"] assms(2)
  by (simp add: pb_ostream_from_buffer_def)

theorem pb_encode_writes_message_witness:
  "pb_encode 1 ex_env ex_mem (pb_ostream_from_buffer 16) ex_fields 100 =
     Done (True, (pb_ostream_from_buffer 16)
                   \<lparr>state := [8, 150, 1, 18, 2, 104, 105], bytes_written := 7\<rparr>)"
  using pb_encode_writes_message [OF ex_message_bytes, of 16] by simp

text \<open>C2: on a buffer that is too small, \<open>pb_encode\<close> returns false, and what it has written is
  a prefix of the message that fits the buffer.\<close>

theorem pb_encode_buffer_too_small:
  assumes "message_bytes n E m fs a = Some bs" "unat cap < length bs" "length bs < 2 ^ 64"
  shows "\<exists>s k. pb_encode n E m (pb_ostream_from_buffer cap) fs a = Done (False, s) \<and>
               state s = take k bs \<and> k \<le> unat cap"
  using emitsD_full [OF pb.msg_emits [OF assms(1)], of "pb_ostream_from_buffer cap"] assms(2,3)
  by (auto simp: pb_ostream_from_buffer_def)

theorem pb_encode_buffer_too_small_witness:
  "\<exists>s k. pb_encode 1 ex_env ex_mem (pb_ostream_from_buffer 5) ex_fields 100 = Done (False, s) \<and>
         state s = take k [8, 150, 1, 18, 2, 104, 105] \<and> k \<le> 5"
  using pb_encode_buffer_too_small [OF ex_message_bytes, of 5] by simp

text \<open>C3: \<open>pb_get_encoded_size\<close> returns the length of the encoded message.\<close>

theorem pb_get_encoded_size_length:
  assumes "message_bytes n E m fs a = Some bs"
  shows "pb_get_encoded_size n E m fs a = Done (Some (of_nat (length bs)))"
  using emitsD_sizing [OF pb.msg_emits [OF assms], of PB_OSTREAM_SIZING]
  by (simp add: pb_get_encoded_size_def PB_OSTREAM_SIZING_def)

theorem pb_get_encoded_size_length_witness:
  "pb_get_encoded_size 1 ex_env ex_mem ex_fields 100 = Done (Some 7)"
  using pb_get_encoded_size_length [OF ex_message_bytes] by simp

text \<open>C4: \<open>pb_encode_delimited\<close> writes the length as a varint and then the message.\<close>

theorem pb_encode_delimited_writes:
  assumes "message_bytes n E m fs a = Some bs"
    and "length (vbytes (length bs) @ bs) \<le> unat cap"
  shows "pb_encode_delimited n E m (pb_ostream_from_buffer cap) fs a =
           Done (True, (pb_ostream_from_buffer cap)
                         \<lparr>state := vbytes (length bs) @ bs,
                          bytes_written := of_nat (length (vbytes (length bs) @ bs))\<rparr>)"
proof -
  have "length bs < 2 ^ 64" using assms(2) unat_u64_less [of cap] by simp
  from emitsD_fits [OF emits_submessage [of "pb_encode n E m", OF pb.msg_emits [OF assms(1)] this],
      of "pb_ostream_from_buffer cap"] assms(2)
  show ?thesis by (simp add: pb_ostream_from_buffer_def pb_encode_delimited_def)
qed

theorem pb_encode_delimited_writes_witness:
  "pb_encode_delimited 1 ex_env ex_mem (pb_ostream_from_buffer 8) ex_fields 100 =
     Done (True, (pb_ostream_from_buffer 8)
                   \<lparr>state := [7, 8, 150, 1, 18, 2, 104, 105], bytes_written := 8\<rparr>)"
  using pb_encode_delimited_writes [OF ex_message_bytes, of 8] by (simp add: vbytes_small)

section \<open>The field iterator\<close>

text \<open>C5: on the descriptors that the macros of \<open>pb.h\<close> make of a structure, the iterator's \<open>pData\<close>
  after \<open>i\<close> steps is the address of the \<open>i\<close>-th member of the structure, and \<open>pSize\<close> that of its
  \<open>has_\<close>, \<open>_count\<close> or \<open>which_\<close> member (of the member itself if there is none). The structure is given
  by the C types and offsets of its members: objects, arrays, pointers, callbacks and unions, with
  any padding.\<close>

theorem pb_field_iter_addresses:
  assumes "structure_ok ms" "i < length ms"
  shows "pData (iter_at (descriptors ms) d i) = d + int (offset_of (ms ! i)) \<and>
         pSize (iter_at (descriptors ms) d i) = d + int (companion_offset (ms ! i))"
  by (rule iter_at_member [OF assms])

theorem pb_field_iter_addresses_witness:
  "pData (iter_at (descriptors ex_record) 1000 1) = 1008 \<and> pSize (iter_at (descriptors ex_record) 1000 1) = 1004 \<and>
   pData (iter_at (descriptors ex_record) 1000 4) = 1040 \<and> pSize (iter_at (descriptors ex_record) 1000 4) = 1032 \<and>
   pData (iter_at (descriptors ex_record) 1000 5) = 1049 \<and> pSize (iter_at (descriptors ex_record) 1000 5) = 1048"
  using pb_field_iter_addresses [OF ex_record_ok(1), of 1 1000] pb_field_iter_addresses [OF ex_record_ok(1), of 4 1000]
    pb_field_iter_addresses [OF ex_record_ok(1), of 5 1000] ex_record_ok(2)
  by (simp add: ex_record_def companion_offset_def eval_nat_numeral del: iter_at.simps)

text \<open>C6: \<open>pb_field_iter_find\<close> ends within one round from any position; it stops on a field with
  the tag (never on an extension range) if there is one, and otherwise returns false with the
  iterator where it started.\<close>

theorem pb_field_iter_find_total:
  assumes "wf_fields fs" "s < length fs"
  shows "(\<exists>j < length fs. tag (fs ! j) = t \<and> PB_LTYPE (ftype (fs ! j)) \<noteq> PB_LTYPE_EXTENSION \<and>
            pb_field_iter_find (iter_at fs d s) t = Done (True, iter_at fs d j))
    \<or> (\<forall>f \<in> set fs. tag f = t \<longrightarrow> PB_LTYPE (ftype f) = PB_LTYPE_EXTENSION) \<and>
       pb_field_iter_find (iter_at fs d s) t = Done (False, iter_at fs d s)"
  by (rule pb_field_iter_find_spec [OF assms])

theorem pb_field_iter_find_total_witness:
  "\<exists>j < 2. pb_field_iter_find (iter_at ex_fields 100 (Suc 0)) 1 = Done (True, iter_at ex_fields 100 j)"
proof -
  have w: "wf_fields ex_fields" "Suc 0 < length ex_fields" "length ex_fields = 2"
    by (simp_all add: wf_fields_def ex_defs)
  have "\<not> (\<forall>f \<in> set ex_fields. tag f = 1 \<longrightarrow> PB_LTYPE (ftype f) = PB_LTYPE_EXTENSION)"
    by (simp add: ex_defs eval_iter)
  with pb_field_iter_find_total [OF w(1,2), of 1 100] w(3) show ?thesis by auto
qed

section \<open>The message decoder\<close>

text \<open>C7: decoding into a message of static fields (with submessages, unions and arrays that have a
  \<open>_count\<close> member) is total and memory safe on every input, from every stream and whatever the
  message held before: \<open>pb_decode\<close> returns, writes only inside the message, allocates and frees
  nothing, and gives no bytes back to the stream. Arrays of fixed count, which have no \<open>_count\<close>
  member, are excluded by \<open>static_ok\<close>, and must be: see \<open>fixed_count_overrun\<close>.\<close>

theorem pb_decode_total_and_safe:
  assumes "static_ok n E fs sz" "0 < d"
  shows "\<exists>ok s' h'. pb_decode n E s fs d h = Done (ok, s', h') \<and> bytes_left s' \<le> bytes_left s \<and>
           (\<forall>p. p < d \<or> d + sz \<le> p \<longrightarrow> hmem h' p = hmem h p) \<and> blocks h' = blocks h"
  using static_decoder.init_safe [OF assms order_refl, of s h]
  by (auto simp: safe_def keeps_def area_def)

theorem pb_decode_total_and_safe_witness:
  "\<exists>ok s' h'. pb_decode 2 ex_env (pb_istream_from_buffer [255, 1, 2] 3) ex_outer 100
       \<lparr>hmem = ex_mem, brk = 8192, limit = 8192, blocks = (\<lambda>_. None)\<rparr> = Done (ok, s', h') \<and>
     (\<forall>p. p < 100 \<or> 132 \<le> p \<longrightarrow> hmem h' p = ex_mem p)"
proof -
  have "static_ok 2 ex_env ex_outer 32" using ex_outer_static_ok by (simp only: numeral_2_eq_2)
  from pb_decode_total_and_safe [OF this, of 100 "pb_istream_from_buffer [255, 1, 2] 3"
      "\<lparr>hmem = ex_mem, brk = 8192, limit = 8192, blocks = (\<lambda>_. None)\<rparr>"]
  show ?thesis by auto
qed

text \<open>C8: encoding and decoding are inverse on plain messages (\<open>plain_message\<close>): every field is static,
  required or optional with a \<open>has_\<close> flag, and a scalar, a bytes or a string field; repeated and
  \<open>oneof\<close> fields, submessages and proto3 singular fields (optional without a flag) are excluded.
  When the encoder's specification gives bytes for such a message, and every string in it has its
  terminating NUL inside its member (\<open>strings_end\<close>; a string that fills its member is encoded, but
  the decoder refuses it), then \<open>pb_decode\<close> of exactly these bytes succeeds, consumes all of them,
  and every member of the decoded message, its presence flag included, is as it was in the original,
  wherever the two lie in memory.\<close>

theorem pb_message_roundtrip:
  assumes "plain_message fs" "0 < a" "0 < d" "strings_end fs m a"
    and "message_bytes (Suc n) E m fs a = Some bs" "length bs < 2 ^ 64"
  shows "\<exists>s' h'. pb_decode (Suc k) F (pb_istream_from_buffer bs (of_nat (length bs))) fs d h =
                   Done (True, s', h') \<and>
                 bytes_left s' = 0 \<and> same_message fs m a (hmem h') d"
  by (rule plain_roundtrip [OF assms])

theorem pb_message_roundtrip_witness:
  "\<exists>s' h'. pb_decode 1 ex_env (pb_istream_from_buffer [8, 150, 1, 18, 2, 104, 105] 7) ex_fields 500
       \<lparr>hmem = (\<lambda>_. 77), brk = 8192, limit = 8192, blocks = (\<lambda>_. None)\<rparr> = Done (True, s', h') \<and>
     same_message ex_fields ex_mem 100 (hmem h') 500"
  using pb_message_roundtrip [OF ex_fields_plain _ _ ex_strings_end ex_message_bytes [unfolded One_nat_def],
      of 500 0 ex_env "\<lparr>hmem = (\<lambda>_. 77), brk = 8192, limit = 8192, blocks = (\<lambda>_. None)\<rparr>"]
  by auto

section \<open>Streams\<close>

text \<open>C9: ten bytes are room enough for \<open>pb_encode_varint\<close> on every 64-bit value, and
  \<open>pb_decode_varint\<close> reads the value back and consumes all of them.\<close>

theorem varint_roundtrip:
  "\<exists>s t. pb_encode_varint (pb_ostream_from_buffer 10) v = (True, s) \<and>
         pb_decode_varint (pb_istream_from_buffer (state s) (bytes_written s)) = (Some v, t) \<and>
         bytes_left t = 0"
proof -
  have e: "pb_encode_varint (pb_ostream_from_buffer 10) v =
      (True, (pb_ostream_from_buffer 10)\<lparr>state := vbytes (unat v),
         bytes_written := of_nat (length (vbytes (unat v)))\<rparr>)"
    using emitsD_fits [OF emits_varint, of "pb_ostream_from_buffer 10" v] length_vbytes_u64 [of v]
    by (simp add: pb_ostream_from_buffer_def)
  show ?thesis
    unfolding e using reads_back [OF parses_varint, of v] length_vbytes_u64 [of v]
    by simp
qed

text \<open>C10: signed values survive the zig-zag encoding: \<open>pb_decode_svarint\<close> inverts
  \<open>pb_encode_svarint\<close>.\<close>

theorem svarint_roundtrip:
  "\<exists>s t. pb_encode_svarint (pb_ostream_from_buffer 10) v = (True, s) \<and>
         pb_decode_svarint (pb_istream_from_buffer (state s) (bytes_written s)) = (Some v, t) \<and>
         bytes_left t = 0"
proof -
  have e: "pb_encode_svarint (pb_ostream_from_buffer 10) v =
      (True, (pb_ostream_from_buffer 10)\<lparr>state := vbytes (unat (zigzag v)),
         bytes_written := of_nat (length (vbytes (unat (zigzag v))))\<rparr>)"
    using emitsD_fits [OF emits_svarint, of "pb_ostream_from_buffer 10" v]
      length_vbytes_u64 [of "zigzag v"]
    by (simp add: pb_ostream_from_buffer_def)
  show ?thesis
    unfolding e using reads_back [OF parses_svarint, of v] length_vbytes_u64 [of "zigzag v"]
    by simp
qed

text \<open>C11: a negative \<open>int32\<close> is written as the ten bytes of its 64-bit sign extension, and the
  32-bit reader accepts them and returns the value.\<close>

theorem negative_int32_roundtrip:
  assumes "sint (v :: u32) < 0"
  shows "\<exists>s t. pb_encode_varint (pb_ostream_from_buffer 10) (scast v) = (True, s) \<and>
               bytes_written s = 10 \<and>
               pb_decode_varint32 (pb_istream_from_buffer (state s) (bytes_written s)) = (Some v, t) \<and>
               bytes_left t = 0"
proof -
  let ?n = "2 ^ 64 - 2 ^ 32 + unat v"
  have n: "unat (scast v :: u64) = ?n" by (rule unat_scast_negative [OF assms])
  have len: "length (vbytes ?n) = 10"
    using length_vbytes_u64 [of "scast v"] length_vbytes_ge [of 9 ?n] unfolding n by simp
  have e: "pb_encode_varint (pb_ostream_from_buffer 10) (scast v) =
      (True, (pb_ostream_from_buffer 10)\<lparr>state := vbytes ?n, bytes_written := 10\<rparr>)"
    using emitsD_fits [OF emits_varint, of "pb_ostream_from_buffer 10" "scast v"] len unfolding n
    by (simp add: pb_ostream_from_buffer_def)
  have "drop_bit 31 v \<noteq> 0" by (rule negative_top_bit [OF assms])
  from reads_back [OF parses_varint32_negative [OF this]] len show ?thesis
    unfolding e by simp
qed

theorem negative_int32_roundtrip_witness:
  "\<exists>s t. pb_encode_varint (pb_ostream_from_buffer 10) (scast (-5 :: u32)) = (True, s) \<and>
         bytes_written s = 10 \<and>
         pb_decode_varint32 (pb_istream_from_buffer (state s) (bytes_written s)) = (Some (-5), t) \<and>
         bytes_left t = 0"
  using negative_int32_roundtrip [of "-5"] by simp

text \<open>C12: a field tag is read back as the field number and wire type it was written with, and is
  never taken for the end of the message.\<close>

theorem tag_roundtrip:
  assumes "unat wt < 8" "0 < unat t" "unat t < 2 ^ 29"
  shows "\<exists>s u. pb_encode_tag (pb_ostream_from_buffer 10) wt t = (True, s) \<and>
               pb_decode_tag (pb_istream_from_buffer (state s) (bytes_written s)) =
                 (True, wt, t, False, u) \<and> bytes_left u = 0"
proof -
  let ?n = "8 * unat t + unat wt"
  have len: "length (vbytes ?n) \<le> 10" by (rule length_vbytes_le) (use assms in simp_all)
  have e: "pb_encode_tag (pb_ostream_from_buffer 10) wt t =
      (True, (pb_ostream_from_buffer 10)\<lparr>state := vbytes ?n, bytes_written := of_nat (length (vbytes ?n))\<rparr>)"
    using emitsD_fits [OF emits_tag [OF assms(1)], of "pb_ostream_from_buffer 10" t] len
    by (simp add: pb_ostream_from_buffer_def)
  show ?thesis
    unfolding e
    using decode_tag_wire [OF assms(1,3) _ at_buffer_istream [of "vbytes ?n"]] assms(2) len
    by (simp add: advance_istream)
qed

theorem tag_roundtrip_witness:
  "\<exists>s u. pb_encode_tag (pb_ostream_from_buffer 10) PB_WT_STRING 300 = (True, s) \<and>
         pb_decode_tag (pb_istream_from_buffer (state s) (bytes_written s)) =
           (True, PB_WT_STRING, 300, False, u) \<and> bytes_left u = 0"
  using tag_roundtrip [of PB_WT_STRING 300] by (simp add: wt_defs)

text \<open>C13: forward compatibility: \<open>pb_skip_field\<close>, given the wire type the encoder uses for a
  field, skips exactly the bytes of any value of that field.\<close>

theorem skip_field_skips_value:
  assumes "value_bytes E m msg f a = Some bs" "field_wire_type (PB_LTYPE (ftype f)) = Some wt"
    and "length bs < 2 ^ 32" "at_buffer bs s"
  shows "pb_skip_field s wt = (True, advance (length bs) s)"
  by (rule consumesD [OF value_skipped [OF assms(1-3)] assms(4)])

theorem skip_field_skips_value_witness:
  "pb_skip_field (pb_istream_from_buffer [2, 104, 105, 8] 4) PB_WT_STRING =
     (True, advance 3 (pb_istream_from_buffer [2, 104, 105, 8] 4))"
proof -
  have v: "value_bytes ex_env ex_mem (\<lambda>_ _. None) (ex_fields ! Suc 0) 105 = Some [2, 104, 105]"
    "field_wire_type (PB_LTYPE (ftype (ex_fields ! Suc 0))) = Some PB_WT_STRING"
    by (simp_all add: eval_encode ex_defs eval_iter ex_mem_def eval_mem)
  have "at_buffer [2, 104, 105] (pb_istream_from_buffer [2, 104, 105, 8] 4)"
    by (simp add: at_buffer_def pb_istream_from_buffer_def)
  from skip_field_skips_value [OF v _ this] show ?thesis by (simp add: numeral_3_eq_3)
qed

subsection \<open>Base64\<close>

text \<open>C14: the Base64 encoder writes the RFC 1521 encoding of its input and a terminating NUL and
  returns the length without the NUL, when that fits the buffer, and returns -1 otherwise; in both
  cases it changes no byte outside the buffer.\<close>

theorem f_b64_ntop_correct:
  assumes "targsize < 2 ^ 31"
  shows "case f_b64_ntop m src target targsize of (r, m1) \<Rightarrow>
    (if length (base64 src) < targsize
     then r = int (length (base64 src)) \<and> rd_bytes m1 target (length (base64 src) + 1) = base64 src @ [0]
     else r = -1) \<and>
    (\<forall>p. p < target \<or> target + int targsize \<le> p \<longrightarrow> m1 p = m p)"
  using f_b64_ntop_result [of targsize src m target] assms
  by (auto simp: as_int_small written_def only_buffer_def split: if_splits)

theorem f_b64_ntop_correct_witness:
  "case f_b64_ntop (\<lambda>_. 0) [1, 2, 3, 4] 100 9 of (r, m1) \<Rightarrow>
     r = 8 \<and> rd_bytes m1 100 9 = base64 [1, 2, 3, 4] @ [0] \<and> m1 109 = 0"
  using f_b64_ntop_correct [where targsize = 9 and m = "\<lambda>_. 0" and src = "[1, 2, 3, 4]" and target = 100]
  by (auto simp: length_base64)

text \<open>C15: the Base64 decoder accepts only canonical encodings (C16 shows that it accepts them all): when it
  does not return -1, the characters without white space are the encoding of the bytes it has stored, so no two
  different texts (white space apart) decode to the same bytes.\<close>

theorem f_b64_pton_sound:
  assumes "f_b64_pton m cs target targsize = (r, m1)" "r \<noteq> -1" "target \<noteq> 0" "length cs < 2 ^ 31"
  shows "0 \<le> r \<and> filter (\<lambda>ch. \<not> isspace ch) cs = base64 (rd_bytes m1 target (nat r))"
  using f_b64_pton_canonical [OF assms] by (auto simp: strip_def)

theorem f_b64_pton_sound_witness:
  "\<exists>m1. f_b64_pton (\<lambda>_. 0) (0x20 # base64 [1, 2, 3, 4]) 100 8 = (4, m1) \<and>
     filter (\<lambda>ch. \<not> isspace ch) (0x20 # base64 [1, 2, 3, 4]) = base64 (rd_bytes m1 100 4)"
proof -
  have "strip (0x20 # base64 [1, 2, 3, 4]) = base64 [1, 2, 3, 4]"
    using strip_base64 [of "[1, 2, 3, 4]"] by (simp add: strip_Cons isspace_def)
  from f_b64_pton_base64 [OF this, of 100 8 "\<lambda>_. 0"]
  obtain m1 where "f_b64_pton (\<lambda>_. 0) (0x20 # base64 [1, 2, 3, 4]) 100 8 = (4, m1)" by auto
  from f_b64_pton_sound [OF this] this show ?thesis by (auto simp: length_base64)
qed

text \<open>C16: decoding what the encoder wrote restores the bytes, whatever white space has been
  inserted into the text.\<close>

theorem base64_roundtrip:
  assumes "f_b64_ntop m src target targsize = (r, m1)" "r \<noteq> -1" "targsize < 2 ^ 31"
    and "filter (\<lambda>ch. \<not> isspace ch) cs = rd_bytes m1 target (nat r)"
    and "target2 \<noteq> 0" "length src < targsize2"
  shows "\<exists>m3. f_b64_pton m2 cs target2 targsize2 = (int (length src), m3) \<and>
              rd_bytes m3 target2 (length src) = src"
proof -
  have l: "length src \<le> length (base64 src)" by (simp add: length_base64)
  have "strip cs = base64 src" "length (base64 src) < targsize"
    using f_b64_ntop_correct [OF assms(3), where m = m and src = src and target = target] assms(1-4)
    by (auto simp: rd_bytes_snoc strip_def split: if_splits)
  from f_b64_pton_base64 [OF this(1) assms(5,6)] this(2) l assms(3) show ?thesis by simp
qed

theorem base64_roundtrip_witness:
  "\<exists>m1 m3. f_b64_ntop (\<lambda>_. 0) [255, 254] 100 5 = (4, m1) \<and>
     f_b64_pton m1 (rd_bytes m1 100 4) 200 3 = (2, m3) \<and> rd_bytes m3 200 2 = [255, 254]"
proof -
  obtain m1 where m1: "f_b64_ntop (\<lambda>_. 0) [255, 254] 100 5 = (4, m1)"
      "rd_bytes m1 100 4 = base64 [255, 254]"
    using f_b64_ntop_result [of 5 "[255, 254]" "\<lambda>_. 0" 100]
    by (auto simp: length_base64 as_int_small written_def rd_bytes_snoc [of _ _ 4, simplified])
  have "filter (\<lambda>ch. \<not> isspace ch) (rd_bytes m1 100 4) = rd_bytes m1 100 (nat 4)"
    using strip_base64 [of "[255, 254]"] unfolding m1(2) strip_def by (simp add: m1(2))
  from base64_roundtrip [OF m1(1) _ _ this, of 200 3 m1] m1(1) show ?thesis
    by (auto simp flip: numeral_2_eq_2)
qed

text \<open>C17: the Base64 decoder never writes outside its buffer, whatever the text, and with a null
  buffer it writes nothing.\<close>

theorem f_b64_pton_bounds:
  assumes "f_b64_pton m cs target targsize = (r, m1)"
  shows "\<forall>p. target = 0 \<or> p < target \<or> target + int targsize \<le> p \<longrightarrow> m1 p = m p"
  using f_b64_pton_inside [OF assms] by (auto simp: only_buffer_def)

theorem f_b64_pton_bounds_witness:
  "snd (f_b64_pton (\<lambda>_. 7) (base64 [1, 2, 3, 4]) 100 3) 103 = 7"
  using f_b64_pton_bounds [of "\<lambda>_. 7" "base64 [1, 2, 3, 4]" 100 3] by (cases "f_b64_pton (\<lambda>_. 7) (base64 [1, 2, 3, 4]) 100 3") simp

section \<open>The storage engine\<close>

subsection \<open>Integer and slice encodings\<close>

text \<open>C18: the varints of LevelDB and of nanopb are one encoding: the unrolled 32-bit encoder, the
  64-bit encoder and nanopb's encoder write the same bytes, \<open>VarintLength\<close> is their number, and
  each of the two decoders reads what the other library wrote.\<close>

theorem varint_encodings_agree:
  "EncodeVarint64 (ucast v) = EncodeVarint32 v \<and>
   VarintLength w = length (EncodeVarint64 w) \<and>
   (\<exists>s t. pb_encode_varint (pb_ostream_from_buffer 10) w = (True, s) \<and> state s = EncodeVarint64 w \<and>
      GetVarint64 (state s @ rest) = (Some w, rest) \<and>
      pb_decode_varint (pb_istream_from_buffer (EncodeVarint64 w) (of_nat (VarintLength w))) = (Some w, t) \<and>
      bytes_left t = 0)"
proof -
  have u: "unat (ucast v :: u64) = unat v" by (simp add: unsigned_ucast_eq take_bit_nat_eq_self unsigned_less [THEN less_trans])
  have e: "pb_encode_varint (pb_ostream_from_buffer 10) w =
      (True, (pb_ostream_from_buffer 10)\<lparr>state := vbytes (unat w),
         bytes_written := of_nat (length (vbytes (unat w)))\<rparr>)"
    using emitsD_fits [OF emits_varint, of "pb_ostream_from_buffer 10" w] length_vbytes_u64 [of w]
    by (simp add: pb_ostream_from_buffer_def)
  show ?thesis
    using reads_back [OF parses_varint, of w] length_vbytes_u64 [of w] GetVarint64_Encode [of w rest]
    unfolding e EncodeVarint32_vbytes EncodeVarint64_vbytes VarintLength_vbytes u by auto
qed

text \<open>C19: fixed-width integers are read back on every host: each of the two code paths of the
  decoders inverts each of the two code paths of the encoders, whatever follows in the buffer.\<close>

theorem fixed_roundtrip:
  "DecodeFixed32 le (EncodeFixed32 le' v @ r) = v \<and> DecodeFixed64 le (EncodeFixed64 le' w @ r) = w \<and>
   length (EncodeFixed32 le' v) = 4 \<and> length (EncodeFixed64 le' w) = 8"
  by simp

text \<open>C20: a sequence of length-prefixed slices, appended one after the other, is parsed back slice
  by slice.\<close>

theorem length_prefixed_roundtrip:
  assumes "length s < 2 ^ 32"
  shows "PutLengthPrefixedSlice dst s = dst @ prefixed s \<and>
    GetLengthPrefixedSlice (prefixed s @ rest) = (Some s, rest)"
  using GetLengthPrefixedSlice_prefixed [OF assms] by (simp add: PutLengthPrefixedSlice_prefixed)

theorem length_prefixed_roundtrip_witness:
  "GetLengthPrefixedSlice (PutLengthPrefixedSlice [] [7, 8] @ [9]) = (Some [7, 8], [9])"
  using length_prefixed_roundtrip [of "[7, 8]" "[]" "[9]"] by simp

subsection \<open>The checksum\<close>

text \<open>C21: the table-driven checksum is CRC-32C: for every alignment of the buffer it is the bit-serial
  division by the Castagnoli polynomial, and checksumming in two pieces gives the same value.\<close>

theorem Extend_is_crc32c:
  "Extend pval crc buf = crc32c crc buf \<and> Extend p crc (a @ b) = Extend q (Extend r crc a) b"
  by (simp add: Extend_crc32c crc32c_append)

text \<open>C22: the checksum detects every change confined to four consecutive bytes, and masking a stored
  checksum loses nothing.\<close>

theorem checksum_detects_burst:
  assumes "Unmask (Mask (Value p (a @ w @ b))) = Value q (a @ w' @ b)" "length w = length w'" "length w \<le> 4"
  shows "w = w'"
  using crc32c_burst [of 0 a w b w'] assms by (simp add: Value_def Extend_crc32c)

theorem checksum_detects_burst_witness:
  "Unmask (Mask (Value 1 ([1, 2] @ [3] @ [4]))) = Value 2 ([1, 2] @ [3] @ [4]) \<and> [3 :: u8] = [3]"
  using checksum_detects_burst [of 1 "[1, 2]" "[3]" "[4]" 2 "[3]"]
  by (simp add: Value_def Extend_crc32c)

subsection \<open>The write-ahead log\<close>

text \<open>C23: recovery after a crash: when records \<open>ss1\<close> and then \<open>ss2\<close> are added to an empty log and
  the file that is read back is cut at any byte that is not before the end of \<open>ss1\<close>, the reader
  returns all of \<open>ss1\<close> and then a prefix of \<open>ss2\<close>, never a damaged or partial record, and
  reports no corruption.\<close>

theorem log_recovers_prefix:
  assumes "writable p" "posix_contents p = []"
    and "add_all PosixWritableFile (Writer p) ss1 = (st1, w1)"
    and "add_all PosixWritableFile (Writer p) (ss1 @ ss2) = (st, w)"
    and "readable q" "posix_rest q = take k (posix_contents (dest w))"
    and "length (posix_contents (dest w1)) \<le> k"
    and "length (posix_contents (dest w)) < fuel" "length (ss1 @ ss2) < n"
  shows "st = OK \<and> (\<exists>j r.
    read_all n fuel PosixSequentialFile (Reader q reporter checksum 0) = Some (ss1 @ take j ss2, r) \<and>
    reports r = [])"
  by (rule posix_log.log_prefix [OF assms])

theorem log_recovers_prefix_witness:
  "\<exists>w r. add_all PosixWritableFile (Writer (good_file [])) [[1, 2], [3]] = (OK, w) \<and>
     read_all 3 (length (posix_contents (dest w)) + 1) PosixSequentialFile
       (Reader (good_file (posix_contents (dest w))) True True 0) = Some ([[1, 2], [3]], r)"
proof -
  obtain st w where w: "add_all PosixWritableFile (Writer (good_file [])) [[1, 2], [3]] = (st, w)"
    by fastforce
  have "st = OK \<and> (\<exists>j r. read_all 3 (length (posix_contents (dest w)) + 1) PosixSequentialFile
      (Reader (good_file (posix_contents (dest w))) True True 0) = Some ([[1, 2], [3]] @ take j [], r) \<and>
      reports r = [])"
    by (rule log_recovers_prefix [where p = "good_file []" and k = "length (posix_contents (dest w))"
          and w = w, OF _ _ w]) (simp_all add: w del: add_all.simps)
  then show ?thesis using w by auto
qed

text \<open>C24: whatever has been written, the writer's block offset is the position of the end of the file
  in its block, so that no fragment crosses a block boundary.\<close>

theorem log_block_offset:
  assumes "writable p" "posix_contents p = []" "add_all PosixWritableFile (Writer p) ss = (st, w)"
  shows "block_offset w \<le> kBlockSize \<and>
    length (posix_contents (dest w)) mod kBlockSize = block_offset w mod kBlockSize"
  by (rule posix_w.add_all_block [OF assms])

theorem log_block_offset_witness:
  "case add_all PosixWritableFile (Writer (good_file [])) [[1], []] of (st, w) \<Rightarrow> block_offset w \<le> kBlockSize"
  using log_block_offset [of "good_file []" "[[1], []]"]
  by (cases "add_all PosixWritableFile (Writer (good_file [])) [[1], []]") simp



text \<open>C26: damage to the last record of a log: records \<open>ss\<close> are added to an empty log and then one more
  that fits into what is left of its block (so that it is a single fragment); if at most four
  consecutive bytes of the payload of that last record are changed in the file, the reader returns
  exactly the records \<open>ss\<close>, and it reports once, for the damaged record, the bytes dropped and the reason.
  Not covered are damaged records of several fragments, for which the reader may report the remaining
  fragments too, and records behind a damaged one, which are dropped with it up to the end of the block.\<close>

theorem log_damage_reported:
  assumes "writable p" "posix_contents p = []"
    and "add_all PosixWritableFile (Writer p) ss = (st0, w0)"
    and "add_all PosixWritableFile (Writer p) (ss @ [a @ x @ b]) = (st, w)"
    and "start_offset (block_offset w0) + kHeaderSize + length (a @ x @ b) \<le> kBlockSize"
    and "length y = length x" "length x \<le> 4" "y \<noteq> x"
    and "readable q"
    and "posix_rest q =
      take (length (posix_contents (dest w)) - length (a @ x @ b)) (posix_contents (dest w)) @ a @ y @ b"
    and "length (posix_contents (dest w)) < fuel" "length ss < n"
  shows "\<exists>r. read_all n fuel PosixSequentialFile (Reader q True True 0) = Some (ss, r) \<and>
    reports r = [(of_nat (kHeaderSize + length (a @ x @ b)), Corruption (str ''checksum mismatch'') [])]"
  by (rule posix_log.damaged_record [OF assms])

theorem log_damage_reported_witness:
  "\<exists>st w r. add_all PosixWritableFile (Writer (good_file [])) [[7], [1, 2, 3]] = (st, w) \<and>
     read_all 2 100 PosixSequentialFile
       (Reader (good_file (take 15 (posix_contents (dest w)) @ [1, 9, 3])) True True 0) = Some ([[7]], r) \<and>
     reports r = [(10, Corruption (str ''checksum mismatch'') [])]"
proof -
  let ?W = "Writer (good_file [])"
  have o: "start_offset 0 = 0" "padding 0 = 0" "start_offset 8 = 8" "padding 8 = 0"
    by (simp_all add: start_offset_def padding_def kBlockSize_def kHeaderSize_def)
  obtain st0 w0 where w0: "add_all PosixWritableFile ?W [[7]] = (st0, w0)" by fastforce
  obtain st w where w: "add_all PosixWritableFile ?W ([[7]] @ [[1] @ [2] @ [3]]) = (st, w)" by fastforce
  have ok: "posix_w.writer_ok ?W" by (simp add: posix_w.writer_ok_def Writer_def)
  obtain w1 where w1: "AddRecord PosixWritableFile ?W [7] = (OK, w1)"
      "posix_contents (dest w1) = phys kFullType [7]"
    using posix_log.AddRecord_one_fragment [OF ok, of "[7]"]
    by (auto simp: Writer_def o kHeaderSize_def kBlockSize_def)
  with w0 have e: "st0 = OK" "w0 = w1" by (simp_all add: Let_def)
  have l0: "length (posix_contents (dest w0)) = 8" by (simp add: e w1(2) kHeaderSize_def)
  have "e = 8" if "e \<le> 32768" "e mod 32768 = 8" for e :: nat
    using that by (cases "e = 32768") auto
  moreover have "block_offset w0 \<le> kBlockSize \<and>
    length (posix_contents (dest w0)) mod kBlockSize = block_offset w0 mod kBlockSize"
    by (rule posix_w.add_all_block [OF _ _ w0]) simp_all
  ultimately have b0: "block_offset w0 = 8" unfolding l0 by (simp add: kBlockSize_def)
  have "posix_w.writer_ok w0" using posix_w.add_all_frags [OF ok, of "[[7]]"] w0 by auto
  from posix_log.AddRecord_one_fragment [OF this, of "[1, 2, 3]"] obtain w2 where
    w2: "AddRecord PosixWritableFile w0 [1, 2, 3] = (OK, w2)"
      "posix_contents (dest w2) = posix_contents (dest w0) @ phys kFullType [1, 2, 3]"
    by (auto simp: b0 o kHeaderSize_def kBlockSize_def)
  with w w1(1) e have "w = w2" by (simp add: Let_def)
  then have c: "length (posix_contents (dest w)) = 18" by (simp add: w2(2) l0 kHeaderSize_def)
  have "\<exists>r. read_all 2 100 PosixSequentialFile
      (Reader (good_file (take 15 (posix_contents (dest w)) @ [1] @ [9] @ [3])) True True 0) = Some ([[7]], r) \<and>
    reports r = [(of_nat (kHeaderSize + length ([1] @ [2 :: u8] @ [3])), Corruption (str ''checksum mismatch'') [])]"
    by (rule log_damage_reported [OF _ _ w0 w]) (simp_all add: c b0 o kHeaderSize_def kBlockSize_def)
  then show ?thesis using w by (auto simp: kHeaderSize_def)
qed

text \<open>C27: a status made by any of the five constructors of errors is an error, has the code of its
  constructor and no other, is unchanged by a copy, and is printed with the name of its code and the
  two parts of its message.\<close>

theorem status_keeps_error:
  assumes "(mk, code, name) \<in> {(NotFound, kNotFound, ''NotFound: ''), (Corruption, kCorruption, ''Corruption: ''),
      (NotSupported, kNotSupported, ''Not implemented: ''), (InvalidArgument, kInvalidArgument, ''Invalid argument: ''),
      (IOError, kIOError, ''IO error: '')}"
    and "length msg + length msg2 + 2 < 2 ^ 32" 
  shows "\<not> ok (mk msg msg2) \<and> copy_status (mk msg msg2) = mk msg msg2 \<and>
    status_code (mk msg msg2) = code \<and>
    (IsNotFound (mk msg msg2) \<longleftrightarrow> mk = NotFound) \<and> (IsCorruption (mk msg msg2) \<longleftrightarrow> mk = Corruption) \<and>
    (IsNotSupportedError (mk msg msg2) \<longleftrightarrow> mk = NotSupported) \<and>
    (IsInvalidArgument (mk msg msg2) \<longleftrightarrow> mk = InvalidArgument) \<and> (IsIOError (mk msg msg2) \<longleftrightarrow> mk = IOError) \<and>
    ToString (mk msg msg2) = str name @ (if msg2 = [] then msg else msg @ str '': '' @ msg2)"
proof -
  have m: "mk = make_status code"
    using assms(1) by (auto simp: status_makers fun_eq_iff)
  have d: "make_status c = make_status c' \<longleftrightarrow> c = c'" for c c'
    by (metis status_code_make)
  have e: "NotFound = make_status kNotFound" "Corruption = make_status kCorruption"
    "NotSupported = make_status kNotSupported" "InvalidArgument = make_status kInvalidArgument"
    "IOError = make_status kIOError"
    by (simp_all add: status_makers fun_eq_iff)
  have "(code, name) \<in> {(kNotFound, ''NotFound: ''), (kCorruption, ''Corruption: ''),
      (kNotSupported, ''Not implemented: ''), (kInvalidArgument, ''Invalid argument: ''), (kIOError, ''IO error: '')}"
    using assms(1) by auto
  from ToString_make [OF assms(2) this] copy_status_make [OF assms(2)] show ?thesis
    by (simp add: message_of_def m e d status_tests)
qed

theorem status_keeps_error_witness:
  "ToString (NotSupported (str ''a'') (str ''b'')) = str ''Not implemented: a: b'' \<and>
   \<not> IsInvalidArgument (NotSupported (str ''a'') (str ''b''))"
proof -
  have l: "length (str ''a'') + length (str ''b'') + 2 < 2 ^ 32" by simp
  have "NotSupported = InvalidArgument \<longleftrightarrow> False"
  proof -
   have "status_code (NotSupported [] []) \<noteq> status_code (InvalidArgument [] [])"
     by (simp add: status_makers code_defs)
   then show ?thesis by auto
  qed
  with status_keeps_error [of NotSupported kNotSupported "''Not implemented: ''", OF _ l] show ?thesis by simp
qed
section \<open>Where the code departs from its intention\<close>

text \<open>A 35-bit varint followed by a zero byte: the check for overflow only looks at a fifth byte that is the
  final one, so three bits of the value are lost and the result is 0 instead of an error.\<close>

lemma varint32_overflow_missed:
  "\<exists>s. pb_decode_varint32 (pb_istream_from_buffer [0x80, 0x80, 0x80, 0x80, 0xF0, 0x00] 6) = (Some 0, s) \<and>
    bytes_left s = 0"
  by (simp add: pb_decode_varint32_def pb_decode_varint32_eof_def pb_istream_from_buffer_def readbyte_buffer
      varint32_loop.simps)

text \<open>The initialisation of an array of fixed count stores the four bytes of a count that it does not
  have: for a message that is just \<open>bool flags[2]\<close>, two bytes behind the message are overwritten.\<close>

lemma fixed_count_overrun:
  defines "fs \<equiv> [PB_REPEATED_FIXED_COUNT 1 0 1 2 PB_LTYPE_VARINT Ptr_null]"
  shows "prev_field_size (fs ! 0) = 2 \<and>
    (\<exists>h1. pb_message_set_to_defaults (Suc n) E fs d h = Done h1 \<and> rd_bytes (hmem h1) (d + 2) 2 = [0, 0])"
proof -
  have wf: "wf_fields fs" "fs \<noteq> []" and ne: "fst (pb_field_iter_begin fs d)"
    and it: "cur (iter_at fs d 0) = fs ! 0" "pSize (iter_at fs d 0) = d"
    and f: "PB_LTYPE (ftype (fs ! 0)) = PB_LTYPE_VARINT" "PB_ATYPE (ftype (fs ! 0)) = PB_ATYPE_STATIC"
      "PB_HTYPE (ftype (fs ! 0)) = PB_HTYPE_REPEATED" "prev_field_size (fs ! 0) = 2" "length fs = Suc 0"
    by (simp_all add: wf_fields_def fs_def pb_field_macros eval_iter)
  have "pb_field_set_to_default (Suc n) E (iter_at fs d 0) h = Done (upd h (\<lambda>m. wr32 m d 0))"
    by (simp add: it f Let_def del: iter_at.simps)
  then have "pb_message_set_to_defaults (Suc n) E fs d h = Done (upd h (\<lambda>m. wr32 m d 0))"
    using ne for_fields_seq_upto [OF wf, where d = d and s = h] f(5)
    by (simp add: pb_message_set_to_defaults_def each_field_def case_prod_beta
        del: pb_field_set_to_default.simps iter_at.simps)
  moreover have "rd_bytes (wr32 m d 0) (d + 2) 2 = [0, 0]" for m
    by (simp add: wr32_def numeral_eq_Suc rd_bytes_Suc add.commute)
  ultimately show ?thesis by (simp add: f upd_def)
qed

text \<open>The Objective-C caller of the Base64 encoder allocates \<open>(3 n + 2) / 2\<close> bytes, which is too small for
  10 bytes of data (and for 1, 2, 4, 5, 7 and 13).\<close>

lemma base64_buffer_too_small:
  assumes "length bs = 10"
  shows "\<exists>m1. f_b64_ntop m bs target ((length bs * 3 + 2) div 2) = (-1, m1)"
  using f_b64_ntop_result [of 16 bs m target] assms by (auto simp: length_base64 split: if_splits)

text \<open>A record of the unused type 5 with a valid checksum ends the reading of the log without a report,
  whatever follows it.\<close>

lemma log_type_5_is_end_of_file:
  assumes "kHeaderSize + length p \<le> kBlockSize"
  shows "\<exists>r. ReadRecord 1 PosixSequentialFile (Reader (good_file (phys 5 p @ S)) True True 0) [] [] =
    Some (False, [], [], r) \<and> reports r = []"
proof -
  have "posix_r.at_pos (Reader (good_file (phys 5 p @ S)) True True 0) kBlockSize (phys 5 p @ S)"
    by (rule posix_r.at_pos_Reader) simp_all
  from posix_r.ReadRecord_type_5 [OF this assms, of 0 "[]" "[]"] show ?thesis
    by (auto simp: Reader_def)
qed

end
